(* ===== verification/Fluvio_Prelude.thy ===== *)
theory Fluvio_Prelude
  imports Main "HOL-Library.Word" "HOL-Library.Monad_Syntax"
begin

text \<open>
  Shared vocabulary of the development: the machine integers of the Rust
  sources as words, the faults an operation can end with, ordered maps as
  strictly sorted association lists (the iteration order of a \<open>BTreeMap\<close>),
  big-endian byte strings, and the generic lemmas the components share.

  Integer arithmetic follows the release profile of the workspace manifest,
  which does not switch overflow checks on: it wraps around, and the shift
  amount of a \<open>w\<close>-bit shift is taken modulo \<open>w\<close>.
\<close>

section \<open>Types and collections\<close>

type_synonym u8 = "8 word"
type_synonym i8 = "8 word"
type_synonym u16 = "16 word"
type_synonym i16 = "16 word"
type_synonym u32 = "32 word"
type_synonym i32 = "32 word"
type_synonym u64 = "64 word"
type_synonym i64 = "64 word"
type_synonym bytes = "u8 list"

text \<open>
  An operation fails with an \<open>std::io::Error\<close> of some kind or with a panic,
  or it does not return (\<open>Diverge\<close>). Callers can recover only from the first.
\<close>

datatype error_kind = UnexpectedEof | InvalidData | InvalidInput | OtherError

datatype fault = IoErr error_kind | Panic | Diverge

named_theorems codec_defs \<open>definitions of the encoder and decoder dictionaries\<close>
named_theorems codec_simps \<open>evaluation of encoders and decoders on whole values\<close>
named_theorems store_simps \<open>observations of the epoch maps and metadata stores\<close>
named_theorems repl_simps \<open>observations of the replication state\<close>

section \<open>Ordered maps\<close>

text \<open>
  A \<open>BTreeMap<K, V>\<close> is its list of entries in iteration order: keys strictly
  increasing. \<open>bt_insert\<close> replaces the value of a present key, \<open>bt_remove\<close>
  drops the entry, lookups are \<^const>\<open>map_of\<close>.
\<close>

fun bt_insert :: "'k::linorder \<Rightarrow> 'v \<Rightarrow> ('k \<times> 'v) list \<Rightarrow> ('k \<times> 'v) list" where
  "bt_insert k v [] = [(k, v)]"
| "bt_insert k v ((k', v') # m) =
     (if k < k' then (k, v) # (k', v') # m
      else if k = k' then (k, v) # m
      else (k', v') # bt_insert k v m)"

definition bt_remove :: "'k \<Rightarrow> ('k \<times> 'v) list \<Rightarrow> ('k \<times> 'v) list" where
  "bt_remove k m = filter (\<lambda>e. fst e \<noteq> k) m"

definition bt_wf :: "('k::linorder \<times> 'v) list \<Rightarrow> bool" where
  "bt_wf m = sorted_wrt (<) (map fst m)"

lemma bt_insert_keys [simp]: "fst ` set (bt_insert k v m) = insert k (fst ` set m)"
  by (induction k v m rule: bt_insert.induct) auto

lemma bt_insert_lookup [simp]:
  "bt_wf m \<Longrightarrow> map_of (bt_insert k v m) = (map_of m)(k \<mapsto> v)"
proof (induction k v m rule: bt_insert.induct)
  case (2 k v k' v' m)
  then show ?case
    by (auto simp: bt_wf_def fun_eq_iff)
qed (simp add: fun_eq_iff)

lemma bt_insert_wf [intro, simp]: "bt_wf m \<Longrightarrow> bt_wf (bt_insert k v m)"
proof (induction k v m rule: bt_insert.induct)
  case (2 k v k' v' m)
  then show ?case
    by (auto simp: bt_wf_def dest: less_trans)
qed (simp add: bt_wf_def)

lemma bt_insert_last:
  "\<forall>k' \<in> fst ` set m. k' < k \<Longrightarrow> bt_insert k v m = m @ [(k, v)]"
  by (induction k v m rule: bt_insert.induct) auto

lemma bt_wf_Nil [simp]: "bt_wf []"
  by (simp add: bt_wf_def)

lemma bt_wf_Cons:
  "bt_wf ((k, v) # m) \<longleftrightarrow> (\<forall>k' \<in> fst ` set m. k < k') \<and> bt_wf m"
  by (simp add: bt_wf_def)

lemma bt_wf_snoc:
  "bt_wf (m @ [(k, v)]) \<longleftrightarrow> (\<forall>k' \<in> fst ` set m. k' < k) \<and> bt_wf m"
  by (auto simp: bt_wf_def sorted_wrt_append)

lemma bt_wf_distinct [dest]: "bt_wf m \<Longrightarrow> distinct (map fst m)"
  by (simp add: bt_wf_def strict_sorted_iff)

lemma bt_remove_lookup [simp]: "map_of (bt_remove k m) = (map_of m)(k := None)"
  by (induction m) (auto simp: bt_remove_def fun_eq_iff)

lemma bt_remove_wf [intro, simp]: "bt_wf m \<Longrightarrow> bt_wf (bt_remove k m)"
  unfolding bt_wf_def bt_remove_def by (induction m) auto

lemma bt_remove_keys [simp]: "fst ` set (bt_remove k m) = fst ` set m - {k}"
  by (auto simp: bt_remove_def)

text \<open>Building a map from its own entries, in order, gives the map back.\<close>

lemma bt_wf_fold_insert:
  assumes "bt_wf (m @ es)"
  shows "fold (\<lambda>e. bt_insert (fst e) (snd e)) es m = m @ es"
  using assms
proof (induction es arbitrary: m)
  case (Cons e es)
  then have "bt_wf ((m @ [e]) @ es)" by simp
  moreover have "bt_insert (fst e) (snd e) m = m @ [e]"
    using Cons.prems by (intro bt_insert_last [of m "fst e" "snd e", simplified])
      (auto simp: bt_wf_def sorted_wrt_append)
  ultimately show ?case using Cons.IH by simp
qed simp

section \<open>Big-endian byte strings\<close>

text \<open>
  \<open>be_digits n x\<close> is the \<open>n\<close>-byte big-endian representation of \<open>x\<close>, the bytes
  \<open>put_u8\<close>, \<open>put_u16\<close>, \<open>put_u32\<close> and \<open>put_u64\<close> write; \<open>be_val\<close> reads them back.
\<close>

fun be_digits :: "nat \<Rightarrow> nat \<Rightarrow> bytes" where
  "be_digits 0 x = []"
| "be_digits (Suc n) x = be_digits n (x div 256) @ [word_of_nat (x mod 256)]"

lemma be_digits_numeral [simp]:
  "be_digits (numeral k) x = be_digits (pred_numeral k) (x div 256) @ [word_of_nat (x mod 256)]"
  by (subst numeral_eq_Suc) (rule be_digits.simps(2))

definition be_val :: "bytes \<Rightarrow> nat" where
  "be_val bs = foldl (\<lambda>a b. a * 256 + unat b) 0 bs"

lemma length_be_digits [simp]: "length (be_digits n x) = n"
  by (induction n arbitrary: x) auto

lemma be_val_snoc [simp]: "be_val (bs @ [b]) = be_val bs * 256 + unat b"
  by (simp add: be_val_def)

lemma be_val_digits: "be_val (be_digits n x) = x mod 256 ^ n"
proof (induction n arbitrary: x)
  case (Suc n)
  have "unat (word_of_nat (x mod 256) :: u8) = x mod 256"
    by (simp add: unat_of_nat)
  then show ?case
    using Suc mod_mult2_eq [of x 256 "256 ^ n"] by simp
qed (simp add: be_val_def)

definition be_bytes :: "nat \<Rightarrow> 'a::len word \<Rightarrow> bytes" where
  "be_bytes n w = be_digits n (unat w)"

definition be_word :: "bytes \<Rightarrow> 'a::len word" where
  "be_word bs = word_of_nat (be_val bs)"

lemma length_be_bytes [simp]: "length (be_bytes n w) = n"
  by (simp add: be_bytes_def)

lemma be_bytes_eq_Nil [simp]: "be_bytes n w = [] \<longleftrightarrow> n = 0"
  by (metis length_0_conv length_be_bytes)

lemma be_word_bytes:
  fixes w :: "'a::len word"
  assumes "LENGTH('a) = 8 * n"
  shows "be_word (be_bytes n w) = w"
proof -
  have "(256::nat) ^ n = 2 ^ LENGTH('a)"
    using assms by (simp add: power_mult)
  then show ?thesis
    by (simp add: be_word_def be_bytes_def be_val_digits)
qed

lemma be_val_less: "be_val bs < 256 ^ length bs"
proof (induction bs rule: rev_induct)
  case (snoc b bs)
  have "unat b < 256" using unsigned_less [of b] by simp
  then show ?case using snoc by simp
qed (simp add: be_val_def)

lemma be_digits_val: "length bs = n \<Longrightarrow> be_digits n (be_val bs) = bs"
proof (induction bs arbitrary: n rule: rev_induct)
  case (snoc b bs)
  have "unat b < 256" using unsigned_less [of b] by simp
  then show ?case using snoc by auto
qed (simp add: be_val_def)

section \<open>Printing numbers\<close>

text \<open>The decimal digits \<open>Display\<close> writes.\<close>

fun nat_string :: "nat \<Rightarrow> string" where
  "nat_string n =
     (if n < 10 then [char_of (48 + n)] else nat_string (n div 10) @ [char_of (48 + n mod 10)])"

declare nat_string.simps [simp del]

definition int_string :: "int \<Rightarrow> string" where
  "int_string i = (if i < 0 then ''-'' @ nat_string (nat (- i)) else nat_string (nat i))"

end
