(* ===== verification/Epoch_Map.thy ===== *)
theory Epoch_Map
  imports Fluvio_Prelude "HOL-Library.AList"
begin

text \<open>
  Epoch-stamped maps: \<open>fluvio-stream-model/src/epoch/epoch_map.rs\<close> and
  \<open>dual_epoch_map.rs\<close>. A \<open>HashMap\<close> is an association list with distinct keys;
  its order stands for the unspecified iteration order. Epochs are integers:
  they count changes and stay far below the 64-bit bound.
\<close>

section \<open>Change flags\<close>

record ChangeFlag =
  flag_spec :: bool
  flag_status :: bool
  flag_meta :: bool

definition change_all :: ChangeFlag where
  "change_all = \<lparr>flag_spec = True, flag_status = True, flag_meta = True\<rparr>"

definition no_change :: ChangeFlag where
  "no_change = \<lparr>flag_spec = False, flag_status = False, flag_meta = False\<rparr>"

definition has_full_change :: "ChangeFlag \<Rightarrow> bool" where
  "has_full_change f = (flag_spec f \<and> flag_status f \<and> flag_meta f)"

definition has_no_changes :: "ChangeFlag \<Rightarrow> bool" where
  "has_no_changes f = (\<not> flag_spec f \<and> \<not> flag_status f \<and> \<not> flag_meta f)"

definition FULL_FILTER :: ChangeFlag where "FULL_FILTER = change_all"
definition SPEC_FILTER :: ChangeFlag where
  "SPEC_FILTER = \<lparr>flag_spec = True, flag_status = False, flag_meta = False\<rparr>"
definition STATUS_FILTER :: ChangeFlag where
  "STATUS_FILTER = \<lparr>flag_spec = False, flag_status = True, flag_meta = False\<rparr>"
definition META_FILTER :: ChangeFlag where
  "META_FILTER = \<lparr>flag_spec = False, flag_status = False, flag_meta = True\<rparr>"

section \<open>Deltas\<close>

datatype 'v EpochDeltaChanges = SyncAll "'v list" | Changes "'v list" "'v list"

definition empty_changes :: "'v EpochDeltaChanges" where
  "empty_changes = Changes [] []"

record 'v EpochChanges =
  changes_epoch :: int
  changes :: "'v EpochDeltaChanges"

definition parts :: "'v EpochChanges \<Rightarrow> 'v list \<times> 'v list" where
  "parts c = (case changes c of SyncAll all \<Rightarrow> (all, []) | Changes us ds \<Rightarrow> (us, ds))"

definition changes_is_empty :: "'v EpochChanges \<Rightarrow> bool" where
  "changes_is_empty c = (case changes c of SyncAll all \<Rightarrow> all = [] | Changes us ds \<Rightarrow> us = [] \<and> ds = [])"

definition is_sync_all :: "'v EpochChanges \<Rightarrow> bool" where
  "is_sync_all c = (case changes c of SyncAll _ \<Rightarrow> True | Changes _ _ \<Rightarrow> False)"

section \<open>The map with one epoch per value\<close>

record 'v EpochCounter =
  ec_epoch :: int
  ec_inner :: 'v

record ('k, 'v) EpochMap =
  em_epoch :: int
  em_fence :: int
  em_map :: "('k \<times> 'v EpochCounter) list"
  em_deleted :: "'v EpochCounter list"

definition em_new :: "('k, 'v) EpochMap" where
  "em_new = \<lparr>em_epoch = 0, em_fence = 0, em_map = [], em_deleted = []\<rparr>"

definition em_increment_epoch :: "('k, 'v) EpochMap \<Rightarrow> ('k, 'v) EpochMap" where
  "em_increment_epoch m = m\<lparr>em_epoch := em_epoch m + 1\<rparr>"

definition em_mark_fence :: "('k, 'v) EpochMap \<Rightarrow> ('k, 'v) EpochMap" where
  "em_mark_fence m = m\<lparr>em_deleted := [], em_fence := em_epoch m\<rparr>"

definition em_insert ::
  "'k \<Rightarrow> 'v \<Rightarrow> ('k, 'v) EpochMap \<Rightarrow> 'v EpochCounter option \<times> ('k, 'v) EpochMap" where
  "em_insert k v m =
     (map_of (em_map m) k,
      m\<lparr>em_map := AList.update k \<lparr>ec_epoch = em_epoch m, ec_inner = v\<rparr> (em_map m)\<rparr>)"

definition em_remove :: "'k \<Rightarrow> ('k, 'v) EpochMap \<Rightarrow> 'v EpochCounter option \<times> ('k, 'v) EpochMap" where
  "em_remove k m =
     (case map_of (em_map m) k of
        None \<Rightarrow> (None, m)
      | Some old \<Rightarrow>
          (let old' = old\<lparr>ec_epoch := em_epoch m\<rparr>
           in (Some old', m\<lparr>em_map := AList.delete k (em_map m), em_deleted := em_deleted m @ [old']\<rparr>)))"

definition em_changes_since :: "int \<Rightarrow> ('k, 'v) EpochMap \<Rightarrow> 'v EpochChanges" where
  "em_changes_since epoch m =
     (if epoch < em_fence m then
        \<lparr>changes_epoch = em_epoch m, changes = SyncAll (map (ec_inner \<circ> snd) (em_map m))\<rparr>
      else if epoch = em_epoch m then \<lparr>changes_epoch = em_epoch m, changes = empty_changes\<rparr>
      else \<lparr>changes_epoch = em_epoch m,
            changes = Changes
              (map ec_inner (filter (\<lambda>c. ec_epoch c > epoch) (map snd (em_map m))))
              (map ec_inner (filter (\<lambda>c. ec_epoch c > epoch) (em_deleted m)))\<rparr>)"

section \<open>The map with spec, status and meta epochs\<close>

record 'v DualEpochCounter =
  spec_epoch :: int
  status_epoch :: int
  meta_epoch :: int
  inner :: 'v

definition dual_new :: "'v \<Rightarrow> 'v DualEpochCounter" where
  "dual_new v = \<lparr>spec_epoch = 0, status_epoch = 0, meta_epoch = 0, inner = v\<rparr>"

definition set_epoch :: "int \<Rightarrow> 'v DualEpochCounter \<Rightarrow> 'v DualEpochCounter" where
  "set_epoch e c = c\<lparr>spec_epoch := e, status_epoch := e, meta_epoch := e\<rparr>"

definition copy_epoch :: "'v DualEpochCounter \<Rightarrow> 'v DualEpochCounter \<Rightarrow> 'v DualEpochCounter" where
  "copy_epoch old c = c\<lparr>spec_epoch := spec_epoch old, status_epoch := status_epoch old,
                        meta_epoch := meta_epoch old\<rparr>"

record ('k, 'v) DualEpochMap =
  epoch :: int
  fence :: int
  vals :: "('k \<times> 'v DualEpochCounter) list"
  deleted :: "'v DualEpochCounter list"

definition new_with_map :: "('k \<times> 'v DualEpochCounter) list \<Rightarrow> ('k, 'v) DualEpochMap" where
  "new_with_map vs = \<lparr>epoch = 0, fence = 0, vals = vs, deleted = []\<rparr>"

definition increment_epoch :: "('k, 'v) DualEpochMap \<Rightarrow> ('k, 'v) DualEpochMap" where
  "increment_epoch m = m\<lparr>epoch := epoch m + 1\<rparr>"

definition decrement_epoch :: "('k, 'v) DualEpochMap \<Rightarrow> ('k, 'v) DualEpochMap" where
  "decrement_epoch m = m\<lparr>epoch := epoch m - 1\<rparr>"

definition mark_fence :: "('k, 'v) DualEpochMap \<Rightarrow> ('k, 'v) DualEpochMap" where
  "mark_fence m = m\<lparr>deleted := [], fence := epoch m\<rparr>"

text \<open>\<open>diff\<close> is the \<open>DualDiff\<close> implementation of the value type.\<close>

definition update ::
  "('v \<Rightarrow> 'v \<Rightarrow> ChangeFlag) \<Rightarrow> 'k \<Rightarrow> 'v \<Rightarrow> ('k, 'v) DualEpochMap
    \<Rightarrow> ChangeFlag option \<times> ('k, 'v) DualEpochMap" where
  "update diff k new m =
     (let current_epoch = epoch m
      in case map_of (vals m) k of
           Some existing \<Rightarrow>
             (let d = diff (inner existing) new
              in if \<not> has_no_changes d then
                   (let c = copy_epoch existing (dual_new new);
                        c = (if flag_spec d then c\<lparr>spec_epoch := current_epoch\<rparr> else c);
                        c = (if flag_status d then c\<lparr>status_epoch := current_epoch\<rparr> else c);
                        c = (if flag_meta d then c\<lparr>meta_epoch := current_epoch\<rparr> else c)
                    in (Some d, m\<lparr>vals := AList.update k c (vals m)\<rparr>))
                 else (Some d, m))
         | None \<Rightarrow>
             (None, m\<lparr>vals := AList.update k (set_epoch current_epoch (dual_new new)) (vals m)\<rparr>))"

definition remove ::
  "'k \<Rightarrow> ('k, 'v) DualEpochMap \<Rightarrow> 'v DualEpochCounter option \<times> ('k, 'v) DualEpochMap" where
  "remove k m =
     (case map_of (vals m) k of
        Some old \<Rightarrow>
          (let old' = set_epoch (epoch m) old
           in (Some old', m\<lparr>vals := AList.delete k (vals m), deleted := deleted m @ [old']\<rparr>))
      | None \<Rightarrow> (None, m))"

definition clone_values :: "('k, 'v) DualEpochMap \<Rightarrow> 'v list" where
  "clone_values m = map (inner \<circ> snd) (vals m)"

definition changed_since :: "int \<Rightarrow> ChangeFlag \<Rightarrow> 'v DualEpochCounter \<Rightarrow> bool" where
  "changed_since e filt v =
     (flag_spec filt \<and> spec_epoch v > e \<or> flag_status filt \<and> status_epoch v > e \<or>
      flag_meta filt \<and> meta_epoch v > e)"

definition changes_since_with_filter ::
  "int \<Rightarrow> ChangeFlag \<Rightarrow> ('k, 'v) DualEpochMap \<Rightarrow> 'v EpochChanges" where
  "changes_since_with_filter e filt m =
     (if e < fence m then \<lparr>changes_epoch = epoch m, changes = SyncAll (clone_values m)\<rparr>
      else if e = epoch m then \<lparr>changes_epoch = epoch m, changes = empty_changes\<rparr>
      else \<lparr>changes_epoch = epoch m,
            changes = Changes
              (map inner (filter (changed_since e filt) (map snd (vals m))))
              (map inner (filter (changed_since e filt) (deleted m)))\<rparr>)"

definition spec_changes_since :: "int \<Rightarrow> ('k, 'v) DualEpochMap \<Rightarrow> 'v EpochChanges" where
  "spec_changes_since e m = changes_since_with_filter e SPEC_FILTER m"

definition status_changes_since :: "int \<Rightarrow> ('k, 'v) DualEpochMap \<Rightarrow> 'v EpochChanges" where
  "status_changes_since e m = changes_since_with_filter e STATUS_FILTER m"

definition meta_changes_since :: "int \<Rightarrow> ('k, 'v) DualEpochMap \<Rightarrow> 'v EpochChanges" where
  "meta_changes_since e m = changes_since_with_filter e META_FILTER m"

definition changes_since :: "int \<Rightarrow> ('k, 'v) DualEpochMap \<Rightarrow> 'v EpochChanges" where
  "changes_since e m = changes_since_with_filter e FULL_FILTER m"

section \<open>Abstract contents and well-formedness\<close>

definition contents :: "('k, 'v) DualEpochMap \<Rightarrow> 'k \<rightharpoonup> 'v" where
  "contents m k = map_option inner (map_of (vals m) k)"

definition stamped_by :: "int \<Rightarrow> 'v DualEpochCounter \<Rightarrow> bool" where
  "stamped_by e c = (spec_epoch c \<le> e \<and> status_epoch c \<le> e \<and> meta_epoch c \<le> e)"

definition dm_wf :: "('v \<Rightarrow> 'k) \<Rightarrow> ('k, 'v) DualEpochMap \<Rightarrow> bool" where
  "dm_wf key_of m =
     (distinct (map fst (vals m)) \<and>
      (\<forall>(k, c) \<in> set (vals m). key_of (inner c) = k \<and> stamped_by (epoch m) c) \<and>
      (\<forall>d \<in> set (deleted m). stamped_by (epoch m) d \<and> status_epoch d = spec_epoch d \<and>
         meta_epoch d = spec_epoch d \<and>
         (\<forall>(k, c) \<in> set (vals m). key_of (inner d) = k \<longrightarrow> spec_epoch d \<le> spec_epoch c)) \<and>
      fence m \<le> epoch m)"

lemma changed_since_full:
  "changed_since e FULL_FILTER c = (spec_epoch c > e \<or> status_epoch c > e \<or> meta_epoch c > e)"
  by (simp add: changed_since_def FULL_FILTER_def change_all_def)

lemma stamped_by_not_changed: "stamped_by e c \<longleftrightarrow> \<not> changed_since e FULL_FILTER c"
  by (auto simp: stamped_by_def changed_since_full)

lemma update_cases:
  obtains (absent) "map_of (vals m) k = None"
      "update diff k new m = (None, m\<lparr>vals := AList.update k (set_epoch (epoch m) (dual_new new)) (vals m)\<rparr>)"
  | (kept) old where "map_of (vals m) k = Some old" "has_no_changes (diff (inner old) new)"
      "update diff k new m = (Some (diff (inner old) new), m)"
  | (replaced) old c where "map_of (vals m) k = Some old" "\<not> has_no_changes (diff (inner old) new)"
      "update diff k new m = (Some (diff (inner old) new), m\<lparr>vals := AList.update k c (vals m)\<rparr>)"
      "inner c = new" "stamped_by (epoch m) old \<longrightarrow> stamped_by (epoch m) c \<and> spec_epoch old \<le> spec_epoch c"
      "spec_epoch c = epoch m \<or> status_epoch c = epoch m \<or> meta_epoch c = epoch m"
proof (cases "map_of (vals m) k")
  case (Some old)
  show thesis
  proof (cases "has_no_changes (diff (inner old) new)")
    case False
    define d where "d = diff (inner old) new"
    define c where "c = \<lparr>spec_epoch = (if flag_spec d then epoch m else spec_epoch old),
        status_epoch = (if flag_status d then epoch m else status_epoch old),
        meta_epoch = (if flag_meta d then epoch m else meta_epoch old), inner = new\<rparr>"
    have "update diff k new m = (Some d, m\<lparr>vals := AList.update k c (vals m)\<rparr>)"
      using Some False by (simp add: update_def copy_epoch_def dual_new_def c_def d_def Let_def)
    then show ?thesis
      using Some False by (intro replaced [of old c]) (auto simp: c_def d_def stamped_by_def has_no_changes_def)
  qed (use Some kept in \<open>simp add: update_def\<close>)
qed (use absent in \<open>simp add: update_def\<close>)

lemma update_epoch_simps [store_simps, simp]:
  "epoch (snd (update diff k new m)) = epoch m" "fence (snd (update diff k new m)) = fence m"
  "deleted (snd (update diff k new m)) = deleted m"
  by (cases rule: update_cases [of m k diff new]; simp)+

lemma remove_simps [store_simps, simp]:
  "epoch (snd (remove k m)) = epoch m" "fence (snd (remove k m)) = fence m"
  by (simp_all add: remove_def Let_def split: option.splits)

lemma contents_update [store_simps]:
  "contents (snd (update diff k new m)) =
     (case contents m k of
        Some old \<Rightarrow> if has_no_changes (diff old new) then contents m else (contents m)(k \<mapsto> new)
      | None \<Rightarrow> (contents m)(k \<mapsto> new))"
proof (cases rule: update_cases [of m k diff new])
  case absent
  then show ?thesis
    by (simp add: contents_def fun_eq_iff AList.update_conv' set_epoch_def dual_new_def)
next
  case (kept old)
  then show ?thesis by (simp add: contents_def)
next
  case (replaced old c)
  then show ?thesis by (simp add: contents_def fun_eq_iff AList.update_conv')
qed

lemma contents_remove [store_simps]: "contents (snd (remove k m)) = (contents m)(k := None)"
  by (cases "map_of (vals m) k") (simp_all add: contents_def fun_eq_iff remove_def AList.delete_conv' Let_def)

lemma fst_update: "fst (update diff k new m) = map_option (\<lambda>old. diff old new) (contents m k)"
  by (cases rule: update_cases [of m k diff new]) (auto simp: contents_def)

lemma fst_remove: "fst (remove k m) = None \<longleftrightarrow> contents m k = None"
  by (auto simp: remove_def contents_def Let_def split: option.splits)

lemma dm_wf_lookup:
  "dm_wf key_of m \<Longrightarrow> map_of (vals m) k = Some c \<Longrightarrow> key_of (inner c) = k \<and> stamped_by (epoch m) c"
  by (drule map_of_SomeD) (auto simp: dm_wf_def)

lemma dm_wf_deleted_le:
  assumes "dm_wf key_of m" "d \<in> set (deleted m)" "map_of (vals m) (key_of (inner d)) = Some c"
  shows "spec_epoch d \<le> spec_epoch c"
proof -
  have "\<forall>(k, c) \<in> set (vals m). key_of (inner d) = k \<longrightarrow> spec_epoch d \<le> spec_epoch c"
    using assms(1,2) by (simp add: dm_wf_def)
  from bspec [OF this map_of_SomeD [OF assms(3)]] show ?thesis by simp
qed

lemma dm_wf_readded:
  assumes "dm_wf key_of m" "d \<in> set (deleted m)" "map_of (vals m) (key_of (inner d)) = Some c"
    "changed_since e filt d"
  shows "changed_since e FULL_FILTER c"
proof -
  have "status_epoch d = spec_epoch d \<and> meta_epoch d = spec_epoch d"
    using assms(1,2) by (auto simp: dm_wf_def)
  then have "e < spec_epoch d" using assms(4) by (auto simp: changed_since_def)
  then show ?thesis using dm_wf_deleted_le [OF assms(1-3)] by (simp add: changed_since_full)
qed

lemma in_set_alist_update:
  "e \<in> set (AList.update k c al) \<Longrightarrow> e = (k, c) \<or> e \<in> set al"
  by (induction al) (auto split: if_splits)

lemma dm_wf_update:
  assumes "dm_wf key_of m" "key_of new = k"
  shows "dm_wf key_of (snd (update diff k new m))"
proof (cases rule: update_cases [of m k diff new])
  case absent
  then show ?thesis
    using assms by (auto simp: dm_wf_def stamped_by_def set_epoch_def dual_new_def
        dest!: in_set_alist_update intro!: distinct_update)
next
  case (replaced old c)
  have le: "spec_epoch d \<le> spec_epoch c" if "d \<in> set (deleted m)" "key_of (inner d) = k" for d
    using that replaced dm_wf_lookup [OF assms(1), of k old] dm_wf_deleted_le [OF assms(1), of d old]
    by simp
  show ?thesis
    using assms replaced le dm_wf_lookup [of key_of m k old]
    by (auto simp: dm_wf_def dest!: in_set_alist_update intro!: distinct_update)
qed (use assms in simp)

lemma dm_wf_remove: "dm_wf key_of m \<Longrightarrow> dm_wf key_of (snd (remove k m))"
  by (auto simp: dm_wf_def remove_def Let_def set_epoch_def stamped_by_def distinct_map_filter
      AList.delete_eq split: option.splits)

section \<open>Followers of a map\<close>

text \<open>
  A follower holds a copy \<open>r\<close> of the contents as of epoch \<open>seen\<close>. \<open>tracks\<close> says
  what the map must remember for the follower to catch up: an entry that
  shows no change since \<open>seen\<close> is in the copy, and, unless history was
  fenced off, a key of the copy that is gone was recorded as deleted since.
\<close>

definition tracks :: "('v \<Rightarrow> 'k) \<Rightarrow> int \<Rightarrow> ('k \<rightharpoonup> 'v) \<Rightarrow> ('k, 'v) DualEpochMap \<Rightarrow> bool" where
  "tracks key_of seen r m =
     ((\<forall>k c. map_of (vals m) k = Some c \<longrightarrow> \<not> changed_since seen FULL_FILTER c \<longrightarrow> r k = Some (inner c)) \<and>
      (fence m \<le> seen \<longrightarrow>
         (\<forall>k. r k \<noteq> None \<longrightarrow> map_of (vals m) k = None \<longrightarrow>
            (\<exists>d \<in> set (deleted m). key_of (inner d) = k \<and> changed_since seen FULL_FILTER d))))"

definition in_sync :: "('v \<Rightarrow> 'k) \<Rightarrow> int \<Rightarrow> ('k \<rightharpoonup> 'v) \<Rightarrow> ('k, 'v) DualEpochMap \<Rightarrow> bool" where
  "in_sync key_of seen r m =
     (tracks key_of seen r m \<and> (seen < epoch m \<or> seen = epoch m \<and> r = contents m))"

definition apply_delta :: "('v \<Rightarrow> 'k) \<Rightarrow> 'v EpochDeltaChanges \<Rightarrow> ('k \<rightharpoonup> 'v) \<Rightarrow> 'k \<rightharpoonup> 'v" where
  "apply_delta key_of d r =
     (case d of
        SyncAll all \<Rightarrow> map_of (map (\<lambda>v. (key_of v, v)) all)
      | Changes us ds \<Rightarrow> (\<lambda>k. if k \<in> key_of ` set ds then None else r k) ++
                          map_of (map (\<lambda>v. (key_of v, v)) us))"

lemma tracks_self: "dm_wf key_of m \<Longrightarrow> tracks key_of (epoch m) (contents m) m"
  using dm_wf_lookup [of key_of m] by (auto simp: tracks_def contents_def)

lemma in_sync_self: "dm_wf key_of m \<Longrightarrow> in_sync key_of (epoch m) (contents m) m"
  by (simp add: in_sync_def tracks_self)

lemma tracks_increment [simp]: "tracks key_of seen r (increment_epoch m) = tracks key_of seen r m"
  by (simp add: tracks_def increment_epoch_def)

lemma tracks_update:
  assumes "tracks key_of seen r m" "seen < epoch m"
  shows "tracks key_of seen r (snd (update diff k new m))"
proof (cases rule: update_cases [of m k diff new])
  case absent
  then show ?thesis
    using assms by (auto simp: tracks_def AList.update_conv' set_epoch_def changed_since_full)
next
  case (replaced old c)
  then have "changed_since seen FULL_FILTER c" using assms(2) by (auto simp: changed_since_full)
  then show ?thesis using assms replaced by (auto simp: tracks_def AList.update_conv')
qed (use assms in simp)

lemma tracks_remove:
  assumes "tracks key_of seen r m" "seen < epoch m" "dm_wf key_of m"
  shows "tracks key_of seen r (snd (remove k m))"
proof (cases "map_of (vals m) k")
  case (Some old)
  then have "key_of (inner old) = k" using assms(3) dm_wf_lookup by fast
  then show ?thesis
    using assms(1,2) Some
    by (auto simp: tracks_def remove_def AList.delete_conv' set_epoch_def changed_since_full Let_def)
qed (use assms in \<open>simp add: remove_def\<close>)

lemma tracks_mark_fence: "tracks key_of seen r m \<Longrightarrow> seen < epoch m \<Longrightarrow> tracks key_of seen r (mark_fence m)"
  by (auto simp: tracks_def mark_fence_def)

lemma map_of_keyed:
  assumes "distinct (map fst al)" "\<forall>(k, c) \<in> set al. key_of (inner c) = k"
  shows "map_of (map (\<lambda>v. (key_of v, v)) (map inner (filter P (map snd al)))) k =
           (case map_of al k of Some c \<Rightarrow> if P c then Some (inner c) else None | None \<Rightarrow> None)"
  using assms by (induction al) (auto split: option.splits simp: image_iff map_of_eq_None_iff)

text \<open>Catching up: the delta since \<open>seen\<close> turns the copy into the contents.\<close>

lemma catch_up:
  assumes sync: "in_sync key_of seen r m" and wf: "dm_wf key_of m"
  shows "apply_delta key_of (changes (changes_since seen m)) r = contents m"
proof -
  have al: "distinct (map fst (vals m))" "\<forall>(k, c) \<in> set (vals m). key_of (inner c) = k"
    using wf by (auto simp: dm_wf_def)
  consider (fenced) "seen < fence m" | (current) "fence m \<le> seen" "seen = epoch m"
    | (delta) "fence m \<le> seen" "seen < epoch m"
    using sync by (auto simp: in_sync_def) linarith+
  then show ?thesis
  proof cases
    case fenced
    then show ?thesis
      using map_of_keyed [OF al, of "\<lambda>_. True"]
      by (auto simp: changes_since_def changes_since_with_filter_def apply_delta_def clone_values_def
          contents_def fun_eq_iff comp_def split: option.splits)
  next
    case current
    then show ?thesis
      using sync by (simp add: in_sync_def changes_since_def changes_since_with_filter_def apply_delta_def
          empty_changes_def)
  next
    case delta
    then have t: "tracks key_of seen r m" using sync by (simp add: in_sync_def)
    show ?thesis
    proof
      fix k
      show "apply_delta key_of (changes (changes_since seen m)) r k = contents m k"
        using delta t map_of_keyed [OF al, of "changed_since seen FULL_FILTER" k] dm_wf_readded [OF wf]
        by (auto simp: changes_since_def changes_since_with_filter_def apply_delta_def contents_def
            tracks_def map_add_def image_iff split: option.splits)
    qed
  qed
qed

text \<open>
  The contract of a \<open>DualDiff\<close> implementation: a value does not differ from
  itself. It makes a repeated update a no-op.
\<close>

locale dual_diff =
  fixes diff :: "'v \<Rightarrow> 'v \<Rightarrow> ChangeFlag"
  assumes diff_self: "has_no_changes (diff v v)"
begin

definition settled :: "('k, 'v) DualEpochMap \<Rightarrow> 'k \<Rightarrow> 'v \<Rightarrow> bool" where
  "settled m k new = (\<exists>old. contents m k = Some old \<and> has_no_changes (diff old new))"

lemma settled_after_update: "settled (snd (update diff k new m)) k new"
  using diff_self by (auto simp: settled_def contents_update split: option.splits)

lemma settled_update_other: "k \<noteq> k' \<Longrightarrow> settled m k new \<Longrightarrow> settled (snd (update diff k' new' m)) k new"
  by (auto simp: settled_def contents_update split: option.splits)

lemma update_settled:
  assumes "settled m k new"
  shows "\<exists>d. update diff k new m = (Some d, m) \<and> has_no_changes d"
  using assms by (cases rule: update_cases [of m k diff new]) (auto simp: settled_def contents_def)

end

end
