(* ===== verification/Metadata_Store.thy ===== *)
theory Metadata_Store
  imports Epoch_Map
begin

text \<open>
  The local metadata store and its listeners:
  \<open>fluvio-stream-model/src/store/metadata.rs\<close>, \<open>dual_store.rs\<close>, \<open>actions.rs\<close> and
  \<open>event.rs\<close>; the watch service that forwards changes to clients
  (\<open>fluvio-sc/src/services/public_api/watch.rs\<close>) and the client side that applies
  them (\<open>fluvio/src/sync/controller.rs\<close>).

  A store operation holds the write lock while it changes the map and
  publishes the new epoch after releasing it, so the two are separate steps
  in the model of concurrent writers.
\<close>

section \<open>Metadata objects\<close>

record ('s, 't, 'k, 'c) MetadataStoreObject =
  spec :: 's
  status :: 't
  key :: 'k
  ctx :: 'c

text \<open>\<open>newer\<close> is \<open>MetadataItem::is_newer\<close> of the context type.\<close>

definition obj_diff ::
  "('c \<Rightarrow> 'c \<Rightarrow> bool) \<Rightarrow> ('s, 't, 'k, 'c) MetadataStoreObject \<Rightarrow> ('s, 't, 'k, 'c) MetadataStoreObject
    \<Rightarrow> ChangeFlag" where
  "obj_diff newer self new =
     (if newer (ctx self) (ctx new) then no_change
      else \<lparr>flag_spec = (spec self \<noteq> spec new),
            flag_status = (status self \<noteq> status new),
            flag_meta = (ctx self \<noteq> ctx new)\<rparr>)"

definition is_newer_u32 :: "u32 \<Rightarrow> u32 \<Rightarrow> bool" where
  "is_newer_u32 self another = (self > another)"

section \<open>The store\<close>

datatype ('s, 't, 'k, 'c) LSUpdate = Mod "('s, 't, 'k, 'c) MetadataStoreObject" | Delete 'k

record SyncStatus =
  sync_epoch :: int
  add :: int
  update_spec :: int
  update_status :: int
  update_meta :: int
  delete :: int

definition zero_status :: SyncStatus where
  "zero_status = \<lparr>sync_epoch = 0, add = 0, update_spec = 0, update_status = 0, update_meta = 0, delete = 0\<rparr>"

definition has_spec_changes :: "SyncStatus \<Rightarrow> bool" where
  "has_spec_changes s = (add s > 0 \<or> update_spec s > 0 \<or> delete s > 0)"

definition has_status_changes :: "SyncStatus \<Rightarrow> bool" where
  "has_status_changes s = (update_status s > 0)"

type_synonym ('s, 't, 'k, 'c) object_map = "('k, ('s, 't, 'k, 'c) MetadataStoreObject) DualEpochMap"

definition count_diff :: "ChangeFlag option \<Rightarrow> SyncStatus \<Rightarrow> SyncStatus" where
  "count_diff d s =
     (case d of
        None \<Rightarrow> s\<lparr>add := add s + 1\<rparr>
      | Some f \<Rightarrow>
          s\<lparr>update_spec := update_spec s + (if flag_spec f then 1 else 0),
            update_status := update_status s + (if flag_status f then 1 else 0),
            update_meta := update_meta s + (if flag_meta f then 1 else 0)\<rparr>)"

fun sync_incoming ::
  "('c \<Rightarrow> 'c \<Rightarrow> bool) \<Rightarrow> ('s, 't, 'k, 'c) MetadataStoreObject list
    \<Rightarrow> ('s, 't, 'k, 'c) object_map \<times> 'k list \<times> SyncStatus
    \<Rightarrow> ('s, 't, 'k, 'c) object_map \<times> 'k list \<times> SyncStatus" where
  "sync_incoming newer [] st = st"
| "sync_incoming newer (source # rest) (m, local_keys, s) =
     (case update (obj_diff newer) (key source) source m of
        (d, m') \<Rightarrow> sync_incoming newer rest
                     (m', filter (\<lambda>n. n \<noteq> key source) local_keys, count_diff d s))"

fun sync_delete ::
  "'k list \<Rightarrow> ('s, 't, 'k, 'c) object_map \<times> SyncStatus \<Rightarrow> ('s, 't, 'k, 'c) object_map \<times> SyncStatus" where
  "sync_delete [] st = st"
| "sync_delete (name # rest) (m, s) =
     sync_delete rest
       (if map_of (vals m) name \<noteq> None then
          (case remove name m of
             (Some _, m') \<Rightarrow> (m', s\<lparr>delete := delete s + 1\<rparr>)
           | (None, m') \<Rightarrow> (m', s))
        else (m, s))"

text \<open>The locked part of \<open>sync_all\<close>; the caller publishes the epoch of the result.\<close>

definition sync_all ::
  "('c \<Rightarrow> 'c \<Rightarrow> bool) \<Rightarrow> ('s, 't, 'k, 'c) MetadataStoreObject list \<Rightarrow> ('s, 't, 'k, 'c) object_map
    \<Rightarrow> SyncStatus \<times> ('s, 't, 'k, 'c) object_map" where
  "sync_all newer incoming m =
     (let local_keys = map fst (vals m);
          m0 = increment_epoch m;
          (m1, keys1, s1) = sync_incoming newer incoming (m0, local_keys, zero_status);
          (m2, s2) = sync_delete keys1 (m1, s1);
          m3 = mark_fence m2
      in (s2\<lparr>sync_epoch := epoch m3\<rparr>, m3))"

fun apply_loop ::
  "('c \<Rightarrow> 'c \<Rightarrow> bool) \<Rightarrow> ('s, 't, 'k, 'c) LSUpdate list
    \<Rightarrow> ('s, 't, 'k, 'c) object_map \<times> SyncStatus \<Rightarrow> ('s, 't, 'k, 'c) object_map \<times> SyncStatus" where
  "apply_loop newer [] st = st"
| "apply_loop newer (Mod new # rest) (m, s) =
     (case update (obj_diff newer) (key new) new m of (d, m') \<Rightarrow> apply_loop newer rest (m', count_diff d s))"
| "apply_loop newer (Delete k # rest) (m, s) =
     apply_loop newer rest (snd (remove k m), s\<lparr>delete := delete s + 1\<rparr>)"

definition apply_changes ::
  "('c \<Rightarrow> 'c \<Rightarrow> bool) \<Rightarrow> ('s, 't, 'k, 'c) LSUpdate list \<Rightarrow> ('s, 't, 'k, 'c) object_map
    \<Rightarrow> SyncStatus option \<times> ('s, 't, 'k, 'c) object_map" where
  "apply_changes newer us m =
     (case apply_loop newer us (increment_epoch m, zero_status) of
        (m', s) \<Rightarrow>
          if add s = 0 \<and> update_spec s = 0 \<and> update_status s = 0 \<and> delete s = 0 \<and> update_meta s = 0
          then (None, decrement_epoch m')
          else (Some (s\<lparr>sync_epoch := epoch m'\<rparr>), m'))"

definition bulk_new :: "('s, 't, 'k, 'c) MetadataStoreObject list \<Rightarrow> ('s, 't, 'k, 'c) object_map" where
  "bulk_new objects = new_with_map (fold (\<lambda>obj. AList.update (key obj) (dual_new obj)) objects [])"

section \<open>Publisher and listeners\<close>

record ('s, 't, 'k, 'c) LocalStore =
  store :: "('s, 't, 'k, 'c) object_map"
  change :: int

definition store_change :: "int \<Rightarrow> ('s, 't, 'k, 'c) LocalStore \<Rightarrow> ('s, 't, 'k, 'c) LocalStore" where
  "store_change value st = st\<lparr>change := value\<rparr>"

record ChangeListener =
  last_change :: int

definition listener_new :: ChangeListener where
  "listener_new = \<lparr>last_change = 0\<rparr>"

definition has_change :: "('s, 't, 'k, 'c) LocalStore \<Rightarrow> ChangeListener \<Rightarrow> bool" where
  "has_change st l = (change st > last_change l)"

definition load_last :: "('s, 't, 'k, 'c) LocalStore \<Rightarrow> ChangeListener \<Rightarrow> ChangeListener" where
  "load_last st l = l\<lparr>last_change := change st\<rparr>"

definition sync_changes_with_filter ::
  "ChangeFlag \<Rightarrow> ('s, 't, 'k, 'c) LocalStore \<Rightarrow> ChangeListener
    \<Rightarrow> ('s, 't, 'k, 'c) MetadataStoreObject EpochChanges \<times> ChangeListener" where
  "sync_changes_with_filter filt st l =
     (let ch = changes_since_with_filter (last_change l) filt (store st)
      in (ch, l\<lparr>last_change := changes_epoch ch\<rparr>))"

definition sync_changes ::
  "('s, 't, 'k, 'c) LocalStore \<Rightarrow> ChangeListener
    \<Rightarrow> ('s, 't, 'k, 'c) MetadataStoreObject EpochChanges \<times> ChangeListener" where
  "sync_changes st l = sync_changes_with_filter FULL_FILTER st l"

text \<open>After waiting, \<open>wait_for_initial_sync\<close> asserts that it got the whole store.\<close>

definition wait_for_initial_sync ::
  "('s, 't, 'k, 'c) LocalStore \<Rightarrow> ChangeListener
    \<Rightarrow> (fault + ('s, 't, 'k, 'c) MetadataStoreObject list) \<times> ChangeListener" where
  "wait_for_initial_sync st l =
     (case sync_changes st l of
        (ch, l') \<Rightarrow> (if is_sync_all ch then Inr (fst (parts ch)) else Inl Panic, l'))"

section \<open>The watch service and its clients\<close>

datatype MsgType = UPDATE | DELETE

datatype ('s, 't, 'k, 'c) LSChange =
    LSAdd "('s, 't, 'k, 'c) MetadataStoreObject"
  | LSMod "('s, 't, 'k, 'c) MetadataStoreObject" "('s, 't, 'k, 'c) MetadataStoreObject"
  | LSDelete "('s, 't, 'k, 'c) MetadataStoreObject"

definition message_from_change ::
  "(('s, 't, 'k, 'c) MetadataStoreObject \<Rightarrow> 'd) \<Rightarrow> ('s, 't, 'k, 'c) LSChange \<Rightarrow> MsgType \<times> 'd" where
  "message_from_change into ch =
     (case ch of
        LSAdd new \<Rightarrow> (UPDATE, into new)
      | LSMod new _ \<Rightarrow> (DELETE, into new)
      | LSDelete old \<Rightarrow> (DELETE, into old))"

record ('s, 't) Metadata =
  md_name :: string
  md_spec :: 's
  md_status :: 't

text \<open>
  \<open>show\<close> and \<open>parse\<close> are the \<open>ToString\<close> and \<open>TryFrom<String>\<close> implementations of the
  key type, \<open>dctx\<close> the default context of the client.
\<close>

definition to_metadata ::
  "('k \<Rightarrow> string) \<Rightarrow> ('s, 't, 'k, 'c) MetadataStoreObject \<Rightarrow> ('s, 't) Metadata" where
  "to_metadata show o1 = \<lparr>md_name = show (key o1), md_spec = spec o1, md_status = status o1\<rparr>"

definition from_metadata ::
  "(string \<Rightarrow> 'k option) \<Rightarrow> 'c \<Rightarrow> ('s, 't) Metadata
    \<Rightarrow> fault + ('s, 't, 'k, 'c) MetadataStoreObject" where
  "from_metadata parse dctx md =
     (case parse (md_name md) of
        None \<Rightarrow> Inl (IoErr InvalidData)
      | Some k \<Rightarrow> Inr \<lparr>spec = md_spec md, status = md_status md, key = k, ctx = dctx\<rparr>)"

record ('s, 't) MetadataUpdate =
  mu_epoch :: int
  mu_changes :: "(MsgType \<times> ('s, 't) Metadata) list"
  mu_all :: "('s, 't) Metadata list"

text \<open>\<open>summ\<close> is \<open>AdminSpec::summary\<close> when the client asked for summaries, else the identity.\<close>

definition summary_md :: "('s \<Rightarrow> 's) \<Rightarrow> ('s, 't) Metadata \<Rightarrow> ('s, 't) Metadata" where
  "summary_md summ d = d\<lparr>md_spec := summ (md_spec d)\<rparr>"

definition watch_update ::
  "('k \<Rightarrow> string) \<Rightarrow> ('s \<Rightarrow> 's) \<Rightarrow> ('s, 't, 'k, 'c) MetadataStoreObject EpochChanges
    \<Rightarrow> ('s, 't) MetadataUpdate" where
  "watch_update show summ ch =
     (if is_sync_all ch then
        \<lparr>mu_epoch = changes_epoch ch, mu_changes = [],
         mu_all = map (summary_md summ \<circ> to_metadata show) (fst (parts ch))\<rparr>
      else
        \<lparr>mu_epoch = changes_epoch ch,
         mu_changes = map (\<lambda>u. (UPDATE, summary_md summ (to_metadata show u))) (fst (parts ch)) @
                      map (\<lambda>d. (DELETE, to_metadata show d)) (snd (parts ch)),
         mu_all = []\<rparr>)"

fun convert_all ::
  "('a \<Rightarrow> fault + 'b) \<Rightarrow> 'a list \<Rightarrow> fault + 'b list" where
  "convert_all f [] = Inr []"
| "convert_all f (x # xs) =
     (case f x of
        Inl e \<Rightarrow> Inl e
      | Inr y \<Rightarrow> (case convert_all f xs of Inl e \<Rightarrow> Inl e | Inr ys \<Rightarrow> Inr (y # ys)))"

definition message_update ::
  "(string \<Rightarrow> 'k option) \<Rightarrow> 'c \<Rightarrow> MsgType \<times> ('s, 't) Metadata \<Rightarrow> fault + ('s, 't, 'k, 'c) LSUpdate" where
  "message_update parse dctx msg =
     (case from_metadata parse dctx (snd msg) of
        Inl e \<Rightarrow> Inl e
      | Inr obj \<Rightarrow> Inr (case fst msg of UPDATE \<Rightarrow> Mod obj | DELETE \<Rightarrow> Delete (key obj)))"

definition sync_metadata ::
  "(string \<Rightarrow> 'k option) \<Rightarrow> 'c \<Rightarrow> ('c \<Rightarrow> 'c \<Rightarrow> bool) \<Rightarrow> ('s, 't) MetadataUpdate
    \<Rightarrow> ('s, 't, 'k, 'c) object_map \<Rightarrow> (fault + unit) \<times> ('s, 't, 'k, 'c) object_map" where
  "sync_metadata parse dctx newer u m =
     (if mu_all u \<noteq> [] then
        (case convert_all (from_metadata parse dctx) (mu_all u) of
           Inl e \<Rightarrow> (Inl e, m)
         | Inr objects \<Rightarrow> (Inr (), snd (sync_all newer objects m)))
      else if mu_changes u \<noteq> [] then
        (case convert_all (message_update parse dctx) (mu_changes u) of
           Inl e \<Rightarrow> (Inl e, m)
         | Inr us \<Rightarrow> (Inr (), snd (apply_changes newer us m)))
      else (Inr (), m))"

section \<open>Store operations keep the invariant\<close>

interpretation md: dual_diff "obj_diff newer" for newer
  by unfold_locales (simp add: obj_diff_def has_no_changes_def no_change_def)

lemma dm_wf_increment: "dm_wf f m \<Longrightarrow> dm_wf f (increment_epoch m)"
  by (fastforce simp: dm_wf_def increment_epoch_def stamped_by_def)

lemma dm_wf_mark_fence: "dm_wf f m \<Longrightarrow> dm_wf f (mark_fence m)"
  by (auto simp: dm_wf_def mark_fence_def)

lemma epoch_simps [simp]:
  "epoch (increment_epoch m) = epoch m + 1" "fence (increment_epoch m) = fence m"
  "vals (increment_epoch m) = vals m" "contents (increment_epoch m) = contents m"
  "decrement_epoch (increment_epoch m) = m"
  "epoch (mark_fence m) = epoch m" "fence (mark_fence m) = epoch m" "contents (mark_fence m) = contents m"
  by (simp_all add: increment_epoch_def decrement_epoch_def mark_fence_def contents_def fun_eq_iff)

text \<open>\<open>good f seen r e m\<close>: the map is well formed at epoch \<open>e\<close> and a follower at \<open>seen < e\<close> can catch up.\<close>

definition good ::
  "('v \<Rightarrow> 'k) \<Rightarrow> int \<Rightarrow> ('k \<rightharpoonup> 'v) \<Rightarrow> int \<Rightarrow> ('k, 'v) DualEpochMap \<Rightarrow> bool" where
  "good f seen r e m = (dm_wf f m \<and> epoch m = e \<and> seen < e \<and> tracks f seen r m)"

lemma good_update: "good f seen r e m \<Longrightarrow> f new = k \<Longrightarrow> good f seen r e (snd (update diff k new m))"
  by (simp add: good_def dm_wf_update tracks_update)

lemma good_remove: "good f seen r e m \<Longrightarrow> good f seen r e (snd (remove k m))"
  by (simp add: good_def dm_wf_remove tracks_remove)

lemma good_increment: "dm_wf f m \<Longrightarrow> in_sync f seen r m \<Longrightarrow> good f seen r (epoch m + 1) (increment_epoch m)"
  by (auto simp: good_def dm_wf_increment in_sync_def)

lemma good_in_sync: "good f seen r e m \<Longrightarrow> dm_wf f m \<and> in_sync f seen r m"
  by (simp add: good_def in_sync_def)

lemma good_sync_incoming:
  "good key seen r e m \<Longrightarrow> good key seen r e (fst (sync_incoming newer os (m, ks, s)))"
proof (induction os arbitrary: m ks s)
  case (Cons src os)
  then show ?case
    using good_update [OF Cons.prems refl, of "obj_diff newer" src] by (simp add: case_prod_beta)
qed simp

lemma good_sync_delete: "good f seen r e m \<Longrightarrow> good f seen r e (fst (sync_delete ks (m, s)))"
proof (induction ks arbitrary: m s)
  case (Cons n ks)
  obtain o1 m1 where rm: "remove n m = (o1, m1)" by (cases "remove n m")
  then have "good f seen r e m1" using good_remove [OF Cons.prems, of n] by simp
  then show ?case using Cons rm by (auto split: option.splits)
qed simp

lemma good_apply_loop: "good key seen r e m \<Longrightarrow> good key seen r e (fst (apply_loop newer us (m, s)))"
proof (induction newer us "(m, s)" arbitrary: m s rule: apply_loop.induct)
  case (2 newer new rest m s)
  then show ?case using good_update [OF 2(2) refl, of "obj_diff newer" new] by (simp add: case_prod_beta)
next
  case (3 newer k rest m s)
  then show ?case using good_remove [OF 3(2), of k] by simp
qed simp

text \<open>The counters tell whether anything happened: when they stay, so does the map.\<close>

definition total :: "SyncStatus \<Rightarrow> int" where
  "total s = add s + update_spec s + update_status s + update_meta s + delete s"

definition counts_nonneg :: "SyncStatus \<Rightarrow> bool" where
  "counts_nonneg s = (0 \<le> add s \<and> 0 \<le> update_spec s \<and> 0 \<le> update_status s \<and> 0 \<le> update_meta s \<and> 0 \<le> delete s)"

lemma count_diff_total:
  "total s \<le> total (count_diff d s)" "counts_nonneg s \<Longrightarrow> counts_nonneg (count_diff d s)"
  "total (count_diff d s) = total s \<Longrightarrow> \<exists>f. d = Some f \<and> has_no_changes f"
  by (auto simp: total_def count_diff_def counts_nonneg_def has_no_changes_def split: option.splits if_splits)

lemma update_no_changes: "fst (update diff k new m) = Some f \<Longrightarrow> has_no_changes f \<Longrightarrow> snd (update diff k new m) = m"
  by (cases rule: update_cases [of m k diff new]) auto

lemma apply_loop_total:
  assumes "apply_loop newer us (m, s) = (m', s')" "counts_nonneg s"
  shows "total s \<le> total s' \<and> counts_nonneg s' \<and> (total s' = total s \<longrightarrow> m' = m)"
  using assms
proof (induction newer us "(m, s)" arbitrary: m s rule: apply_loop.induct)
  case (2 newer new rest m s)
  obtain d m1 where u: "update (obj_diff newer) (key new) new m = (d, m1)"
    by (cases "update (obj_diff newer) (key new) new m")
  then have "total (count_diff d s) \<le> total s' \<and> counts_nonneg s' \<and> (total s' = total (count_diff d s) \<longrightarrow> m' = m1)"
    using 2 count_diff_total(2) by simp
  moreover have "total (count_diff d s) = total s \<Longrightarrow> m1 = m"
    using count_diff_total(3) update_no_changes [of "obj_diff newer" "key new" new m] u by force
  ultimately show ?case using count_diff_total(1) [of s d] by auto
next
  case (3 newer k rest m s)
  then have "total (s\<lparr>delete := delete s + 1\<rparr>) \<le> total s' \<and> counts_nonneg s'"
    by (simp add: counts_nonneg_def)
  then show ?case by (simp add: total_def)
qed simp

lemma apply_changes_cases:
  obtains (changed) s m' where "apply_loop newer us (increment_epoch m, zero_status) = (m', s)"
      "apply_changes newer us m = (Some (s\<lparr>sync_epoch := epoch m'\<rparr>), m')"
  | (same) s where "apply_loop newer us (increment_epoch m, zero_status) = (increment_epoch m, s)"
      "apply_changes newer us m = (None, m)"
proof -
  obtain m' s where run: "apply_loop newer us (increment_epoch m, zero_status) = (m', s)"
    by (cases "apply_loop newer us (increment_epoch m, zero_status)")
  have "counts_nonneg zero_status" "total zero_status = 0"
    by (simp_all add: counts_nonneg_def zero_status_def total_def)
  then have t: "counts_nonneg s" "total s = 0 \<Longrightarrow> m' = increment_epoch m"
    using apply_loop_total [OF run] by auto
  show thesis
  proof (cases "add s = 0 \<and> update_spec s = 0 \<and> update_status s = 0 \<and> delete s = 0 \<and> update_meta s = 0")
    case True
    then have "m' = increment_epoch m" using t by (simp add: total_def)
    then show ?thesis using same True run by (simp add: apply_changes_def)
  next
    case False
    then show ?thesis using changed run by (simp add: apply_changes_def)
  qed
qed

lemma apply_changes_in_sync:
  assumes "dm_wf key m" "in_sync key seen r m"
  shows "dm_wf key (snd (apply_changes newer us m)) \<and> in_sync key seen r (snd (apply_changes newer us m))"
proof (cases rule: apply_changes_cases [of newer us m])
  case (changed s m')
  then show ?thesis
    using good_apply_loop [OF good_increment [OF assms], of newer us zero_status] good_in_sync by fastforce
qed (use assms in simp)

lemma sync_all_in_sync:
  assumes "dm_wf key m" "in_sync key seen r m"
  shows "dm_wf key (snd (sync_all newer os m)) \<and> in_sync key seen r (snd (sync_all newer os m))"
proof -
  obtain m1 k1 s1 where i: "sync_incoming newer os (increment_epoch m, map fst (vals m), zero_status) = (m1, k1, s1)"
    by (cases "sync_incoming newer os (increment_epoch m, map fst (vals m), zero_status)") auto
  obtain m2 s2 where d: "sync_delete k1 (m1, s1) = (m2, s2)" by (cases "sync_delete k1 (m1, s1)")
  have "good key seen r (epoch m + 1) m2"
    using good_sync_delete [of key seen r _ m1 k1 s1]
      good_sync_incoming [OF good_increment [OF assms], of newer os "map fst (vals m)" zero_status] i d by simp
  then have "good key seen r (epoch m + 1) (mark_fence m2)"
    by (simp add: good_def dm_wf_mark_fence tracks_mark_fence)
  then show ?thesis using i d good_in_sync by (force simp: sync_all_def)
qed

section \<open>Refinement of an abstract map\<close>

definition abs_mod ::
  "('c \<Rightarrow> 'c \<Rightarrow> bool) \<Rightarrow> ('s, 't, 'k, 'c) MetadataStoreObject
    \<Rightarrow> ('k \<rightharpoonup> ('s, 't, 'k, 'c) MetadataStoreObject) \<Rightarrow> 'k \<rightharpoonup> ('s, 't, 'k, 'c) MetadataStoreObject" where
  "abs_mod newer obj c =
     (case c (key obj) of
        Some old \<Rightarrow> if newer (ctx old) (ctx obj) then c else c(key obj \<mapsto> obj)
      | None \<Rightarrow> c(key obj \<mapsto> obj))"

definition abs_apply ::
  "('c \<Rightarrow> 'c \<Rightarrow> bool) \<Rightarrow> ('s, 't, 'k, 'c) LSUpdate
    \<Rightarrow> ('k \<rightharpoonup> ('s, 't, 'k, 'c) MetadataStoreObject) \<Rightarrow> 'k \<rightharpoonup> ('s, 't, 'k, 'c) MetadataStoreObject" where
  "abs_apply newer u c = (case u of Mod obj \<Rightarrow> abs_mod newer obj c | Delete k \<Rightarrow> c(k := None))"

definition keyed :: "('k \<rightharpoonup> ('s, 't, 'k, 'c) MetadataStoreObject) \<Rightarrow> bool" where
  "keyed c = (\<forall>k obj. c k = Some obj \<longrightarrow> key obj = k)"

lemma dm_wf_keyed: "dm_wf key m \<Longrightarrow> keyed (contents m)"
  using dm_wf_lookup [of key m] by (auto simp: keyed_def contents_def)

lemma keyed_abs: "keyed c \<Longrightarrow> keyed (abs_mod newer obj c)" "keyed c \<Longrightarrow> keyed (abs_apply newer u c)"
  by (auto simp: keyed_def abs_mod_def abs_apply_def split: option.splits LSUpdate.splits)

lemma contents_update_abs:
  assumes "keyed (contents m)"
  shows "contents (snd (update (obj_diff newer) (key obj) obj m)) = abs_mod newer obj (contents m)"
proof (cases "contents m (key obj)")
  case (Some old)
  then have "key old = key obj" using assms by (simp add: keyed_def)
  then have "has_no_changes (obj_diff newer old obj) \<longleftrightarrow> newer (ctx old) (ctx obj) \<or> old = obj"
    by (auto simp: obj_diff_def has_no_changes_def no_change_def)
  then show ?thesis using Some by (auto simp: contents_update abs_mod_def)
qed (simp add: contents_update abs_mod_def)

lemma contents_apply_loop:
  "keyed (contents m) \<Longrightarrow> contents (fst (apply_loop newer us (m, s))) = fold (abs_apply newer) us (contents m)"
proof (induction newer us "(m, s)" arbitrary: m s rule: apply_loop.induct)
  case (2 newer new rest m s)
  then show ?case
    using contents_update_abs [of m newer new] keyed_abs(1) [of "contents m" newer new]
    by (simp add: case_prod_beta abs_apply_def)
next
  case (3 newer k rest m s)
  then show ?case
    using keyed_abs(2) [of "contents m" newer "Delete k"] by (simp add: contents_remove abs_apply_def)
qed simp

lemma sync_incoming_contents:
  assumes "keyed (contents m)" "sync_incoming newer os (m, ks, s) = (m', ks', s')"
  shows "contents m' = fold (abs_mod newer) os (contents m) \<and> ks' = filter (\<lambda>n. n \<notin> key ` set os) ks"
  using assms
proof (induction os arbitrary: m ks s)
  case (Cons src os)
  obtain d m1 where u: "update (obj_diff newer) (key src) src m = (d, m1)"
    by (cases "update (obj_diff newer) (key src) src m")
  have m1: "contents m1 = abs_mod newer src (contents m)"
    using contents_update_abs [OF Cons.prems(1), of newer src] u by simp
  then have "keyed (contents m1)" using keyed_abs(1) [OF Cons.prems(1)] by simp
  then show ?case
    using Cons.IH [of m1] Cons.prems u m1 by (fastforce intro: filter_cong)
qed simp

lemma sync_delete_contents: "contents (fst (sync_delete ks (m, s))) = contents m |` (- set ks)"
proof (induction ks arbitrary: m s)
  case (Cons n ks)
  obtain o1 m1 where rm: "remove n m = (o1, m1)" by (cases "remove n m")
  have c1: "contents m1 = (contents m)(n := None)" using contents_remove [of n m] rm by simp
  show ?case
  proof (cases "map_of (vals m) n")
    case None
    then have "contents m n = None" by (simp add: contents_def)
    then show ?thesis using Cons None by (auto simp: restrict_map_def fun_eq_iff)
  next
    case (Some c)
    then have "\<exists>x. o1 = Some x" using fst_remove [of n m] rm by (auto simp: contents_def)
    then show ?thesis using Cons Some rm c1 by (auto simp: restrict_map_def fun_eq_iff)
  qed
qed (simp add: restrict_map_def)

lemma abs_mod_dom: "dom (fold (abs_mod newer) os c) \<subseteq> dom c \<union> key ` set os"
  by (induction os arbitrary: c) (force simp: abs_mod_def split: option.splits if_splits)+

lemma sync_all_contents:
  assumes "dm_wf key m"
  shows "contents (snd (sync_all newer os m)) = fold (abs_mod newer) os (contents m) |` (key ` set os)"
proof -
  obtain m1 k1 s1 where i: "sync_incoming newer os (increment_epoch m, map fst (vals m), zero_status) = (m1, k1, s1)"
    by (cases "sync_incoming newer os (increment_epoch m, map fst (vals m), zero_status)") auto
  then have m1: "contents m1 = fold (abs_mod newer) os (contents m)"
      "k1 = filter (\<lambda>n. n \<notin> key ` set os) (map fst (vals m))"
    using sync_incoming_contents [of "increment_epoch m"] dm_wf_keyed [OF assms] by auto
  have "dom (contents m) = fst ` set (vals m)"
    by (auto simp: contents_def dom_def domIff map_of_eq_None_iff simp flip: not_None_eq)
  then have "fold (abs_mod newer) os (contents m) k = None" if "k \<notin> key ` set os" "k \<notin> fst ` set (vals m)" for k
    using abs_mod_dom [of newer os "contents m"] that by blast
  then have "contents m1 |` (- set k1) = fold (abs_mod newer) os (contents m) |` (key ` set os)"
    using m1 by (auto simp: restrict_map_def fun_eq_iff)
  then show ?thesis
    using i sync_delete_contents [of k1 m1 s1] by (simp add: sync_all_def case_prod_beta)
qed

lemma fold_abs_mod_add:
  assumes "distinct (map key os)"
    and "\<forall>obj \<in> set os. \<forall>old. c (key obj) = Some old \<longrightarrow> \<not> newer (ctx old) (ctx obj)"
  shows "fold (abs_mod newer) os c = c ++ map_of (map (\<lambda>obj. (key obj, obj)) os)"
  using assms
proof (induction os arbitrary: c)
  case (Cons src os)
  then have "abs_mod newer src c = c(key src \<mapsto> src)"
    by (auto simp: abs_mod_def split: option.splits)
  moreover have "map_of (map (\<lambda>obj. (key obj, obj)) os) (key src) = None"
    using Cons.prems(1) by (auto simp: map_of_eq_None_iff)
  moreover have "fold (abs_mod newer) os (c(key src \<mapsto> src)) =
      c(key src \<mapsto> src) ++ map_of (map (\<lambda>obj. (key obj, obj)) os)"
    using Cons.prems by (intro Cons.IH) (fastforce simp: image_iff)+
  ultimately show ?case
    by (simp add: map_add_upd_left domIff) (simp add: map_add_def fun_eq_iff)
qed simp

lemma fold_abs_mod_fresh:
  assumes "distinct (map key os)"
    and "\<forall>obj \<in> set os. \<forall>old. c (key obj) = Some old \<longrightarrow> \<not> newer (ctx old) (ctx obj)"
  shows "fold (abs_mod newer) os c |` (key ` set os) = map_of (map (\<lambda>obj. (key obj, obj)) os)"
  using fold_abs_mod_add [OF assms]
  by (auto simp: restrict_map_def map_add_def fun_eq_iff map_of_eq_None_iff image_iff
      split: option.splits intro: sym dest!: map_of_SomeD)

lemma sync_all_fence:
  assumes "dm_wf key m"
  shows "fence (snd (sync_all newer os m)) = epoch m + 1"
proof -
  obtain m1 k1 s1 where i: "sync_incoming newer os (increment_epoch m, map fst (vals m), zero_status) = (m1, k1, s1)"
    by (cases "sync_incoming newer os (increment_epoch m, map fst (vals m), zero_status)") auto
  have "good key (epoch m) (contents m) (epoch m + 1) m1"
    using good_sync_incoming [OF good_increment [OF assms in_sync_self [OF assms]],
        of newer os "map fst (vals m)" zero_status] i by simp
  from good_sync_delete [OF this, of k1 s1] show ?thesis
    using i by (auto simp: sync_all_def case_prod_beta good_def)
qed

lemma apply_changes_contents:
  assumes "dm_wf key m"
  shows "contents (snd (apply_changes newer us m)) = fold (abs_apply newer) us (contents m)"
proof -
  have "keyed (contents (increment_epoch m))" using dm_wf_keyed [OF assms] by simp
  from contents_apply_loop [OF this, of newer us zero_status] show ?thesis
    by (cases rule: apply_changes_cases [of newer us m]) simp_all
qed

lemma distinct_keys:
  assumes "dm_wf key m"
  shows "distinct (map key (map inner (filter P (map snd (vals m)))))"
proof -
  have "map (\<lambda>e. key (inner (snd e))) (vals m) = map fst (vals m)" "distinct (map fst (vals m))"
    using assms by (auto simp: dm_wf_def)
  then have "distinct (map (\<lambda>e. key (inner (snd e))) (vals m))" by (simp only:)
  from distinct_map_filter [OF this, of "P \<circ> snd"] show ?thesis by (simp add: filter_map comp_def)
qed

section \<open>Properties of the store\<close>

text \<open>
  C6. The store refines a plain map. On a well-formed store \<open>apply_changes\<close>
  has the effect of applying the changes to the contents one by one, where a
  modification is ignored when the object at its key is newer, and the
  result is well formed again.
\<close>

theorem apply_changes_refines:
  assumes "dm_wf key m"
  shows "contents (snd (apply_changes newer us m)) = fold (abs_apply newer) us (contents m) \<and>
         dm_wf key (snd (apply_changes newer us m))"
  using apply_changes_contents [OF assms] apply_changes_in_sync [OF assms in_sync_self [OF assms]] by simp

definition obj1 :: "(nat, nat, nat, u32) MetadataStoreObject" where
  "obj1 = \<lparr>spec = 1, status = 1, key = 1, ctx = 1\<rparr>"

definition obj2 :: "(nat, nat, nat, u32) MetadataStoreObject" where
  "obj2 = \<lparr>spec = 2, status = 1, key = 2, ctx = 1\<rparr>"

definition empty_store :: "(nat, nat, nat, u32) object_map" where
  "empty_store = new_with_map []"

lemma empty_store_wf: "dm_wf key empty_store"
  by (simp add: dm_wf_def empty_store_def new_with_map_def)

theorem apply_changes_refines_witness:
  "contents (snd (apply_changes is_newer_u32 [Mod obj1, Mod obj2, Delete 1] empty_store)) = [2 \<mapsto> obj2]"
  using apply_changes_refines [OF empty_store_wf, of is_newer_u32 "[Mod obj1, Mod obj2, Delete 1]"]
  by (auto simp: abs_apply_def abs_mod_def obj1_def obj2_def empty_store_def new_with_map_def contents_def
      fun_eq_iff)

text \<open>
  C11. \<open>sync_all\<close> makes the incoming list the contents: when the list has no
  two objects with one key and none is older than the object it replaces,
  the store holds exactly the incoming objects afterwards. A listener that
  was behind then gets the complete list.
\<close>

theorem sync_all_contents_incoming:
  assumes "dm_wf key m" "distinct (map key os)"
    and "\<forall>obj \<in> set os. \<forall>old. contents m (key obj) = Some old \<longrightarrow> \<not> newer (ctx old) (ctx obj)"
  shows "contents (snd (sync_all newer os m)) = map_of (map (\<lambda>obj. (key obj, obj)) os) \<and>
         (\<forall>seen \<le> epoch m. is_sync_all (changes_since seen (snd (sync_all newer os m))))"
  using assms fold_abs_mod_fresh [OF assms(2,3)] sync_all_contents [OF assms(1), of newer os]
    sync_all_fence [OF assms(1), of newer os]
  by (auto simp: changes_since_def changes_since_with_filter_def is_sync_all_def)

theorem sync_all_contents_incoming_witness:
  "contents (snd (sync_all is_newer_u32 [obj1] (snd (apply_changes is_newer_u32 [Mod obj2] empty_store)))) = [1 \<mapsto> obj1]"
proof -
  define m where "m = snd (apply_changes is_newer_u32 [Mod obj2] empty_store)"
  have "dm_wf key m"
    using apply_changes_in_sync [OF empty_store_wf in_sync_self [OF empty_store_wf]] by (simp add: m_def)
  moreover have "contents m 1 = None"
    using contents_apply_loop [of "increment_epoch empty_store" is_newer_u32 "[Mod obj2]" zero_status]
      dm_wf_keyed [OF empty_store_wf]
    by (cases rule: apply_changes_cases [of is_newer_u32 "[Mod obj2]" empty_store])
      (auto simp: m_def abs_apply_def abs_mod_def obj2_def empty_store_def new_with_map_def contents_def)
  ultimately show ?thesis
    using sync_all_contents_incoming [of m "[obj1]" is_newer_u32] by (simp add: m_def obj1_def)
qed

end
