(* ===== verification/Store_Sync.thy ===== *)
theory Store_Sync
  imports Metadata_Store
begin

text \<open>
  Sequences of store operations and what their observers see: whole
  \<open>sync_all\<close> and \<open>apply_changes\<close> calls with the publication of the epoch
  (\<open>fluvio-stream-model/src/store/dual_store.rs\<close>, \<open>event.rs\<close>), the interleaving of
  concurrent writers, and the convergence of a client cache fed by the watch
  service (\<open>fluvio-sc/src/services/public_api/watch.rs\<close>,
  \<open>fluvio/src/sync/controller.rs\<close>).
\<close>

section \<open>Whole store operations\<close>

definition ls_sync_all ::
  "('c \<Rightarrow> 'c \<Rightarrow> bool) \<Rightarrow> ('s, 't, 'k, 'c) MetadataStoreObject list \<Rightarrow> ('s, 't, 'k, 'c) LocalStore
    \<Rightarrow> SyncStatus \<times> ('s, 't, 'k, 'c) LocalStore" where
  "ls_sync_all newer incoming st =
     (case sync_all newer incoming (store st) of
        (s, m) \<Rightarrow> (s, store_change (sync_epoch s) (st\<lparr>store := m\<rparr>)))"

definition ls_apply_changes ::
  "('c \<Rightarrow> 'c \<Rightarrow> bool) \<Rightarrow> ('s, 't, 'k, 'c) LSUpdate list \<Rightarrow> ('s, 't, 'k, 'c) LocalStore
    \<Rightarrow> SyncStatus option \<times> ('s, 't, 'k, 'c) LocalStore" where
  "ls_apply_changes newer us st =
     (case apply_changes newer us (store st) of
        (None, m) \<Rightarrow> (None, st\<lparr>store := m\<rparr>)
      | (Some s, m) \<Rightarrow> (Some s, store_change (sync_epoch s) (st\<lparr>store := m\<rparr>)))"

datatype ('s, 't, 'k, 'c) store_op =
    OpSyncAll "('s, 't, 'k, 'c) MetadataStoreObject list"
  | OpApply "('s, 't, 'k, 'c) LSUpdate list"

fun run_op ::
  "('c \<Rightarrow> 'c \<Rightarrow> bool) \<Rightarrow> ('s, 't, 'k, 'c) store_op \<Rightarrow> ('s, 't, 'k, 'c) LocalStore \<Rightarrow> ('s, 't, 'k, 'c) LocalStore" where
  "run_op newer (OpSyncAll os) st = snd (ls_sync_all newer os st)"
| "run_op newer (OpApply us) st = snd (ls_apply_changes newer us st)"

definition run_ops ::
  "('c \<Rightarrow> 'c \<Rightarrow> bool) \<Rightarrow> ('s, 't, 'k, 'c) store_op list \<Rightarrow> ('s, 't, 'k, 'c) LocalStore \<Rightarrow> ('s, 't, 'k, 'c) LocalStore" where
  "run_ops newer ops st = fold (run_op newer) ops st"

text \<open>The published epoch is the epoch of the map whenever no operation is under way.\<close>

definition published :: "('s, 't, 'k, 'c) LocalStore \<Rightarrow> bool" where
  "published st = (dm_wf key (store st) \<and> change st = epoch (store st))"

lemma store_after_op:
  "store (run_op newer op st) =
     (case op of OpSyncAll os \<Rightarrow> snd (sync_all newer os (store st))
               | OpApply us \<Rightarrow> snd (apply_changes newer us (store st)))"
  by (cases op) (auto simp: ls_sync_all_def ls_apply_changes_def store_change_def split: prod.splits option.splits)

lemma sync_all_epoch: "sync_epoch (fst (sync_all newer os m)) = epoch (snd (sync_all newer os m))"
  by (simp add: sync_all_def case_prod_beta Let_def)

lemma run_op_in_sync:
  assumes "published st" "in_sync key seen r (store st)"
  shows "published (run_op newer op st) \<and> in_sync key seen r (store (run_op newer op st))"
proof (cases op)
  case (OpSyncAll os)
  then show ?thesis
    using assms sync_all_in_sync [of "store st" seen r newer os] sync_all_epoch [of newer os "store st"]
    by (auto simp: published_def ls_sync_all_def store_change_def case_prod_beta)
next
  case (OpApply us)
  have wf: "dm_wf key (store st)" using assms by (simp add: published_def)
  from apply_changes_in_sync [OF this assms(2), of newer us] show ?thesis
    using assms OpApply
    by (cases rule: apply_changes_cases [of newer us "store st"])
      (auto simp: published_def ls_apply_changes_def store_change_def)
qed

lemma run_ops_in_sync:
  assumes "published st" "in_sync key seen r (store st)"
  shows "published (run_ops newer ops st) \<and> in_sync key seen r (store (run_ops newer ops st))"
  unfolding run_ops_def using assms
proof (induction ops arbitrary: st)
  case (Cons op ops)
  then show ?case using run_op_in_sync [OF Cons.prems, of newer op] by simp
qed simp

text \<open>
  C20. A listener never misses a change. After it has synced with a store, let
  any sequence of \<open>sync_all\<close> and \<open>apply_changes\<close> calls run: if they changed the
  contents then \<open>has_change\<close> tells, and the delta of its next \<open>sync_changes\<close>
  turns the contents it knew into the current ones and moves it to the
  current epoch.
\<close>

theorem listener_catches_up:
  assumes "published st" "last_change l = epoch (store st)"
    and "sync_changes (run_ops newer ops st) l = (ch, l')"
  shows "apply_delta key (changes ch) (contents (store st)) = contents (store (run_ops newer ops st)) \<and>
         last_change l' = epoch (store (run_ops newer ops st)) \<and>
         (contents (store (run_ops newer ops st)) \<noteq> contents (store st) \<longrightarrow>
            has_change (run_ops newer ops st) l)"
proof -
  let ?st = "run_ops newer ops st"
  have sync: "published ?st" "in_sync key (epoch (store st)) (contents (store st)) (store ?st)"
    using run_ops_in_sync [OF assms(1) in_sync_self] assms(1) by (auto simp: published_def)
  have ch: "ch = changes_since (last_change l) (store ?st)" "last_change l' = changes_epoch ch"
    using assms(3) by (auto simp: sync_changes_def sync_changes_with_filter_def changes_since_def Let_def)
  have "changes_epoch ch = epoch (store ?st)"
    by (simp add: ch changes_since_def changes_since_with_filter_def)
  then show ?thesis
    using catch_up [OF sync(2)] sync ch assms(2)
    by (auto simp: published_def in_sync_def has_change_def)
qed

definition fresh_store :: "(nat, nat, nat, u32) LocalStore" where
  "fresh_store = \<lparr>store = empty_store, change = 0\<rparr>"

lemma fresh_store_published: "published fresh_store"
  using empty_store_wf by (simp add: published_def fresh_store_def empty_store_def new_with_map_def)

theorem listener_catches_up_witness:
  "apply_delta key
     (changes (fst (sync_changes (run_ops is_newer_u32 [OpApply [Mod obj1], OpSyncAll [obj2]] fresh_store) listener_new)))
     Map.empty =
   contents (store (run_ops is_newer_u32 [OpApply [Mod obj1], OpSyncAll [obj2]] fresh_store))"
proof -
  have "contents (store fresh_store) = Map.empty" "last_change listener_new = epoch (store fresh_store)"
    by (simp_all add: fresh_store_def empty_store_def new_with_map_def contents_def fun_eq_iff listener_new_def)
  then show ?thesis
    using listener_catches_up [OF fresh_store_published, of listener_new is_newer_u32
        "[OpApply [Mod obj1], OpSyncAll [obj2]]"]
    by (metis prod.collapse)
qed

section \<open>Repeated changes\<close>

definition mods :: "('s, 't, 'k, 'c) MetadataStoreObject list \<Rightarrow> ('s, 't, 'k, 'c) LSUpdate list" where
  "mods os = map Mod os"

lemma settled_apply_mods:
  assumes "distinct (map key os)" "obj \<in> set os \<or> md.settled newer m (key obj) obj \<and> key obj \<notin> key ` set os"
  shows "md.settled newer (fst (apply_loop newer (mods os) (m, s))) (key obj) obj"
  using assms
proof (induction os arbitrary: m s)
  case (Cons new os)
  let ?m = "snd (update (obj_diff newer) (key new) new m)"
  have "obj \<in> set os \<or> md.settled newer ?m (key obj) obj \<and> key obj \<notin> key ` set os"
    using Cons.prems md.settled_after_update [of newer "key new" new m]
      md.settled_update_other [of "key obj" "key new" newer m obj new] by auto
  then have "md.settled newer (fst (apply_loop newer (mods os) (?m, s'))) (key obj) obj" for s'
    using Cons.IH Cons.prems(1) by simp
  then show ?case by (simp add: mods_def case_prod_beta)
qed (simp add: mods_def)

lemma apply_settled_mods:
  assumes "\<forall>obj \<in> set os. md.settled newer m (key obj) obj"
  shows "apply_loop newer (mods os) (m, s) = (m, s)"
  using assms
proof (induction os)
  case (Cons new os)
  then obtain d where "update (obj_diff newer) (key new) new m = (Some d, m)" "has_no_changes d"
    using md.update_settled [of newer m "key new" new] by auto
  then have "apply_loop newer (mods (new # os)) (m, s) = apply_loop newer (mods os) (m, s)"
    by (simp add: mods_def count_diff_def has_no_changes_def)
  then show ?case using Cons by simp
qed (simp add: mods_def)

lemma settled_increment [simp]: "md.settled newer (increment_epoch m) k obj = md.settled newer m k obj"
  by (simp add: md.settled_def)

lemma apply_mods_twice:
  assumes "distinct (map key os)"
  shows "apply_changes newer (mods os) (snd (apply_changes newer (mods os) m)) =
         (None, snd (apply_changes newer (mods os) m))"
proof -
  let ?m = "snd (apply_changes newer (mods os) m)"
  have "md.settled newer ?m (key obj) obj" if "obj \<in> set os" for obj
    using settled_apply_mods [OF assms, of obj newer "increment_epoch m" zero_status] that
    by (cases rule: apply_changes_cases [of newer "mods os" m]) simp_all
  then have "apply_loop newer (mods os) (increment_epoch ?m, zero_status) = (increment_epoch ?m, zero_status)"
    by (intro apply_settled_mods) simp
  then show ?thesis by (simp add: apply_changes_def [of _ _ ?m] zero_status_def)
qed

text \<open>
  Applying additions and updates of objects with different keys twice is
  applying them once: the second \<open>apply_changes\<close> reports no change, publishes
  nothing, and leaves the store, its epoch and the published epoch as they are,
  as the comment on \<open>apply_changes\<close> promises.
\<close>

theorem apply_changes_idempotent:
  assumes "distinct (map key os)"
  shows "ls_apply_changes newer (mods os) (snd (ls_apply_changes newer (mods os) ls)) =
         (None, snd (ls_apply_changes newer (mods os) ls))"
proof -
  have "store (snd (ls_apply_changes newer (mods os) ls)) = snd (apply_changes newer (mods os) (store ls))"
    by (auto simp: ls_apply_changes_def store_change_def split: prod.splits option.splits)
  then show ?thesis
    using apply_mods_twice [OF assms, of newer "store ls"]
    by (simp add: ls_apply_changes_def [of newer "mods os" "snd (ls_apply_changes newer (mods os) ls)"])
qed

theorem apply_changes_idempotent_witness:
  "fst (ls_apply_changes is_newer_u32 (mods [obj1, obj2])
          (snd (ls_apply_changes is_newer_u32 (mods [obj1, obj2]) fresh_store))) = None"
  using apply_changes_idempotent [of "[obj1, obj2]" is_newer_u32 fresh_store] by (simp add: obj1_def obj2_def)

text \<open>
  Deletions are different: deleting a key the store does not have is
  counted and takes a new epoch, although nothing changes, so every listener
  is woken up for an empty delta.
\<close>

theorem delete_missing_takes_epoch:
  assumes "contents m k = None"
  shows "apply_changes newer [Delete k] m =
           (Some (zero_status\<lparr>delete := 1, sync_epoch := epoch m + 1\<rparr>), increment_epoch m)"
proof -
  have "map_of (vals (increment_epoch m)) k = None" using assms by (simp add: contents_def)
  then show ?thesis by (simp add: apply_changes_def remove_def zero_status_def)
qed

theorem delete_missing_takes_epoch_witness:
  "epoch (snd (apply_changes is_newer_u32 [Delete 7] empty_store)) = 1"
  using delete_missing_takes_epoch [of empty_store 7 is_newer_u32]
  by (simp add: contents_def empty_store_def new_with_map_def)

section \<open>Concurrent writers and a listener\<close>

text \<open>
  A writer changes the map under the write lock and publishes the epoch after
  it has dropped the lock, so publications of several writers may come in any
  order. \<open>pending\<close> holds the epochs of writers between the two points, \<open>copy\<close>
  is what the listener has assembled from the deltas it received.
\<close>

record ('s, 't, 'k, 'c) sharing =
  shared :: "('s, 't, 'k, 'c) LocalStore"
  pending :: "int list"
  listener :: ChangeListener
  copy :: "'k \<rightharpoonup> ('s, 't, 'k, 'c) MetadataStoreObject"

definition locked_op ::
  "('c \<Rightarrow> 'c \<Rightarrow> bool) \<Rightarrow> ('s, 't, 'k, 'c) store_op \<Rightarrow> ('s, 't, 'k, 'c) object_map
    \<Rightarrow> int list \<times> ('s, 't, 'k, 'c) object_map" where
  "locked_op newer op m =
     (case op of
        OpSyncAll os \<Rightarrow> (case sync_all newer os m of (s, m') \<Rightarrow> ([sync_epoch s], m'))
      | OpApply us \<Rightarrow> (case apply_changes newer us m of
            (None, m') \<Rightarrow> ([], m')
          | (Some s, m') \<Rightarrow> ([sync_epoch s], m')))"

inductive share_step ::
  "('c \<Rightarrow> 'c \<Rightarrow> bool) \<Rightarrow> ('s, 't, 'k, 'c) sharing \<Rightarrow> ('s, 't, 'k, 'c) sharing \<Rightarrow> bool" for newer where
  under_lock: "locked_op newer op (store (shared c)) = (es, m') \<Longrightarrow>
     share_step newer c (c\<lparr>shared := (shared c)\<lparr>store := m'\<rparr>, pending := es @ pending c\<rparr>)"
| publish: "e \<in> set (pending c) \<Longrightarrow>
     share_step newer c (c\<lparr>shared := store_change e (shared c), pending := remove1 e (pending c)\<rparr>)"
| sync: "sync_changes (shared c) (listener c) = (ch, l') \<Longrightarrow>
     share_step newer c (c\<lparr>listener := l', copy := apply_delta key (changes ch) (copy c)\<rparr>)"

inductive share_reach ::
  "('c \<Rightarrow> 'c \<Rightarrow> bool) \<Rightarrow> ('s, 't, 'k, 'c) sharing \<Rightarrow> ('s, 't, 'k, 'c) sharing \<Rightarrow> bool" for newer where
  here: "share_reach newer c c"
| there: "share_reach newer c d \<Longrightarrow> share_step newer d e \<Longrightarrow> share_reach newer c e"

definition share_inv :: "('s, 't, 'k, 'c) sharing \<Rightarrow> bool" where
  "share_inv c =
     (dm_wf key (store (shared c)) \<and>
      in_sync key (last_change (listener c)) (copy c) (store (shared c)) \<and>
      change (shared c) \<le> epoch (store (shared c)) \<and>
      (\<forall>e \<in> set (pending c). e \<le> epoch (store (shared c))))"

lemma locked_op_store: "snd (locked_op newer op m) = store (run_op newer op \<lparr>store = m, change = z\<rparr>)"
  by (cases op)
    (auto simp: locked_op_def ls_sync_all_def ls_apply_changes_def store_change_def split: prod.splits option.splits)

lemma apply_changes_epoch:
  assumes "dm_wf key m"
  shows "epoch m \<le> epoch (snd (apply_changes newer us m)) \<and>
         (\<forall>s. fst (apply_changes newer us m) = Some s \<longrightarrow> sync_epoch s = epoch (snd (apply_changes newer us m)))"
proof -
  have "good key (epoch m) (contents m) (epoch m + 1) (fst (apply_loop newer us (increment_epoch m, zero_status)))"
    by (rule good_apply_loop [OF good_increment [OF assms in_sync_self [OF assms]]])
  then show ?thesis
    by (cases rule: apply_changes_cases [of newer us m]) (auto simp: good_def)
qed

lemma sync_all_epoch_next:
  assumes "dm_wf key m"
  shows "epoch (snd (sync_all newer os m)) = epoch m + 1"
  using sync_all_fence [OF assms, of newer os] by (simp add: sync_all_def case_prod_beta Let_def)

lemma locked_op_epoch:
  assumes "dm_wf key m" "locked_op newer op m = (es, m')"
  shows "epoch m \<le> epoch m' \<and> (\<forall>e \<in> set es. e = epoch m')"
proof (cases op)
  case (OpSyncAll os)
  then show ?thesis
    using assms(2) sync_all_epoch [of newer os m] sync_all_epoch_next [OF assms(1), of newer os]
    by (auto simp: locked_op_def split: prod.splits)
next
  case (OpApply us)
  then show ?thesis
    using assms(2) apply_changes_epoch [OF assms(1), of newer us]
    by (auto simp: locked_op_def split: prod.splits option.splits)
qed

lemma locked_op_in_sync:
  assumes "dm_wf key m" "in_sync key seen r m" "locked_op newer op m = (es, m')"
  shows "dm_wf key m' \<and> in_sync key seen r m'"
  using run_op_in_sync [of "\<lparr>store = m, change = epoch m\<rparr>" seen r newer op] assms
    locked_op_store [of newer op m "epoch m"] by (simp add: published_def)

text \<open>The copy of a listener is the content another state of the system has at the listener's epoch.\<close>

definition in_step_with :: "('s, 't, 'k, 'c) sharing \<Rightarrow> ('s, 't, 'k, 'c) sharing \<Rightarrow> bool" where
  "in_step_with d mid = (copy d = contents (store (shared mid)) \<and> last_change (listener d) = epoch (store (shared mid)))"

definition in_step :: "('s, 't, 'k, 'c) sharing \<Rightarrow> bool" where
  "in_step c = in_step_with c c"

lemma share_sync_copy:
  assumes "sync_changes (shared c) (listener c) = (ch, l')" "share_inv c"
  shows "last_change l' = epoch (store (shared c))" "apply_delta key (changes ch) (copy c) = contents (store (shared c))"
proof -
  have l': "last_change l' = epoch (store (shared c))" "ch = changes_since (last_change (listener c)) (store (shared c))"
    using assms(1) by (auto simp: sync_changes_def sync_changes_with_filter_def changes_since_def
        changes_since_with_filter_def Let_def)
  then show "last_change l' = epoch (store (shared c))" "apply_delta key (changes ch) (copy c) = contents (store (shared c))"
    using assms(2) catch_up by (auto simp: share_inv_def)
qed

lemma share_step_inv:
  assumes "share_step newer c d" "share_inv c"
  shows "share_inv d"
  using assms
proof cases
  case (under_lock op es m')
  then show ?thesis
    using assms(2) locked_op_epoch [OF _ under_lock(2)] locked_op_in_sync [OF _ _ under_lock(2)]
    by (fastforce simp: share_inv_def)
next
  case (publish e)
  then show ?thesis
    using assms(2) by (auto simp: share_inv_def store_change_def dest: notin_set_remove1)
next
  case (sync ch l')
  then show ?thesis
    using assms(2) share_sync_copy [OF sync(2) assms(2)] in_sync_self [of key "store (shared c)"]
    by (simp add: share_inv_def)
qed

lemma share_reach_inv: "share_reach newer c d \<Longrightarrow> share_inv c \<Longrightarrow> share_inv d"
  by (induction rule: share_reach.induct) (auto intro: share_step_inv)

lemma share_reach_copy:
  assumes "share_reach newer c d" "share_inv c" "in_step c"
  shows "\<exists>mid. share_reach newer c mid \<and> share_reach newer mid d \<and> in_step_with d mid"
  using assms
proof (induction rule: share_reach.induct)
  case (here c)
  then show ?case by (intro exI [of _ c]) (simp add: in_step_def share_reach.here)
next
  case (there c d e)
  then obtain mid where mid: "share_reach newer c mid" "share_reach newer mid d" "in_step_with d mid" by blast
  have inv: "share_inv d" by (rule share_reach_inv [OF there.hyps(1) there.prems(1)])
  have e: "share_reach newer mid e" "share_reach newer c e"
    using mid(2) there.hyps by (auto intro: share_reach.there)
  from there.hyps(2) show ?case
  proof cases
    case (sync ch l')
    have "in_step_with e e"
      using sync share_sync_copy [OF sync(2) inv] by (simp add: in_step_with_def)
    then show ?thesis using e(2) by (auto intro: share_reach.here)
  qed (use mid e(1) in \<open>auto simp: in_step_with_def store_change_def\<close>)
qed

definition start_sharing :: "(nat, nat, nat, u32) sharing" where
  "start_sharing = \<lparr>shared = fresh_store, pending = [], listener = listener_new, copy = Map.empty\<rparr>"

lemma empty_store_contents: "contents empty_store = Map.empty"
  by (simp add: empty_store_def new_with_map_def contents_def fun_eq_iff)

lemma start_sharing_inv: "share_inv start_sharing"
proof -
  have "contents (store (shared start_sharing)) = copy start_sharing"
    by (simp add: start_sharing_def fresh_store_def empty_store_def new_with_map_def contents_def fun_eq_iff)
  then show ?thesis
    using in_sync_self [OF empty_store_wf] empty_store_wf
    by (simp add: share_inv_def start_sharing_def fresh_store_def listener_new_def empty_store_def new_with_map_def)
qed

lemma locked_mods:
  "locked_op is_newer_u32 (OpApply [Mod obj1]) empty_store =
     ([1], \<lparr>epoch = 1, fence = 0, vals = [(1, set_epoch 1 (dual_new obj1))], deleted = []\<rparr>)"
  "locked_op is_newer_u32 (OpApply [Mod obj2])
     \<lparr>epoch = 1, fence = 0, vals = [(1, set_epoch 1 (dual_new obj1))], deleted = []\<rparr> =
     ([2], \<lparr>epoch = 2, fence = 0, vals = [(1, set_epoch 1 (dual_new obj1)), (2, set_epoch 2 (dual_new obj2))],
            deleted = []\<rparr>)"
  by (simp_all add: locked_op_def apply_changes_def update_def empty_store_def new_with_map_def
      increment_epoch_def obj1_def obj2_def count_diff_def zero_status_def)

text \<open>
  The first writer adds an object, the listener syncs, the second writer adds
  another one and publishes, then the first writer publishes.
\<close>

lemma overlapping_writers:
  obtains d where "share_reach is_newer_u32 start_sharing d" "pending d = []" "change (shared d) = 1"
    "last_change (listener d) = 1" "copy d \<noteq> contents (store (shared d))"
proof -
  let ?m1 = "snd (locked_op is_newer_u32 (OpApply [Mod obj1]) empty_store)"
  let ?m2 = "snd (locked_op is_newer_u32 (OpApply [Mod obj2]) ?m1)"
  let ?s1 = "\<lparr>store = ?m1, change = 0\<rparr>"
  let ?r = "apply_delta key (changes (fst (sync_changes ?s1 listener_new))) Map.empty"
  let ?c1 = "\<lparr>shared = ?s1, pending = [1], listener = listener_new, copy = Map.empty\<rparr>"
  let ?c2 = "\<lparr>shared = ?s1, pending = [1], listener = \<lparr>last_change = 1\<rparr>, copy = ?r\<rparr>"
  let ?c3 = "\<lparr>shared = \<lparr>store = ?m2, change = 0\<rparr>, pending = [2, 1], listener = \<lparr>last_change = 1\<rparr>, copy = ?r\<rparr>"
  let ?c4 = "\<lparr>shared = \<lparr>store = ?m2, change = 2\<rparr>, pending = [1], listener = \<lparr>last_change = 1\<rparr>, copy = ?r\<rparr>"
  let ?c5 = "\<lparr>shared = \<lparr>store = ?m2, change = 1\<rparr>, pending = [], listener = \<lparr>last_change = 1\<rparr>, copy = ?r\<rparr>"
  have "share_step is_newer_u32 start_sharing ?c1"
    using share_step.under_lock [of is_newer_u32 "OpApply [Mod obj1]" start_sharing "[1]"]
    by (simp add: start_sharing_def fresh_store_def locked_mods)
  moreover have "share_step is_newer_u32 ?c1 ?c2"
    using share_step.sync [of ?c1 "fst (sync_changes ?s1 listener_new)" "\<lparr>last_change = 1\<rparr>" is_newer_u32]
    by (simp add: sync_changes_def sync_changes_with_filter_def Let_def locked_mods changes_since_with_filter_def
        listener_new_def)
  moreover have "share_step is_newer_u32 ?c2 ?c3"
    using share_step.under_lock [of is_newer_u32 "OpApply [Mod obj2]" ?c2 "[2]"]
    by (simp add: locked_mods del: One_nat_def)
  moreover have "share_step is_newer_u32 ?c3 ?c4"
    using share_step.publish [of 2 ?c3 is_newer_u32] by (simp add: store_change_def)
  moreover have "share_step is_newer_u32 ?c4 ?c5"
    using share_step.publish [of 1 ?c4 is_newer_u32] by (simp add: store_change_def)
  ultimately have "share_reach is_newer_u32 start_sharing ?c5"
    by (meson share_reach.here share_reach.there)
  moreover have "?r 2 = None" "contents ?m2 2 \<noteq> None"
    unfolding locked_mods snd_conv
    by (simp_all add: sync_changes_def sync_changes_with_filter_def Let_def apply_delta_def
        changes_since_with_filter_def listener_new_def obj1_def obj2_def contents_def set_epoch_def dual_new_def
        changed_since_full FULL_FILTER_def change_all_def changed_since_def del: One_nat_def)
  ultimately show thesis by (intro that [of ?c5]) auto
qed

text \<open>
  C21. Whatever the interleaving of writers, publications and syncs, the copy a
  listener assembles is never a mixture: it is the content the store had in one
  of the states the system went through, namely at the epoch of the listener.
  When that is the current epoch, it is the current content. A published epoch
  is never ahead of the store.
\<close>

theorem listener_copy_consistent:
  assumes "share_reach newer c d" "share_inv c" "in_step c"
  shows "(\<exists>mid. share_reach newer c mid \<and> share_reach newer mid d \<and>
            copy d = contents (store (shared mid)) \<and> last_change (listener d) = epoch (store (shared mid))) \<and>
         (last_change (listener d) = epoch (store (shared d)) \<longrightarrow> copy d = contents (store (shared d))) \<and>
         change (shared d) \<le> epoch (store (shared d))"
  using share_reach_inv [OF assms(1,2)] share_reach_copy [OF assms]
  by (auto simp: share_inv_def in_sync_def in_step_with_def)

theorem listener_copy_consistent_witness:
  "\<exists>mid d. share_reach is_newer_u32 start_sharing mid \<and> share_reach is_newer_u32 mid d \<and>
     copy d = contents (store (shared mid)) \<and> epoch (store (shared mid)) = 1 \<and> copy d \<noteq> contents (store (shared d))"
proof -
  obtain d where d: "share_reach is_newer_u32 start_sharing d" "last_change (listener d) = 1"
      "copy d \<noteq> contents (store (shared d))"
    by (rule overlapping_writers)
  have "in_step start_sharing"
    by (simp add: in_step_def in_step_with_def start_sharing_def fresh_store_def contents_def fun_eq_iff listener_new_def
        empty_store_def new_with_map_def)
  from listener_copy_consistent [OF d(1) start_sharing_inv this] d(2,3) show ?thesis by auto
qed

text \<open>
  C23. Two writers can hide a change from a listener. The first writer changes
  the store and drops the lock, the listener syncs, the second writer changes
  the store and publishes its epoch, and only then the first writer publishes
  the older one. No publication is outstanding and \<open>has_change\<close> is false,
  although the copy of the listener lacks the second change: a listener that
  goes to sleep now waits for the next change of the store.
\<close>

theorem lost_wakeup:
  "\<exists>d. share_reach is_newer_u32 start_sharing d \<and> pending d = [] \<and>
       \<not> has_change (shared d) (listener d) \<and> copy d \<noteq> contents (store (shared d))"
proof -
  obtain d where "share_reach is_newer_u32 start_sharing d" "pending d = []" "change (shared d) = 1"
      "last_change (listener d) = 1" "copy d \<noteq> contents (store (shared d))"
    by (rule overlapping_writers)
  then show ?thesis by (intro exI [of _ d]) (simp add: has_change_def)
qed

text \<open>With at most one writer between lock and publication the hole is closed.\<close>

inductive serial_reach ::
  "('c \<Rightarrow> 'c \<Rightarrow> bool) \<Rightarrow> ('s, 't, 'k, 'c) sharing \<Rightarrow> ('s, 't, 'k, 'c) sharing \<Rightarrow> bool" for newer where
  serial_here: "serial_reach newer c c"
| serial_there: "serial_reach newer c d \<Longrightarrow> share_step newer d e \<Longrightarrow> length (pending e) \<le> 1 \<Longrightarrow> serial_reach newer c e"

definition announced :: "('s, 't, 'k, 'c) sharing \<Rightarrow> bool" where
  "announced c = (pending c = [] \<and> change (shared c) = epoch (store (shared c)) \<or>
                  pending c = [epoch (store (shared c))])"

lemma locked_op_quiet: "locked_op newer op m = ([], m') \<Longrightarrow> m' = m"
proof (cases op)
  case (OpApply us)
  then show "locked_op newer op m = ([], m') \<Longrightarrow> m' = m"
    by (cases rule: apply_changes_cases [of newer us m]) (simp_all add: locked_op_def)
qed (simp add: locked_op_def case_prod_beta)

lemma share_step_announced:
  assumes "share_step newer c d" "share_inv c" "announced c" "length (pending d) \<le> 1"
  shows "announced d"
  using assms(1)
proof cases
  case (under_lock op es m')
  then show ?thesis
    using assms locked_op_quiet [of newer op] locked_op_epoch [OF _ under_lock(2)]
    by (cases es) (auto simp: announced_def share_inv_def)
qed (use assms in \<open>auto simp: announced_def store_change_def\<close>)

lemma serial_reach_announced:
  "serial_reach newer c d \<Longrightarrow> share_inv c \<Longrightarrow> announced c \<Longrightarrow> share_inv d \<and> announced d"
  by (induction rule: serial_reach.induct) (auto intro: share_step_inv share_step_announced)

text \<open>
  C22. When writers never overlap, no change is lost: if nothing is waiting to
  be published and the copy of a listener differs from the store, \<open>has_change\<close>
  is true, so \<open>listen\<close> returns at once.
\<close>

theorem serial_writers_wake_listener:
  assumes "serial_reach newer c d" "share_inv c" "announced c"
    and "pending d = []" "copy d \<noteq> contents (store (shared d))"
  shows "has_change (shared d) (listener d)"
  using serial_reach_announced [OF assms(1-3)] assms(4,5)
  by (auto simp: share_inv_def announced_def in_sync_def has_change_def)

theorem serial_writers_wake_listener_witness:
  "\<exists>d. serial_reach is_newer_u32 start_sharing d \<and> has_change (shared d) (listener d)"
proof -
  let ?m1 = "snd (locked_op is_newer_u32 (OpApply [Mod obj1]) empty_store)"
  let ?c1 = "\<lparr>shared = \<lparr>store = ?m1, change = 0\<rparr>, pending = [1], listener = listener_new, copy = Map.empty\<rparr>"
  let ?c2 = "\<lparr>shared = \<lparr>store = ?m1, change = 1\<rparr>, pending = [], listener = listener_new, copy = Map.empty\<rparr>"
  have "share_step is_newer_u32 start_sharing ?c1"
    using share_step.under_lock [of is_newer_u32 "OpApply [Mod obj1]" start_sharing "[1]"]
    by (simp add: start_sharing_def fresh_store_def locked_mods)
  moreover have "share_step is_newer_u32 ?c1 ?c2"
    using share_step.publish [of 1 ?c1 is_newer_u32] by (simp add: store_change_def)
  ultimately have "serial_reach is_newer_u32 start_sharing ?c2"
    by (intro serial_reach.serial_there [OF serial_reach.serial_there [OF serial_reach.serial_here]]) simp_all
  moreover have "announced start_sharing"
    by (simp add: announced_def start_sharing_def fresh_store_def empty_store_def new_with_map_def)
  moreover have "contents ?m1 1 \<noteq> None" by (simp add: locked_mods contents_def)
  then have "copy ?c2 \<noteq> contents (store (shared ?c2))" by (metis sharing.select_convs(1,4) LocalStore.select_convs(1))
  ultimately show ?thesis
    using serial_writers_wake_listener [OF _ start_sharing_inv, of is_newer_u32 ?c2] by auto
qed

section \<open>Clients of the watch service\<close>

text \<open>
  \<open>to_client\<close> is a server object as a client keeps it: the spec summarised on
  request, the context replaced by the default one.
\<close>

definition to_client ::
  "('s \<Rightarrow> 's) \<Rightarrow> 'd \<Rightarrow> ('s, 't, 'k, 'c) MetadataStoreObject \<Rightarrow> ('s, 't, 'k, 'd) MetadataStoreObject" where
  "to_client summ dctx obj = \<lparr>spec = summ (spec obj), status = status obj, key = key obj, ctx = dctx\<rparr>"

definition client_view ::
  "('s \<Rightarrow> 's) \<Rightarrow> 'd \<Rightarrow> ('k \<rightharpoonup> ('s, 't, 'k, 'c) MetadataStoreObject) \<Rightarrow> 'k \<rightharpoonup> ('s, 't, 'k, 'd) MetadataStoreObject" where
  "client_view summ dctx c = (\<lambda>k. map_option (to_client summ dctx) (c k))"

lemma map_of_to_client:
  "map_of (map (\<lambda>obj. (key obj, obj)) (map (to_client summ dctx) os)) =
   client_view summ dctx (map_of (map (\<lambda>obj. (key obj, obj)) os))"
  by (induction os) (auto simp: client_view_def to_client_def fun_eq_iff)

lemma fold_deletes: "fold (abs_apply newer) (map Delete ks) c = c |` (- set ks)"
  by (induction ks arbitrary: c) (auto simp: abs_apply_def restrict_map_def fun_eq_iff)

lemma fold_mods: "fold (abs_apply newer) (map Mod os) c = fold (abs_mod newer) os c"
  by (induction os arbitrary: c) (auto simp: abs_apply_def)

lemma convert_objects:
  assumes "\<And>k. parse (show k) = Some k"
  shows "convert_all (from_metadata parse dctx) (map (summary_md summ \<circ> to_metadata show) os) =
           Inr (map (to_client summ dctx) os)"
    "convert_all (message_update parse dctx)
       (map (\<lambda>u. (UPDATE, summary_md summ (to_metadata show u))) us @ map (\<lambda>d. (DELETE, to_metadata show d)) ds) =
     Inr (map Mod (map (to_client summ dctx) us) @ map Delete (map key ds))"
proof -
  show "convert_all (from_metadata parse dctx) (map (summary_md summ \<circ> to_metadata show) os) =
      Inr (map (to_client summ dctx) os)"
    by (induction os) (simp_all add: assms from_metadata_def to_metadata_def summary_md_def to_client_def)
  have "convert_all (message_update parse dctx) (map (\<lambda>d. (DELETE, to_metadata show d)) ds) =
      Inr (map Delete (map key ds))"
    by (induction ds) (simp_all add: assms from_metadata_def to_metadata_def message_update_def)
  then show "convert_all (message_update parse dctx)
       (map (\<lambda>u. (UPDATE, summary_md summ (to_metadata show u))) us @ map (\<lambda>d. (DELETE, to_metadata show d)) ds) =
     Inr (map Mod (map (to_client summ dctx) us) @ map Delete (map key ds))"
    by (induction us)
      (simp_all add: assms from_metadata_def to_metadata_def summary_md_def to_client_def message_update_def)
qed

lemma client_not_newer:
  assumes "contents cl = client_view summ dctx r" "\<not> newer dctx dctx"
  shows "\<forall>obj \<in> set (map (to_client summ dctx) os). \<forall>old. contents cl (key obj) = Some old \<longrightarrow> \<not> newer (ctx old) (ctx obj)"
  using assms by (auto simp: client_view_def to_client_def)

lemma client_full_sync:
  assumes "dm_wf key cl" "contents cl = client_view summ dctx r" "\<not> newer dctx dctx" "distinct (map key os)"
  shows "contents (snd (sync_all newer (map (to_client summ dctx) os) cl)) =
           client_view summ dctx (map_of (map (\<lambda>obj. (key obj, obj)) os))"
proof -
  have "distinct (map key (map (to_client summ dctx) os))" using assms(4) by (simp add: to_client_def comp_def)
  from fold_abs_mod_fresh [OF this client_not_newer [where newer = newer, OF assms(2,3)]] show ?thesis
    by (simp add: sync_all_contents [OF assms(1)] map_of_to_client del: map_map)
qed

lemma client_delta_contents:
  assumes "dm_wf key cl" "contents cl = client_view summ dctx r" "\<not> newer dctx dctx" "distinct (map key us)"
  shows "contents (snd (apply_changes newer (map Mod (map (to_client summ dctx) us) @ map Delete (map key ds)) cl)) =
           (client_view summ dctx r ++ client_view summ dctx (map_of (map (\<lambda>obj. (key obj, obj)) us))) |` (- key ` set ds)"
proof -
  have "distinct (map key (map (to_client summ dctx) us))" using assms(4) by (simp add: to_client_def comp_def)
  from fold_abs_mod_add [OF this client_not_newer [where newer = newer, OF assms(2,3)]] show ?thesis
    by (simp add: apply_changes_contents [OF assms(1)] fold_mods fold_deletes map_of_to_client assms(2) del: map_map)
qed

lemma client_delta:
  assumes "dm_wf key cl" "contents cl = client_view summ dctx r" "\<not> newer dctx dctx" "distinct (map key us)"
    and "\<forall>d \<in> set ds. apply_delta key (Changes us ds) r (key d) = None"
  shows "contents (snd (apply_changes newer (map Mod (map (to_client summ dctx) us) @ map Delete (map key ds)) cl)) =
           client_view summ dctx (apply_delta key (Changes us ds) r)"
  unfolding client_delta_contents [where newer = newer, OF assms(1-4)] using assms(5)
  by (auto simp: fun_eq_iff restrict_map_def client_view_def map_add_def apply_delta_def split: option.splits)

lemma distinct_parts:
  assumes "dm_wf key m"
  shows "distinct (map key (fst (parts (changes_since seen m))))"
proof -
  have "\<exists>P. fst (parts (changes_since seen m)) = map inner (filter P (map snd (vals m)))"
    by (auto simp: parts_def changes_since_def changes_since_with_filter_def clone_values_def empty_changes_def
        intro: exI [of _ "\<lambda>_. True"] exI [of _ "\<lambda>_. False"])
  then show ?thesis using distinct_keys [OF assms] by auto
qed

text \<open>
  C24. A client cache follows the server. Let a client hold the view of the
  contents a listener knew, and let the watch service send what changed since.
  Applying the message brings the client to the view of the current contents,
  provided the names of keys parse back, the message does not delete a key
  that is present again, and a full sync is not empty.
\<close>

theorem watch_client_converges:
  fixes m :: "('s, 't, 'k, 'c) object_map" and cl :: "('s, 't, 'k, 'd) object_map"
  assumes "dm_wf key m" "in_sync key seen r m"
    and "dm_wf key cl" "contents cl = client_view summ dctx r" "\<not> newer dctx dctx"
    and "\<And>k. parse (show k) = Some k"
    and "\<forall>d \<in> set (snd (parts (changes_since seen m))). contents m (key d) = None"
    and "is_sync_all (changes_since seen m) \<longrightarrow> contents m \<noteq> Map.empty"
  shows "contents (snd (sync_metadata parse dctx newer (watch_update show summ (changes_since seen m)) cl)) =
           client_view summ dctx (contents m)"
proof -
  let ?ch = "changes_since seen m"
  have cu: "apply_delta key (changes ?ch) r = contents m" by (rule catch_up [OF assms(2,1)])
  have dist: "distinct (map key (fst (parts ?ch)))" by (rule distinct_parts [OF assms(1)])
  show ?thesis
  proof (cases "changes ?ch")
    case (SyncAll os)
    then have "contents m = map_of (map (\<lambda>obj. (key obj, obj)) os)" "os \<noteq> []"
      using cu assms(8) by (auto simp: apply_delta_def is_sync_all_def)
    then show ?thesis
      using SyncAll dist client_full_sync [where newer = newer and os = os, OF assms(3-5)]
      by (simp add: sync_metadata_def watch_update_def is_sync_all_def parts_def convert_objects(1) [OF assms(6)])
  next
    case (Changes us ds)
    have "\<forall>d \<in> set ds. apply_delta key (Changes us ds) r (key d) = None"
      using assms(7) cu Changes by (simp add: parts_def)
    then have "contents (snd (apply_changes newer (map Mod (map (to_client summ dctx) us) @ map Delete (map key ds)) cl)) =
        client_view summ dctx (contents m)"
      using client_delta [where newer = newer and us = us and ds = ds, OF assms(3-5)] dist Changes cu by (simp add: parts_def)
    moreover have "contents m = r" if "us = []" "ds = []"
      using that cu Changes by (simp add: apply_delta_def)
    ultimately show ?thesis
      using Changes assms(4)
      by (auto simp: sync_metadata_def watch_update_def is_sync_all_def parts_def convert_objects(2) [OF assms(6)])
  qed
qed

definition unary_name :: "nat \<Rightarrow> string" where
  "unary_name k = replicate k CHR ''x''"

definition parse_unary :: "string \<Rightarrow> nat option" where
  "parse_unary s = Some (length s)"

lemma parse_unary_name: "parse_unary (unary_name k) = Some k"
  by (simp add: parse_unary_def unary_name_def)

theorem watch_client_converges_witness:
  "contents (snd (sync_metadata parse_unary 0 is_newer_u32
       (watch_update unary_name id (changes_since 0 (snd (apply_changes is_newer_u32 [Mod obj1] empty_store)))) empty_store)) =
   [1 \<mapsto> to_client id 0 obj1]"
proof -
  let ?m = "snd (apply_changes is_newer_u32 [Mod obj1] empty_store)"
  have m: "?m = \<lparr>epoch = 1, fence = 0, vals = [(1, set_epoch 1 (dual_new obj1))], deleted = []\<rparr>"
    using locked_mods(1) by (simp add: locked_op_def split: prod.splits option.splits)
  have "in_sync key 0 Map.empty empty_store"
    using in_sync_self [OF empty_store_wf] by (simp add: empty_store_contents) (simp add: empty_store_def new_with_map_def)
  note wf = apply_changes_in_sync [OF empty_store_wf this, of is_newer_u32 "[Mod obj1]"]
  have c: "contents ?m = [1 \<mapsto> obj1]"
    by (simp add: m contents_def fun_eq_iff set_epoch_def dual_new_def)
  have "contents empty_store = client_view id 0 Map.empty"
    by (simp add: empty_store_contents client_view_def)
  note conv = watch_client_converges [OF conjunct1 [OF wf] conjunct2 [OF wf] empty_store_wf this _ parse_unary_name,
      of is_newer_u32]
  have "snd (parts (changes_since 0 ?m)) = []"
    by (simp add: m parts_def changes_since_def changes_since_with_filter_def)
  then show ?thesis
    using conv by (auto simp: c client_view_def is_newer_u32_def fun_eq_iff)
qed

text \<open>
  The proviso on deleted keys is needed: the message lists the updates
  before the deletions and the client applies them in that order. An object
  that is deleted and created again between two syncs is present on the
  server and absent on the client, until it changes again.
\<close>

theorem recreated_object_vanishes:
  fixes m :: "('s, 't, 'k, 'c) object_map" and cl :: "('s, 't, 'k, 'd) object_map"
  assumes m'_def: "m' = snd (apply_changes newer' [Delete (key obj), Mod obj] m)"
    and "dm_wf key m" "contents m (key obj) = Some old"
    and "dm_wf key cl" "contents cl = client_view summ dctx (contents m)" "\<not> newer dctx dctx"
    and "\<And>k. parse (show k) = Some k"
  shows "contents m' (key obj) = Some obj \<and>
         contents (snd (sync_metadata parse dctx newer
           (watch_update show summ (changes_since (epoch m) m')) cl)) (key obj) = None"
proof -
  obtain c where c: "map_of (vals m) (key obj) = Some c" "inner c = old"
    using assms(3) by (auto simp: contents_def)
  have present: "contents m' (key obj) = Some obj"
    by (simp add: m'_def apply_changes_contents [OF assms(2)] abs_apply_def abs_mod_def)
  have wf: "dm_wf key m'"
    using apply_changes_in_sync [OF assms(2) in_sync_self [OF assms(2)]] by (simp add: m'_def)
  have m: "m' = snd (update (obj_diff newer') (key obj) obj (snd (remove (key obj) (increment_epoch m))))"
    by (auto simp: m'_def apply_changes_def case_prod_beta count_diff_def zero_status_def split: option.splits)
  have fence: "fence m \<le> epoch m" using assms(2) by (simp add: dm_wf_def)
  have del: "set_epoch (epoch m + 1) c \<in> set (deleted m')"
    using c by (simp add: m remove_def increment_epoch_def Let_def)
  have em: "epoch m' = epoch m + 1" "fence m' = fence m" by (simp_all add: m)
  obtain us ds where ch: "changes (changes_since (epoch m) m') = Changes us ds" "old \<in> set ds"
    using del em fence c
    by (force simp: changes_since_def changes_since_with_filter_def changed_since_full set_epoch_def image_iff
        intro: bexI [of _ "set_epoch (epoch m + 1) c"])
  have "key old = key obj" using dm_wf_lookup [OF assms(2) c(1)] c(2) by simp
  then have "key obj \<in> key ` set ds" "ds \<noteq> []" using ch(2) imageI [of old "set ds" key] by auto
  moreover have "distinct (map key us)"
    using distinct_parts [OF wf, of "epoch m"] ch(1) by (simp add: parts_def)
  ultimately show ?thesis
    using present ch(1) client_delta_contents [where newer = newer and us = us and ds = ds, OF assms(4-6)]
    by (simp add: sync_metadata_def watch_update_def is_sync_all_def parts_def convert_objects(2) [OF assms(7)])
qed

theorem recreated_object_vanishes_witness:
  "contents (snd (sync_metadata parse_unary 0 is_newer_u32 (watch_update unary_name id
       (changes_since 1 (snd (apply_changes is_newer_u32 [Delete (key obj1), Mod obj1]
         (snd (apply_changes is_newer_u32 [Mod obj1] empty_store))))))
       (snd (apply_changes is_newer_u32 [Mod (to_client id 0 obj1)] empty_store)))) 1 = None"
proof -
  let ?m = "snd (apply_changes is_newer_u32 [Mod obj1] empty_store)"
  let ?cl = "snd (apply_changes is_newer_u32 [Mod (to_client id 0 obj1)] empty_store)"
  have c: "contents ?m = [1 \<mapsto> obj1]" "contents ?cl = [1 \<mapsto> to_client id 0 obj1]"
    by (simp_all add: apply_changes_contents [OF empty_store_wf] abs_apply_def abs_mod_def empty_store_contents
        to_client_def obj1_def)
  have wf: "dm_wf key ?m" "dm_wf key ?cl"
    using apply_changes_in_sync [OF empty_store_wf in_sync_self [OF empty_store_wf]] by simp_all
  have e: "epoch ?m = 1"
    using locked_mods(1) by (simp add: locked_op_def split: prod.splits option.splits)
  have "contents ?cl = client_view id 0 (contents ?m)"
    by (simp add: c client_view_def fun_eq_iff)
  moreover have "key obj1 = 1" by (simp add: obj1_def)
  then have "contents ?m (key obj1) = Some obj1" by (simp add: c)
  ultimately show ?thesis
    using recreated_object_vanishes [OF refl wf(1) _ wf(2), of obj1 obj1 id 0 is_newer_u32 parse_unary unary_name is_newer_u32]
    by (simp add: e parse_unary_name is_newer_u32_def \<open>key obj1 = 1\<close>)
qed

end
