(* ===== verification/Wire_Codec.thy ===== *)
theory Wire_Codec
  imports Fluvio_Prelude "HOL-Library.List_Lexorder"
begin

text \<open>
  The wire protocol core: \<open>fluvio-protocol/src/core/encoder.rs\<close> and
  \<open>decoder.rs\<close>, with the code the \<open>Encoder\<close> and \<open>Decoder\<close> derive macros
  generate for the fields of a struct (\<open>fluvio-protocol-derive\<close>).

  A trait implementation is a dictionary: \<open>enc_u16\<close> is \<open>impl Encoder for u16\<close>,
  \<open>enc_vec E\<close> is \<open>impl<M: Encoder> Encoder for Vec<M>\<close> where \<open>E\<close> is the
  implementation of \<open>M\<close>. The generic buffer parameters of the two traits are
  instantiated by the observable state of the buffer: a source (\<open>T: Buf\<close>) is the list of its
  remaining bytes and a destination (\<open>T: BufMut\<close>) holds what has been written
  and how many bytes still fit. Encoders and decoders keep what they have
  written or stored when they fail, as the \<open>?\<close> operator leaves it.
\<close>

section \<open>Buffers\<close>

record sink =
  written :: bytes
  room :: nat

abbreviation remaining_mut :: "sink \<Rightarrow> nat" where
  "remaining_mut d \<equiv> room d"

definition put_slice :: "bytes \<Rightarrow> sink \<Rightarrow> sink" where
  "put_slice bs d = d\<lparr>written := written d @ bs, room := room d - length bs\<rparr>"

text \<open>
  A growable \<open>Vec<u8>\<close> destination: its \<open>remaining_mut\<close> is \<open>isize::MAX\<close> minus its length.
\<close>

definition vec_sink :: sink where
  "vec_sink = \<lparr>written = [], room = 2 ^ 63 - 1\<rparr>"

datatype eres = EOk sink | EErr fault sink

primrec ebind :: "eres \<Rightarrow> (sink \<Rightarrow> eres) \<Rightarrow> eres" where
  "ebind (EOk d) f = f d"
| "ebind (EErr e d) f = EErr e d"

datatype 'a dres = DOk 'a bytes | DErr fault 'a bytes

section \<open>The two traits\<close>

text \<open>
  \<open>write_size\<close> is an option: \<^term>\<open>None\<close> is a size computation that does not
  return (the loop of \<open>variant_size\<close> can run forever).
\<close>

record 'a encoder =
  write_size :: "'a \<Rightarrow> nat option"
  encode :: "'a \<Rightarrow> sink \<Rightarrow> eres"

record 'a decoder =
  initial :: 'a
  decode :: "'a \<Rightarrow> bytes \<Rightarrow> 'a dres"

definition add_size :: "nat option \<Rightarrow> nat option \<Rightarrow> nat option" where
  "add_size a b = do { x \<leftarrow> a; y \<leftarrow> b; Some (x + y) }"

text \<open>\<open>Encoder::as_bytes\<close> and \<open>Decoder::decode_from\<close>, the provided methods.\<close>

definition as_bytes :: "'a encoder \<Rightarrow> 'a \<Rightarrow> (fault + bytes) option" where
  "as_bytes E v = do {
     len \<leftarrow> write_size E v;
     Some (if len \<ge> 2 ^ 63 then Inl Panic else
             (case encode E v vec_sink of
                EErr e d \<Rightarrow> Inl e
              | EOk d \<Rightarrow> Inr (written d))) }"

definition decode_from :: "'a decoder \<Rightarrow> bytes \<Rightarrow> (fault + 'a) \<times> bytes" where
  "decode_from D src =
     (case decode D (initial D) src of
        DOk v r \<Rightarrow> (Inr v, r)
      | DErr e v r \<Rightarrow> (Inl e, r))"

section \<open>Integers, floats and booleans\<close>

text \<open>
  The sixteen implementations for fixed-width numbers have one body each,
  up to the width: a guard on the room (or on the remaining bytes) and one
  big-endian put (or get). Floats travel as their bit patterns.
\<close>

definition enc_fixed :: "nat \<Rightarrow> 'a::len word encoder" where
  "enc_fixed n = \<lparr>
     write_size = (\<lambda>_. Some n),
     encode = (\<lambda>v d. if remaining_mut d < n then EErr (IoErr UnexpectedEof) d
                     else EOk (put_slice (be_bytes n v) d))\<rparr>"

definition dec_fixed :: "nat \<Rightarrow> 'a::len word decoder" where
  "dec_fixed n = \<lparr>
     initial = 0,
     decode = (\<lambda>self src. if length src < n then DErr (IoErr UnexpectedEof) self src
                          else DOk (be_word (take n src)) (drop n src))\<rparr>"

definition enc_i8 :: "i8 encoder" where "enc_i8 = enc_fixed 1"
definition enc_u8 :: "u8 encoder" where "enc_u8 = enc_fixed 1"
definition enc_i16 :: "i16 encoder" where "enc_i16 = enc_fixed 2"
definition enc_u16 :: "u16 encoder" where "enc_u16 = enc_fixed 2"
definition enc_i32 :: "i32 encoder" where "enc_i32 = enc_fixed 4"
definition enc_u32 :: "u32 encoder" where "enc_u32 = enc_fixed 4"
definition enc_f32 :: "32 word encoder" where "enc_f32 = enc_fixed 4"
definition enc_u64 :: "u64 encoder" where "enc_u64 = enc_fixed 8"
definition enc_i64 :: "i64 encoder" where "enc_i64 = enc_fixed 8"
definition enc_f64 :: "64 word encoder" where "enc_f64 = enc_fixed 8"

definition dec_i8 :: "i8 decoder" where "dec_i8 = dec_fixed 1"
definition dec_u8 :: "u8 decoder" where "dec_u8 = dec_fixed 1"
definition dec_i16 :: "i16 decoder" where "dec_i16 = dec_fixed 2"
definition dec_u16 :: "u16 decoder" where "dec_u16 = dec_fixed 2"
definition dec_i32 :: "i32 decoder" where "dec_i32 = dec_fixed 4"
definition dec_u32 :: "u32 decoder" where "dec_u32 = dec_fixed 4"
definition dec_f32 :: "32 word decoder" where "dec_f32 = dec_fixed 4"
definition dec_u64 :: "u64 decoder" where "dec_u64 = dec_fixed 8"
definition dec_i64 :: "i64 decoder" where "dec_i64 = dec_fixed 8"
definition dec_f64 :: "64 word decoder" where "dec_f64 = dec_fixed 8"

lemmas enc_int_defs [codec_defs] =
  enc_i8_def enc_u8_def enc_i16_def enc_u16_def enc_i32_def enc_u32_def enc_f32_def
  enc_u64_def enc_i64_def enc_f64_def

lemmas dec_int_defs [codec_defs] =
  dec_i8_def dec_u8_def dec_i16_def dec_u16_def dec_i32_def dec_u32_def dec_f32_def
  dec_u64_def dec_i64_def dec_f64_def

definition enc_bool :: "bool encoder" where
  "enc_bool = \<lparr>
     write_size = (\<lambda>_. Some 1),
     encode = (\<lambda>v d. if remaining_mut d < 1 then EErr (IoErr UnexpectedEof) d
                     else if v then EOk (put_slice [1] d) else EOk (put_slice [0] d))\<rparr>"

definition dec_bool :: "bool decoder" where
  "dec_bool = \<lparr>
     initial = False,
     decode = (\<lambda>self src. case src of
         [] \<Rightarrow> DErr (IoErr UnexpectedEof) self src
       | value # r \<Rightarrow>
           if value = 0 then DOk False r
           else if value = 1 then DOk True r
           else DErr (IoErr InvalidData) self r)\<rparr>"

section \<open>Option, Vec, PhantomData, BTreeMap\<close>

definition enc_option :: "'a encoder \<Rightarrow> 'a option encoder" where
  "enc_option E = \<lparr>
     write_size = (\<lambda>v. case v of
         Some x \<Rightarrow> add_size (write_size enc_bool True) (write_size E x)
       | None \<Rightarrow> write_size enc_bool False),
     encode = (\<lambda>v d. case v of
         Some x \<Rightarrow> ebind (encode enc_bool True d) (encode E x)
       | None \<Rightarrow> encode enc_bool False d)\<rparr>"

definition dec_option :: "'a decoder \<Rightarrow> 'a option decoder" where
  "dec_option D = \<lparr>
     initial = None,
     decode = (\<lambda>self src. case decode dec_bool False src of
         DErr e _ r \<Rightarrow> DErr e self r
       | DOk some r \<Rightarrow>
           if some then (case decode D (initial D) r of
               DErr e _ r' \<Rightarrow> DErr e self r'
             | DOk value r' \<Rightarrow> DOk (Some value) r')
           else DOk None r)\<rparr>"

fun encode_all :: "'a encoder \<Rightarrow> 'a list \<Rightarrow> sink \<Rightarrow> eres" where
  "encode_all E [] d = EOk d"
| "encode_all E (v # vs) d = ebind (encode E v d) (encode_all E vs)"

definition enc_vec :: "'a encoder \<Rightarrow> 'a list encoder" where
  "enc_vec E = \<lparr>
     write_size = (\<lambda>vs. foldl (\<lambda>sum val. add_size sum (write_size E val)) (Some 4) vs),
     encode = (\<lambda>vs d. if remaining_mut d < 4 then EErr (IoErr UnexpectedEof) d
                      else encode_all E vs
                             (put_slice (be_bytes 4 (word_of_nat (length vs) :: u32)) d))\<rparr>"

fun decode_vec :: "'a decoder \<Rightarrow> nat \<Rightarrow> 'a list \<Rightarrow> bytes \<Rightarrow> 'a list dres" where
  "decode_vec D 0 item src = DOk item src"
| "decode_vec D (Suc n) item src =
     (case decode D (initial D) src of
        DErr e _ r \<Rightarrow> DErr e item r
      | DOk value r \<Rightarrow> decode_vec D n (item @ [value]) r)"

definition dec_vec :: "'a decoder \<Rightarrow> 'a list decoder" where
  "dec_vec D = \<lparr>
     initial = [],
     decode = (\<lambda>self src. case decode dec_i32 0 src of
         DErr e _ r \<Rightarrow> DErr e self r
       | DOk len r \<Rightarrow>
           if sint len < 1 then DOk self r
           else decode_vec D (nat (sint len)) self r)\<rparr>"

definition enc_phantom :: "unit encoder" where
  "enc_phantom = \<lparr>write_size = (\<lambda>_. Some 0), encode = (\<lambda>_ d. EOk d)\<rparr>"

definition dec_phantom :: "unit decoder" where
  "dec_phantom = \<lparr>initial = (), decode = (\<lambda>self src. DOk self src)\<rparr>"

fun encode_entries :: "'k encoder \<Rightarrow> 'v encoder \<Rightarrow> ('k \<times> 'v) list \<Rightarrow> sink \<Rightarrow> eres" where
  "encode_entries K V [] d = EOk d"
| "encode_entries K V ((k, v) # m) d =
     ebind (ebind (encode K k d) (encode V v)) (encode_entries K V m)"

definition enc_btree :: "'k encoder \<Rightarrow> 'v encoder \<Rightarrow> ('k \<times> 'v) list encoder" where
  "enc_btree K V = \<lparr>
     write_size = (\<lambda>m. foldl (\<lambda>len e. add_size (add_size len (write_size K (fst e)))
                                               (write_size V (snd e)))
                             (write_size enc_u16 0) m),
     encode = (\<lambda>m d. ebind (encode enc_u16 (word_of_nat (length m)) d)
                           (encode_entries K V m))\<rparr>"

fun decode_entries ::
  "'k::linorder decoder \<Rightarrow> 'v decoder \<Rightarrow> nat \<Rightarrow> ('k \<times> 'v) list \<Rightarrow> bytes
    \<Rightarrow> ('k \<times> 'v) list dres" where
  "decode_entries K V 0 m src = DOk m src"
| "decode_entries K V (Suc n) m src =
     (case decode K (initial K) src of
        DErr e _ r \<Rightarrow> DErr e m r
      | DOk k r \<Rightarrow> (case decode V (initial V) r of
          DErr e _ r' \<Rightarrow> DErr e m r'
        | DOk v r' \<Rightarrow> decode_entries K V n (bt_insert k v m) r'))"

definition dec_btree :: "'k::linorder decoder \<Rightarrow> 'v decoder \<Rightarrow> ('k \<times> 'v) list decoder" where
  "dec_btree K V = \<lparr>
     initial = [],
     decode = (\<lambda>self src. case decode dec_u16 0 src of
         DErr e _ r \<Rightarrow> DErr e self r
       | DOk len r \<Rightarrow> (case decode_entries K V (unat len) [] r of
           DErr e _ r' \<Rightarrow> DErr e self r'
         | DOk m r' \<Rightarrow> DOk m r'))\<rparr>"

section \<open>Duration and String\<close>

text \<open>
  \<open>std::time::Duration\<close>: whole seconds and fewer than \<open>10\<^sup>9\<close> nanoseconds;
  \<open>Duration::new\<close> carries excess nanoseconds into the seconds and panics
  when the seconds overflow.
\<close>

record duration =
  as_secs :: u64
  subsec_nanos :: u32

definition duration_new :: "u64 \<Rightarrow> u32 \<Rightarrow> duration option" where
  "duration_new secs nanos =
     (let carry = unat nanos div 1000000000
      in if unat secs + carry \<ge> 2 ^ 64 then None
         else Some \<lparr>as_secs = secs + word_of_nat carry,
                    subsec_nanos = word_of_nat (unat nanos mod 1000000000)\<rparr>)"

definition enc_duration :: "duration encoder" where
  "enc_duration = \<lparr>
     write_size = (\<lambda>_. Some 12),
     encode = (\<lambda>v d. if remaining_mut d < 12 then EErr (IoErr UnexpectedEof) d
                     else EOk (put_slice (be_bytes 4 (subsec_nanos v))
                                 (put_slice (be_bytes 8 (as_secs v)) d)))\<rparr>"

definition dec_duration :: "duration decoder" where
  "dec_duration = \<lparr>
     initial = \<lparr>as_secs = 0, subsec_nanos = 0\<rparr>,
     decode = (\<lambda>self src.
       if length src < 12 then DErr (IoErr UnexpectedEof) self src
       else (let secs = be_word (take 8 src); nanos = be_word (take 4 (drop 8 src)); r = drop 12 src
             in case duration_new secs nanos of
                  None \<Rightarrow> DErr Panic self r
                | Some v \<Rightarrow> DOk v r))\<rparr>"

text \<open>
  A \<open>String\<close> is its UTF-8 bytes. \<open>valid_utf8\<close> is the well-formedness
  \<open>read_to_string\<close> checks: shortest form, no surrogates, at most U+10FFFF.
\<close>

definition utf8_cont :: "u8 \<Rightarrow> bool" where
  "utf8_cont b = (0x80 \<le> b \<and> b \<le> 0xBF)"

fun valid_utf8 :: "bytes \<Rightarrow> bool" where
  "valid_utf8 [] = True"
| "valid_utf8 (a # s) =
     (if a \<le> 0x7F then valid_utf8 s
      else case s of
        [] \<Rightarrow> False
      | b # s2 \<Rightarrow>
          if 0xC2 \<le> a \<and> a \<le> 0xDF then utf8_cont b \<and> valid_utf8 s2
          else (case s2 of
            [] \<Rightarrow> False
          | c # s3 \<Rightarrow>
              if 0xE0 \<le> a \<and> a \<le> 0xEF
              then utf8_cont b \<and> utf8_cont c \<and> (a = 0xE0 \<longrightarrow> 0xA0 \<le> b) \<and>
                   (a = 0xED \<longrightarrow> b \<le> 0x9F) \<and> valid_utf8 s3
              else (case s3 of
                [] \<Rightarrow> False
              | e # s4 \<Rightarrow>
                  0xF0 \<le> a \<and> a \<le> 0xF4 \<and> utf8_cont b \<and> utf8_cont c \<and> utf8_cont e \<and>
                  (a = 0xF0 \<longrightarrow> 0x90 \<le> b) \<and> (a = 0xF4 \<longrightarrow> b \<le> 0x8F) \<and> valid_utf8 s4)))"

definition enc_string :: "bytes encoder" where
  "enc_string = \<lparr>
     write_size = (\<lambda>s. Some (2 + length s)),
     encode = (\<lambda>s d.
       if remaining_mut d < 2 + length s then EErr (IoErr UnexpectedEof) d
       else (let d1 = put_slice (be_bytes 2 (word_of_nat (length s) :: u16)) d;
                 bytes_written = min (remaining_mut d1) (length s);
                 d2 = put_slice (take bytes_written s) d1
             in if bytes_written \<noteq> length s then EErr (IoErr UnexpectedEof) d2 else EOk d2))\<rparr>"

definition decode_string :: "i16 \<Rightarrow> bytes \<Rightarrow> bytes dres" where
  "decode_string len src =
     (let n = nat (sint len); value = take n src; r = drop n src
      in if \<not> valid_utf8 value then DErr (IoErr InvalidData) [] r
         else if length value \<noteq> n then DErr (IoErr UnexpectedEof) [] r
         else DOk value r)"

definition dec_string :: "bytes decoder" where
  "dec_string = \<lparr>
     initial = [],
     decode = (\<lambda>self src.
       if length src < 2 then DErr (IoErr UnexpectedEof) self src
       else (let len = be_word (take 2 src) :: i16; r = drop 2 src
             in if sint len \<le> 0 then DOk self r
                else (case decode_string len r of
                        DErr e _ r' \<Rightarrow> DErr e self r'
                      | DOk value r' \<Rightarrow> DOk value r')))\<rparr>"

section \<open>Derived struct implementations\<close>

text \<open>
  \<open>#[derive(Encoder, Decoder)]\<close> on a struct visits the fields in order.
  \<open>field_enc get E\<close> and \<open>field_dec get upd D\<close> are the statements generated
  for one field, \<open>version_check\<close> the test on the field's \<open>min_version\<close> and
  \<open>max_version\<close> attributes that guards them,
  and \<open>struct_enc\<close>, \<open>struct_dec\<close> the bodies of the three methods.
\<close>

type_synonym 's step = "'s \<Rightarrow> bytes \<Rightarrow> 's dres"

definition field_enc :: "('s \<Rightarrow> 'a) \<Rightarrow> 'a encoder \<Rightarrow> 's encoder" where
  "field_enc get E = \<lparr>write_size = (\<lambda>s. write_size E (get s)), encode = (\<lambda>s. encode E (get s))\<rparr>"

definition skip_enc :: "'s encoder" where
  "skip_enc = \<lparr>write_size = (\<lambda>_. Some 0), encode = (\<lambda>_ d. EOk d)\<rparr>"

definition version_check :: "int \<Rightarrow> int option \<Rightarrow> i16 \<Rightarrow> bool" where
  "version_check lo hi version =
     (case hi of
        Some m \<Rightarrow> lo \<le> sint version \<and> sint version \<le> m
      | None \<Rightarrow> sint version \<ge> lo)"

definition versioned_enc :: "int \<Rightarrow> int option \<Rightarrow> i16 \<Rightarrow> 's encoder \<Rightarrow> 's encoder" where
  "versioned_enc lo hi version E = (if version_check lo hi version then E else skip_enc)"

definition versioned_dec :: "int \<Rightarrow> int option \<Rightarrow> i16 \<Rightarrow> 's step \<Rightarrow> 's step" where
  "versioned_dec lo hi version f = (if version_check lo hi version then f else DOk)"

fun encode_fields :: "'s encoder list \<Rightarrow> 's \<Rightarrow> sink \<Rightarrow> eres" where
  "encode_fields [] s d = EOk d"
| "encode_fields (F # Fs) s d = ebind (encode F s d) (encode_fields Fs s)"

definition struct_enc :: "'s encoder list \<Rightarrow> 's encoder" where
  "struct_enc Fs = \<lparr>
     write_size = (\<lambda>s. foldl (\<lambda>len F. add_size len (write_size F s)) (Some 0) Fs),
     encode = encode_fields Fs\<rparr>"

definition field_dec :: "('s \<Rightarrow> 'a) \<Rightarrow> ('a \<Rightarrow> 's \<Rightarrow> 's) \<Rightarrow> 'a decoder \<Rightarrow> 's step" where
  "field_dec get upd D s src =
     (case decode D (get s) src of
        DOk a r \<Rightarrow> DOk (upd a s) r
      | DErr e a r \<Rightarrow> DErr e (upd a s) r)"

fun decode_fields :: "'s step list \<Rightarrow> 's step" where
  "decode_fields [] s src = DOk s src"
| "decode_fields (f # fs) s src =
     (case f s src of
        DOk s' r \<Rightarrow> decode_fields fs s' r
      | DErr e s' r \<Rightarrow> DErr e s' r)"

definition struct_dec :: "'s \<Rightarrow> 's step list \<Rightarrow> 's decoder" where
  "struct_dec s0 fs = \<lparr>initial = s0, decode = decode_fields fs\<rparr>"

section \<open>The contract of an encoder and its decoder\<close>

text \<open>
  \<open>wire\<close> is the wire format of a type as a function from values to byte
  strings and \<open>ok\<close> delimits the values it can carry. An encoder that fulfils
  the contract announces exactly the size it writes, writes the wire format
  when it fits, fails otherwise; the decoder takes exactly the wire format
  off the front of the source and returns the value.
\<close>

locale codec =
  fixes E :: "'a encoder" and D :: "'a decoder"
    and wire :: "'a \<Rightarrow> bytes" and ok :: "'a \<Rightarrow> bool"
  assumes size_law: "ok v \<Longrightarrow> write_size E v = Some (length (wire v))"
    and encode_law: "ok v \<Longrightarrow> length (wire v) \<le> room d \<Longrightarrow> encode E v d = EOk (put_slice (wire v) d)"
    and full_law: "ok v \<Longrightarrow> room d < length (wire v) \<Longrightarrow> \<exists>e d'. encode E v d = EErr e d'"
    and decode_law: "ok v \<Longrightarrow> decode D (initial D) (wire v @ r) = DOk v r"
begin

lemma as_bytes_wire:
  assumes "ok v" "length (wire v) < 2 ^ 63"
  shows "as_bytes E v = Some (Inr (wire v))"
proof -
  have "length (wire v) \<le> room vec_sink"
    using assms(2) by (simp add: vec_sink_def)
  then have "encode E v vec_sink = EOk (put_slice (wire v) vec_sink)"
    using assms(1) by (rule encode_law [rotated])
  moreover have "written (put_slice (wire v) vec_sink) = wire v"
    by (simp add: put_slice_def vec_sink_def)
  ultimately show ?thesis
    using assms by (simp add: as_bytes_def size_law)
qed

lemma decode_from_wire: "ok v \<Longrightarrow> decode_from D (wire v @ r) = (Inr v, r)"
  by (simp add: decode_from_def decode_law)

lemma decode_from_as_bytes:
  assumes "ok v" "length (wire v) < 2 ^ 63"
  shows "\<exists>bs. as_bytes E v = Some (Inr bs) \<and> write_size E v = Some (length bs) \<and>
              decode_from D (bs @ r) = (Inr v, r)"
  using assms by (simp add: as_bytes_wire decode_from_wire size_law)

text \<open>The wire format is prefix free: no two streams of values look alike.\<close>

lemma wire_unique:
  assumes "ok v" "ok w" "wire v @ r = wire w @ s"
  shows "v = w \<and> r = s"
proof -
  have "DOk v r = decode D (initial D) (wire v @ r)"
    using assms(1) by (simp only: decode_law)
  also have "\<dots> = DOk w s"
    using assms(2) by (simp only: assms(3) decode_law)
  finally show ?thesis by simp
qed

lemma encode_ok_iff: "ok v \<Longrightarrow> (\<exists>d'. encode E v d = EOk d') \<longleftrightarrow> length (wire v) \<le> room d"
  using encode_law [of v d] full_law [of v d]
  by (cases "length (wire v) \<le> room d") auto

end

text \<open>
  A strict codec also rejects every truncated encoding: decoding a proper
  prefix of a wire format is an error value, neither a value nor a panic.
\<close>

locale strict_codec = codec +
  assumes short_law:
    "ok v \<Longrightarrow> n < length (wire v) \<Longrightarrow> \<exists>k s r. decode D (initial D) (take n (wire v)) = DErr (IoErr k) s r"
begin

lemma truncated_rejected:
  assumes "ok v" "length (wire v) < 2 ^ 63" "as_bytes E v = Some (Inr bs)" "n < length bs"
  shows "\<exists>k r. decode_from D (take n bs) = (Inl (IoErr k), r)"
  using assms short_law [of v n] by (auto simp: as_bytes_wire decode_from_def)

end

section \<open>Primitive types fulfil the contract\<close>

lemma put_slice_append [simp]: "put_slice ys (put_slice xs d) = put_slice (xs @ ys) d"
  by (simp add: put_slice_def)

lemma put_slice_Nil [simp]: "put_slice [] d = d"
  by (simp add: put_slice_def)

lemma room_put_slice [simp]: "room (put_slice xs d) = room d - length xs"
  by (simp add: put_slice_def)

lemma written_put_slice [simp]: "written (put_slice xs d) = written d @ xs"
  by (simp add: put_slice_def)

lemma add_size_Some [simp]: "add_size (Some a) (Some b) = Some (a + b)"
  by (simp add: add_size_def)

lemma add_size_None [simp]: "add_size None b = None" "add_size a None = None"
  by (cases a; simp add: add_size_def)+

lemma strict_codec_fixed:
  assumes "LENGTH('a::len) = 8 * n"
  shows "strict_codec (enc_fixed n) (dec_fixed n :: 'a word decoder) (be_bytes n) (\<lambda>_. True)"
  using assms by unfold_locales (auto simp: enc_fixed_def dec_fixed_def be_word_bytes)

interpretation c_i8: strict_codec enc_i8 dec_i8 "be_bytes 1" "\<lambda>_. True"
  unfolding codec_defs by (rule strict_codec_fixed) simp
interpretation c_u8: strict_codec enc_u8 dec_u8 "be_bytes 1" "\<lambda>_. True"
  unfolding codec_defs by (rule strict_codec_fixed) simp
interpretation c_i16: strict_codec enc_i16 dec_i16 "be_bytes 2" "\<lambda>_. True"
  unfolding codec_defs by (rule strict_codec_fixed) simp
interpretation c_u16: strict_codec enc_u16 dec_u16 "be_bytes 2" "\<lambda>_. True"
  unfolding codec_defs by (rule strict_codec_fixed) simp
interpretation c_i32: strict_codec enc_i32 dec_i32 "be_bytes 4" "\<lambda>_. True"
  unfolding codec_defs by (rule strict_codec_fixed) simp
interpretation c_u32: strict_codec enc_u32 dec_u32 "be_bytes 4" "\<lambda>_. True"
  unfolding codec_defs by (rule strict_codec_fixed) simp
interpretation c_f32: strict_codec enc_f32 dec_f32 "be_bytes 4" "\<lambda>_. True"
  unfolding codec_defs by (rule strict_codec_fixed) simp
interpretation c_u64: strict_codec enc_u64 dec_u64 "be_bytes 8" "\<lambda>_. True"
  unfolding codec_defs by (rule strict_codec_fixed) simp
interpretation c_i64: strict_codec enc_i64 dec_i64 "be_bytes 8" "\<lambda>_. True"
  unfolding codec_defs by (rule strict_codec_fixed) simp
interpretation c_f64: strict_codec enc_f64 dec_f64 "be_bytes 8" "\<lambda>_. True"
  unfolding codec_defs by (rule strict_codec_fixed) simp

definition wire_bool :: "bool \<Rightarrow> bytes" where
  "wire_bool b = [if b then 1 else 0]"

interpretation c_bool: strict_codec enc_bool dec_bool wire_bool "\<lambda>_. True"
  by unfold_locales (auto simp: enc_bool_def dec_bool_def wire_bool_def)

interpretation c_phantom: strict_codec enc_phantom dec_phantom "\<lambda>_. []" "\<lambda>_. True"
  by unfold_locales (auto simp: enc_phantom_def dec_phantom_def)

section \<open>Sequential composition\<close>

text \<open>
  \<open>writes f w\<close>: the encoding step \<open>f\<close> appends exactly \<open>w\<close> or runs out of room.
  \<open>reads f s w s'\<close>: from state \<open>s\<close> the decoding step \<open>f\<close> consumes exactly \<open>w\<close>
  and ends in \<open>s'\<close>. \<open>rejects f s w\<close>: it fails on each proper prefix of \<open>w\<close>.
\<close>

definition writes :: "(sink \<Rightarrow> eres) \<Rightarrow> bytes \<Rightarrow> bool" where
  "writes f w \<longleftrightarrow> (\<forall>d. if length w \<le> room d then f d = EOk (put_slice w d)
                       else (\<exists>e d'. f d = EErr e d'))"

definition reads :: "'s step \<Rightarrow> 's \<Rightarrow> bytes \<Rightarrow> 's \<Rightarrow> bool" where
  "reads f s w s' \<longleftrightarrow> (\<forall>r. f s (w @ r) = DOk s' r)"

definition rejects :: "'s step \<Rightarrow> 's \<Rightarrow> bytes \<Rightarrow> bool" where
  "rejects f s w \<longleftrightarrow> (\<forall>n < length w. \<exists>k s' r. f s (take n w) = DErr (IoErr k) s' r)"

lemma codecI:
  assumes "\<And>v. ok v \<Longrightarrow> write_size E v = Some (length (wire v))"
    and "\<And>v. ok v \<Longrightarrow> writes (encode E v) (wire v)"
    and "\<And>v. ok v \<Longrightarrow> reads (decode D) (initial D) (wire v) v"
  shows "codec E D wire ok"
proof
  fix v r and d :: sink
  assume v: "ok v"
  show "write_size E v = Some (length (wire v))" using assms(1) v .
  show "decode D (initial D) (wire v @ r) = DOk v r" using assms(3) [OF v] by (simp add: reads_def)
  show "encode E v d = EOk (put_slice (wire v) d)" if "length (wire v) \<le> room d"
    using assms(2) [OF v] that by (simp add: writes_def)
  show "\<exists>e d'. encode E v d = EErr e d'" if "room d < length (wire v)"
    using assms(2) [OF v] that unfolding writes_def by (metis not_le)
qed

lemma strict_codecI:
  assumes "codec E D wire ok" "\<And>v. ok v \<Longrightarrow> rejects (decode D) (initial D) (wire v)"
  shows "strict_codec E D wire ok"
  using assms by (simp add: strict_codec_def strict_codec_axioms_def rejects_def)

context codec
begin

lemma writes_wire: "ok v \<Longrightarrow> writes (encode E v) (wire v)"
  by (auto simp: writes_def encode_law full_law not_le)

lemma reads_wire: "ok v \<Longrightarrow> reads (decode D) (initial D) (wire v) v"
  by (simp add: reads_def decode_law)

end

context strict_codec
begin

lemma rejects_wire: "ok v \<Longrightarrow> rejects (decode D) (initial D) (wire v)"
  by (simp add: rejects_def short_law)

end

lemma writes_Nil: "writes EOk []"
  by (simp add: writes_def)

lemma writes_ebind:
  assumes "writes f u" "writes g w"
  shows "writes (\<lambda>d. ebind (f d) g) (u @ w)"
  unfolding writes_def
proof
  fix d
  have f: "length u \<le> room d \<Longrightarrow> f d = EOk (put_slice u d)"
    "\<not> length u \<le> room d \<Longrightarrow> \<exists>e d'. f d = EErr e d'"
    using assms(1) unfolding writes_def by meson+
  have g: "length w \<le> room e \<Longrightarrow> g e = EOk (put_slice w e)"
    "\<not> length w \<le> room e \<Longrightarrow> \<exists>k d'. g e = EErr k d'" for e
    using assms(2) unfolding writes_def by meson+
  show "if length (u @ w) \<le> room d then ebind (f d) g = EOk (put_slice (u @ w) d)
        else \<exists>e d'. ebind (f d) g = EErr e d'"
    using f g [of "put_slice u d"] by (cases "length u \<le> room d") auto
qed

lemma writes_guarded_put:
  "length w = n \<Longrightarrow>
   writes (\<lambda>d. if remaining_mut d < n then EErr (IoErr UnexpectedEof) d else EOk (put_slice w d)) w"
  by (auto simp: writes_def)

lemma writes_guarded_seq:
  assumes "length u = n" "writes g w"
  shows "writes (\<lambda>d. if remaining_mut d < n then EErr (IoErr UnexpectedEof) d
                      else g (put_slice u d)) (u @ w)"
proof -
  have "(\<lambda>d. if remaining_mut d < n then EErr (IoErr UnexpectedEof) d else g (put_slice u d)) =
        (\<lambda>d. ebind (if remaining_mut d < n then EErr (IoErr UnexpectedEof) d else EOk (put_slice u d)) g)"
    by (auto simp: fun_eq_iff)
  then show ?thesis
    using writes_ebind [OF writes_guarded_put assms(2), OF assms(1)] by simp
qed

lemma reads_trans:
  assumes "reads f s u t" "reads g t w s'"
  shows "reads (\<lambda>s src. case f s src of DOk s' r \<Rightarrow> g s' r | DErr e s' r \<Rightarrow> DErr e s' r) s (u @ w) s'"
  using assms by (simp add: reads_def)

lemma rejects_trans:
  assumes "reads f s u t" "rejects f s u" "rejects g t w"
  shows "rejects (\<lambda>s src. case f s src of DOk s' r \<Rightarrow> g s' r | DErr e s' r \<Rightarrow> DErr e s' r) s (u @ w)"
  unfolding rejects_def
proof (intro allI impI)
  fix n
  assume n: "n < length (u @ w)"
  show "\<exists>k s' r. (case f s (take n (u @ w)) of DOk s' r \<Rightarrow> g s' r | DErr e s' r \<Rightarrow> DErr e s' r)
                   = DErr (IoErr k) s' r"
  proof (cases "n < length u")
    case True
    then obtain k s' r where "f s (take n u) = DErr (IoErr k) s' r"
      using assms(2) unfolding rejects_def by blast
    then show ?thesis using True by simp
  next
    case False
    then have "f s (take n (u @ w)) = DOk t (take (n - length u) w)"
      using assms(1) by (simp add: reads_def)
    moreover have "n - length u < length w" using n False by simp
    ultimately show ?thesis using assms(3) unfolding rejects_def by fastforce
  qed
qed

lemma rejects_Nil: "rejects f s []"
  by (simp add: rejects_def)

lemma reads_Nil: "reads DOk s [] s"
  by (simp add: reads_def)

section \<open>Derived structs\<close>

lemma writes_fields_Nil: "writes (encode_fields [] s) []"
  by (simp add: writes_def)

lemma writes_fields_Cons:
  "writes (encode F s) w \<Longrightarrow> writes (encode_fields Fs s) ws \<Longrightarrow> writes (encode_fields (F # Fs) s) (w @ ws)"
  using writes_ebind [of "encode F s" w "encode_fields Fs s" ws] by (simp add: writes_def)

lemma reads_fields_Nil: "reads (decode_fields []) s [] s"
  by (simp add: reads_def)

lemma reads_fields_Cons:
  "reads f s w t \<Longrightarrow> reads (decode_fields fs) t ws s' \<Longrightarrow> reads (decode_fields (f # fs)) s (w @ ws) s'"
  by (simp add: reads_def)

lemma rejects_fields_Cons:
  assumes "reads f s w t" "rejects f s w" "rejects (decode_fields fs) t ws"
  shows "rejects (decode_fields (f # fs)) s (w @ ws)"
  using rejects_trans [OF assms] by (simp add: rejects_def)

lemma writes_field_enc: "writes (encode E (get s)) w \<Longrightarrow> writes (encode (field_enc get E) s) w"
  by (simp add: field_enc_def)

lemma reads_field_dec:
  "reads (decode D) (get s) w a \<Longrightarrow> reads (field_dec get upd D) s w (upd a s)"
  by (simp add: reads_def field_dec_def)

lemma rejects_field_dec: "rejects (decode D) (get s) w \<Longrightarrow> rejects (field_dec get upd D) s w"
  by (fastforce simp: rejects_def field_dec_def)

lemma writes_fields_last: "writes (encode F s) w \<Longrightarrow> writes (encode_fields [F] s) w"
  using writes_fields_Cons [OF _ writes_fields_Nil] by fastforce

lemma reads_fields_last: "reads f s w t \<Longrightarrow> reads (decode_fields [f]) s w t"
  using reads_fields_Cons [OF _ reads_fields_Nil] by fastforce

lemma rejects_fields_last: "reads f s w t \<Longrightarrow> rejects f s w \<Longrightarrow> rejects (decode_fields [f]) s w"
  by (fastforce simp: rejects_def)

context codec
begin

lemma field_writes: "ok (get s) \<Longrightarrow> writes (encode (field_enc get E) s) (wire (get s))"
  by (intro writes_field_enc writes_wire)

lemma field_reads:
  "ok a \<Longrightarrow> get s = initial D \<Longrightarrow> reads (field_dec get upd D) s (wire a) (upd a s)"
  using reads_wire [of a] by (intro reads_field_dec) simp

end

context strict_codec
begin

lemma field_rejects: "ok a \<Longrightarrow> get s = initial D \<Longrightarrow> rejects (field_dec get upd D) s (wire a)"
  using rejects_wire [of a] by (intro rejects_field_dec) simp

end

lemma versioned_on [simp]:
  "version_check lo hi version \<Longrightarrow> versioned_enc lo hi version E = E"
  "version_check lo hi version \<Longrightarrow> versioned_dec lo hi version f = f"
  by (simp_all add: versioned_enc_def versioned_dec_def)

lemma versioned_off [simp]:
  "\<not> version_check lo hi version \<Longrightarrow> versioned_enc lo hi version E = skip_enc"
  "\<not> version_check lo hi version \<Longrightarrow> versioned_dec lo hi version f = DOk"
  by (simp_all add: versioned_enc_def versioned_dec_def)

lemma write_size_field_enc [simp]: "write_size (field_enc get E) s = write_size E (get s)"
  by (simp add: field_enc_def)

lemma skip_enc_simps [simp]: "write_size skip_enc s = Some 0" "encode skip_enc s d = EOk d"
  by (simp_all add: skip_enc_def)

lemma struct_simps [simp]:
  "encode (struct_enc Fs) = encode_fields Fs"
  "write_size (struct_enc Fs) s = foldl (\<lambda>len F. add_size len (write_size F s)) (Some 0) Fs"
  "initial (struct_dec s0 fs) = s0" "decode (struct_dec s0 fs) = decode_fields fs"
  by (simp_all add: struct_enc_def struct_dec_def)

text \<open>Number decoders overwrite whatever the field held before.\<close>

lemma dec_int_any [simp, codec_simps]:
  "decode dec_i8 s8 (be_bytes (Suc 0) a @ r) = DOk a r"
  "decode dec_i16 s16 (be_bytes 2 b @ r) = DOk b r"
  "decode dec_i32 s32 (be_bytes 4 c @ r) = DOk c r"
  "decode dec_i64 s64 (be_bytes 8 d @ r) = DOk d r"
  "decode dec_u8 s8 (be_bytes (Suc 0) a @ r) = DOk a r"
  "decode dec_u16 s16 (be_bytes 2 b @ r) = DOk b r"
  "decode dec_u32 s32 (be_bytes 4 c @ r) = DOk c r"
  "decode dec_u64 s64 (be_bytes 8 d @ r) = DOk d r"
  by (simp_all add: dec_int_defs dec_fixed_def be_word_bytes)

lemma rejects_fixed: "rejects (decode (dec_fixed n)) s (be_bytes n a)"
  by (simp add: rejects_def dec_fixed_def)

lemma rejects_int:
  "rejects (decode dec_i8) s8 (be_bytes 1 a)" "rejects (decode dec_i16) s16 (be_bytes 2 b)"
  "rejects (decode dec_i32) s32 (be_bytes 4 c)" "rejects (decode dec_i64) s64 (be_bytes 8 d)"
  "rejects (decode dec_u32) s32 (be_bytes 4 c)"
  unfolding dec_int_defs by (rule rejects_fixed)+

lemma reads_int:
  "reads (decode dec_i8) s8 (be_bytes 1 a) a" "reads (decode dec_i16) s16 (be_bytes 2 b) b"
  "reads (decode dec_i32) s32 (be_bytes 4 c) c" "reads (decode dec_i64) s64 (be_bytes 8 d) d"
  "reads (decode dec_u32) s32 (be_bytes 4 c) c"
  by (simp_all add: reads_def)

lemmas write_field_intros = writes_fields_Cons writes_fields_last
lemmas read_field_intros = reads_fields_Cons reads_fields_last
lemmas reject_field_intros = rejects_fields_Cons rejects_fields_last

section \<open>Containers fulfil the contract\<close>

definition wire_option :: "('a \<Rightarrow> bytes) \<Rightarrow> 'a option \<Rightarrow> bytes" where
  "wire_option w v = (case v of None \<Rightarrow> wire_bool False | Some x \<Rightarrow> wire_bool True @ w x)"

definition ok_option :: "('a \<Rightarrow> bool) \<Rightarrow> 'a option \<Rightarrow> bool" where
  "ok_option p v = (case v of None \<Rightarrow> True | Some x \<Rightarrow> p x)"

lemma option_codec:
  assumes "codec E D w p"
  shows "codec (enc_option E) (dec_option D) (wire_option w) (ok_option p)"
proof -
  note c = codec.size_law [OF assms] codec.decode_law [OF assms] codec.writes_wire [OF assms]
  show ?thesis
  proof (rule codecI)
    fix v :: "'a option"
    assume v: "ok_option p v"
    show "write_size (enc_option E) v = Some (length (wire_option w v))"
      using v by (auto simp: c c_bool.size_law enc_option_def wire_option_def ok_option_def split: option.splits)
    show "writes (encode (enc_option E) v) (wire_option w v)"
      using v c_bool.writes_wire [of False] writes_ebind [OF c_bool.writes_wire [of True] c(3)]
      by (auto simp: enc_option_def wire_option_def ok_option_def split: option.splits)
    show "reads (decode (dec_option D)) (initial (dec_option D)) (wire_option w v) v"
      using v by (auto simp: reads_def c dec_option_def wire_option_def ok_option_def wire_bool_def
          dec_bool_def split: option.splits)
  qed
qed

lemma option_strict_codec:
  assumes "strict_codec E D w p"
  shows "strict_codec (enc_option E) (dec_option D) (wire_option w) (ok_option p)"
proof (rule strict_codecI)
  show "codec (enc_option E) (dec_option D) (wire_option w) (ok_option p)"
    by (rule option_codec [OF strict_codec.axioms(1) [OF assms]])
  fix v :: "'a option"
  assume v: "ok_option p v"
  show "rejects (decode (dec_option D)) (initial (dec_option D)) (wire_option w v)"
    unfolding rejects_def
  proof (intro allI impI)
    fix n
    assume n: "n < length (wire_option w v)"
    show "\<exists>k s' r. decode (dec_option D) (initial (dec_option D)) (take n (wire_option w v))
                     = DErr (IoErr k) s' r"
    proof (cases "n = 0")
      case True
      then show ?thesis by (simp add: dec_option_def dec_bool_def)
    next
      case False
      then obtain x m where x: "v = Some x" and m: "n = Suc m" "m < length (w x)"
        using n by (cases v; cases n) (auto simp: wire_option_def wire_bool_def)
      then have "p x" using v by (simp add: ok_option_def)
      then show ?thesis
        using strict_codec.short_law [OF assms _ m(2)] x m(1)
        by (auto simp: dec_option_def wire_option_def wire_bool_def dec_bool_def)
    qed
  qed
qed

definition wire_vec :: "('a \<Rightarrow> bytes) \<Rightarrow> 'a list \<Rightarrow> bytes" where
  "wire_vec w vs = be_bytes 4 (word_of_nat (length vs) :: u32) @ concat (map w vs)"

definition ok_vec :: "('a \<Rightarrow> bool) \<Rightarrow> 'a list \<Rightarrow> bool" where
  "ok_vec p vs = (length vs < 2 ^ 31 \<and> list_all p vs)"

definition push_step :: "'a decoder \<Rightarrow> 'a list step" where
  "push_step D item src =
     (case decode D (initial D) src of DErr e _ r \<Rightarrow> DErr e item r | DOk v r \<Rightarrow> DOk (item @ [v]) r)"

lemma decode_vec_Suc:
  "decode_vec D (Suc n) =
     (\<lambda>item src. case push_step D item src of
        DOk item' r \<Rightarrow> decode_vec D n item' r | DErr e item' r \<Rightarrow> DErr e item' r)"
  by (auto simp: push_step_def fun_eq_iff split: dres.splits)

lemma size_vec_foldl:
  assumes "\<forall>v \<in> set vs. write_size E v = Some (length (w v))"
  shows "foldl (\<lambda>sum val. add_size sum (write_size E val)) (Some n) vs
           = Some (n + length (concat (map w vs)))"
  using assms by (induction vs arbitrary: n) (auto simp: algebra_simps)

lemma sint_of_nat_word:
  assumes "k < 2 ^ (LENGTH('a::len) - 1)"
  shows "sint (word_of_nat k :: 'a word) = int k"
proof -
  have "int k < 2 ^ (LENGTH('a) - 1)"
    using assms by (metis of_nat_less_iff of_nat_numeral of_nat_power)
  then have "signed_take_bit (LENGTH('a) - 1) (int k) = int k"
    by (intro signed_take_bit_int_eq_self) (simp_all add: order_trans [of _ 0])
  then show ?thesis by (simp add: signed_of_nat)
qed

context codec
begin

lemma writes_encode_all: "list_all ok vs \<Longrightarrow> writes (encode_all E vs) (concat (map wire vs))"
proof (induction vs)
  case (Cons v vs)
  then show ?case using writes_ebind [OF writes_wire [of v]] by (simp add: writes_def)
qed (simp add: writes_def)

lemma reads_push_step: "ok v \<Longrightarrow> reads (push_step D) item (wire v) (item @ [v])"
  by (simp add: reads_def push_step_def decode_law)

lemma reads_decode_vec:
  "list_all ok vs \<Longrightarrow> reads (decode_vec D (length vs)) item (concat (map wire vs)) (item @ vs)"
proof (induction vs arbitrary: item)
  case (Cons v vs)
  then show ?case
    using reads_trans [OF reads_push_step Cons.IH [of "item @ [v]"]]
    by (simp add: decode_vec_Suc del: decode_vec.simps)
qed (simp add: reads_def)

end

context strict_codec
begin

lemma rejects_push_step: "ok v \<Longrightarrow> rejects (push_step D) item (wire v)"
  using rejects_wire [of v] by (fastforce simp: rejects_def push_step_def)

lemma rejects_decode_vec:
  "list_all ok vs \<Longrightarrow> rejects (decode_vec D (length vs)) item (concat (map wire vs))"
proof (induction vs arbitrary: item)
  case (Cons v vs)
  then show ?case
    using rejects_trans [OF reads_push_step rejects_push_step]
    by (simp add: decode_vec_Suc del: decode_vec.simps)
qed (simp add: rejects_def)

end

lemma decode_dec_vec:
  assumes "length vs < 2 ^ 31"
  shows "decode (dec_vec D) self (be_bytes 4 (word_of_nat (length vs) :: u32) @ r) =
           decode_vec D (length vs) self r"
  using c_i32.decode_law [of "word_of_nat (length vs)" r] assms
  by (auto simp: dec_vec_def dec_int_defs dec_fixed_def sint_of_nat_word)

lemma vec_codec:
  assumes "codec E D w p"
  shows "codec (enc_vec E) (dec_vec D) (wire_vec w) (ok_vec p)"
proof (rule codecI)
  fix vs
  assume vs: "ok_vec p vs"
  then show "write_size (enc_vec E) vs = Some (length (wire_vec w vs))"
    using codec.size_law [OF assms]
    by (simp add: enc_vec_def wire_vec_def ok_vec_def list_all_iff size_vec_foldl [where w = w])
  show "writes (encode (enc_vec E) vs) (wire_vec w vs)"
    using writes_guarded_seq [OF _ codec.writes_encode_all [OF assms]] vs
    by (simp add: enc_vec_def wire_vec_def ok_vec_def)
  show "reads (decode (dec_vec D)) (initial (dec_vec D)) (wire_vec w vs) vs"
    using codec.reads_decode_vec [OF assms, of vs "[]"] vs
    by (simp add: reads_def wire_vec_def ok_vec_def decode_dec_vec) (simp add: dec_vec_def)
qed

lemma vec_strict_codec:
  assumes "strict_codec E D w p"
  shows "strict_codec (enc_vec E) (dec_vec D) (wire_vec w) (ok_vec p)"
proof (rule strict_codecI)
  show "codec (enc_vec E) (dec_vec D) (wire_vec w) (ok_vec p)"
    by (rule vec_codec [OF strict_codec.axioms(1) [OF assms]])
  fix vs
  assume vs: "ok_vec p vs"
  show "rejects (decode (dec_vec D)) (initial (dec_vec D)) (wire_vec w vs)"
    unfolding rejects_def
  proof (intro allI impI)
    fix n
    assume n: "n < length (wire_vec w vs)"
    show "\<exists>k s' r. decode (dec_vec D) (initial (dec_vec D)) (take n (wire_vec w vs)) = DErr (IoErr k) s' r"
    proof (cases "n < 4")
      case True
      then show ?thesis using n by (simp add: dec_vec_def dec_int_defs dec_fixed_def wire_vec_def)
    next
      case False
      then have "n - 4 < length (concat (map w vs))" using n by (simp add: wire_vec_def)
      then show ?thesis
        using strict_codec.rejects_decode_vec [OF assms, of vs "[]"] vs False
        by (simp add: wire_vec_def ok_vec_def decode_dec_vec rejects_def) (simp add: dec_vec_def)
    qed
  qed
qed

definition wire_entries :: "('k \<Rightarrow> bytes) \<Rightarrow> ('v \<Rightarrow> bytes) \<Rightarrow> ('k \<times> 'v) list \<Rightarrow> bytes" where
  "wire_entries wk wv m = concat (map (\<lambda>e. wk (fst e) @ wv (snd e)) m)"

definition wire_btree :: "('k \<Rightarrow> bytes) \<Rightarrow> ('v \<Rightarrow> bytes) \<Rightarrow> ('k \<times> 'v) list \<Rightarrow> bytes" where
  "wire_btree wk wv m = be_bytes 2 (word_of_nat (length m) :: u16) @ wire_entries wk wv m"

definition ok_btree ::
  "('k::linorder \<Rightarrow> bool) \<Rightarrow> ('v \<Rightarrow> bool) \<Rightarrow> ('k \<times> 'v) list \<Rightarrow> bool" where
  "ok_btree pk pv m = (bt_wf m \<and> length m < 2 ^ 16 \<and> list_all (\<lambda>e. pk (fst e) \<and> pv (snd e)) m)"

lemma size_btree_foldl:
  assumes "\<forall>e \<in> set m. write_size K (fst e) = Some (length (wk (fst e))) \<and>
                       write_size V (snd e) = Some (length (wv (snd e)))"
  shows "foldl (\<lambda>len e. add_size (add_size len (write_size K (fst e))) (write_size V (snd e))) (Some n) m
           = Some (n + length (wire_entries wk wv m))"
  using assms by (induction m arbitrary: n) (auto simp: wire_entries_def algebra_simps)

lemma writes_entries:
  assumes "codec K DK wk pk" "codec V DV wv pv"
    and "list_all (\<lambda>e. pk (fst e) \<and> pv (snd e)) m"
  shows "writes (encode_entries K V m) (wire_entries wk wv m)"
  using assms(3)
proof (induction m)
  case (Cons e m)
  then have "writes (\<lambda>d. ebind (ebind (encode K (fst e) d) (encode V (snd e))) (encode_entries K V m))
               ((wk (fst e) @ wv (snd e)) @ wire_entries wk wv m)"
    using codec.writes_wire [OF assms(1)] codec.writes_wire [OF assms(2)]
    by (intro writes_ebind) simp_all
  then show ?case by (cases e) (simp add: wire_entries_def writes_def)
qed (simp add: writes_def wire_entries_def)

lemma reads_entries:
  assumes "codec K DK wk pk" "codec V DV wv pv"
    and "list_all (\<lambda>e. pk (fst e) \<and> pv (snd e)) es" "bt_wf (m @ es)"
  shows "reads (decode_entries DK DV (length es)) m (wire_entries wk wv es) (m @ es)"
  using assms(3,4)
proof (induction es arbitrary: m)
  case (Cons e es)
  have "bt_insert (fst e) (snd e) m = m @ [e]"
    using Cons.prems(2) bt_insert_last [of m "fst e" "snd e"] by (auto simp: bt_wf_def sorted_wrt_append)
  moreover have "reads (decode_entries DK DV (length es)) (m @ [e]) (wire_entries wk wv es) (m @ e # es)"
    using Cons.IH [of "m @ [e]"] Cons.prems by simp
  ultimately show ?case
    using Cons.prems codec.decode_law [OF assms(1)] codec.decode_law [OF assms(2)]
    by (simp add: reads_def wire_entries_def)
qed (simp add: reads_def wire_entries_def)

lemma btree_codec:
  assumes "codec K DK wk pk" "codec V DV wv pv"
  shows "codec (enc_btree K V) (dec_btree DK DV) (wire_btree wk wv) (ok_btree pk pv)"
proof (rule codecI)
  fix m :: "('a \<times> 'b) list"
  assume m: "ok_btree pk pv m"
  then have el: "list_all (\<lambda>e. pk (fst e) \<and> pv (snd e)) m" by (simp add: ok_btree_def)
  have "\<forall>e \<in> set m. write_size K (fst e) = Some (length (wk (fst e))) \<and>
                     write_size V (snd e) = Some (length (wv (snd e)))"
    using el codec.size_law [OF assms(1)] codec.size_law [OF assms(2)] by (simp add: list_all_iff)
  from size_btree_foldl [OF this, of 2] show "write_size (enc_btree K V) m = Some (length (wire_btree wk wv m))"
    by (simp add: enc_btree_def wire_btree_def c_u16.size_law)
  show "writes (encode (enc_btree K V) m) (wire_btree wk wv m)"
    using writes_ebind [OF c_u16.writes_wire writes_entries [OF assms el]]
    by (simp add: enc_btree_def wire_btree_def)
  have "unat (word_of_nat (length m) :: u16) = length m"
    using m by (simp add: ok_btree_def unat_of_nat)
  moreover have "decode dec_u16 0 (be_bytes 2 (word_of_nat (length m) :: u16) @ r) = DOk (word_of_nat (length m)) r" for r
    using c_u16.decode_law [of "word_of_nat (length m)" r] by (simp add: dec_int_defs dec_fixed_def)
  ultimately show "reads (decode (dec_btree DK DV)) (initial (dec_btree DK DV)) (wire_btree wk wv m) m"
    using reads_entries [OF assms el, of "[]"] m
    by (simp add: reads_def dec_btree_def wire_btree_def ok_btree_def)
qed

definition wire_duration :: "duration \<Rightarrow> bytes" where
  "wire_duration v = be_bytes 8 (as_secs v) @ be_bytes 4 (subsec_nanos v)"

definition ok_duration :: "duration \<Rightarrow> bool" where
  "ok_duration v = (unat (subsec_nanos v) < 1000000000)"

interpretation c_duration: strict_codec enc_duration dec_duration wire_duration ok_duration
proof
  fix v r and d :: sink
  assume "ok_duration v"
  then have nanos: "unat (subsec_nanos v) < 1000000000" by (simp add: ok_duration_def)
  show "write_size enc_duration v = Some (length (wire_duration v))"
    by (simp add: enc_duration_def wire_duration_def)
  show "length (wire_duration v) \<le> room d \<Longrightarrow> encode enc_duration v d = EOk (put_slice (wire_duration v) d)"
    by (simp add: enc_duration_def wire_duration_def)
  show "room d < length (wire_duration v) \<Longrightarrow> \<exists>e d'. encode enc_duration v d = EErr e d'"
    by (simp add: enc_duration_def wire_duration_def)
  show "\<exists>k s r. decode dec_duration (initial dec_duration) (take n (wire_duration v)) = DErr (IoErr k) s r"
    if "n < length (wire_duration v)" for n
    using that by (simp add: dec_duration_def wire_duration_def del: take_append)
  have "unat (as_secs v) < 2 ^ 64" using unsigned_less [of "as_secs v"] by simp
  then have "duration_new (as_secs v) (subsec_nanos v) = Some v"
    using nanos by (simp add: duration_new_def)
  then show "decode dec_duration (initial dec_duration) (wire_duration v @ r) = DOk v r"
    by (simp add: dec_duration_def wire_duration_def be_word_bytes)
qed

text \<open>
  Strings: the length is written as an unsigned 16-bit number and read as a
  signed one, so the wire format carries strings shorter than \<open>2\<^sup>15\<close> bytes.
\<close>

definition wire_string :: "bytes \<Rightarrow> bytes" where
  "wire_string s = be_bytes 2 (word_of_nat (length s) :: u16) @ s"

definition ok_string :: "bytes \<Rightarrow> bool" where
  "ok_string s = (valid_utf8 s \<and> length s < 2 ^ 15)"

lemma decode_dec_string:
  assumes "length s < 2 ^ 15"
  shows "decode dec_string self (be_bytes 2 (word_of_nat (length s) :: u16) @ r) =
           (if s = [] then DOk self r
            else case decode_string (word_of_nat (length s)) r of
                   DErr e _ r' \<Rightarrow> DErr e self r' | DOk value r' \<Rightarrow> DOk value r')"
  using assms by (simp add: dec_string_def be_word_bytes sint_of_nat_word)

interpretation c_string: strict_codec enc_string dec_string wire_string ok_string
proof
  fix s r and d :: sink
  assume s: "ok_string s"
  have ini: "initial dec_string = []" by (simp add: dec_string_def)
  show "write_size enc_string s = Some (length (wire_string s))"
    by (simp add: enc_string_def wire_string_def)
  show "length (wire_string s) \<le> room d \<Longrightarrow> encode enc_string s d = EOk (put_slice (wire_string s) d)"
    by (auto simp: enc_string_def wire_string_def Let_def min_def)
  show "room d < length (wire_string s) \<Longrightarrow> \<exists>e d'. encode enc_string s d = EErr e d'"
    by (simp add: enc_string_def wire_string_def)
  show "decode dec_string (initial dec_string) (wire_string s @ r) = DOk s r"
    using s ini by (simp add: wire_string_def ok_string_def decode_dec_string)
      (simp add: decode_string_def sint_of_nat_word)
  show "\<exists>k s' r. decode dec_string (initial dec_string) (take n (wire_string s)) = DErr (IoErr k) s' r"
    if "n < length (wire_string s)" for n
  proof (cases "n < 2")
    case True
    then show ?thesis by (simp add: dec_string_def wire_string_def)
  next
    case False
    then have n: "n - 2 < length s" using that by (simp add: wire_string_def)
    then have "decode_string (word_of_nat (length s)) (take (n - 2) s) =
                 DErr (IoErr (if valid_utf8 (take (n - 2) s) then UnexpectedEof else InvalidData)) [] []"
      using s by (simp add: decode_string_def sint_of_nat_word ok_string_def Let_def)
    moreover have "s \<noteq> []" using n by auto
    ultimately show ?thesis
      using s False ini by (simp add: wire_string_def ok_string_def decode_dec_string)
  qed
qed

section \<open>Properties\<close>

text \<open>
  The length of a string is written as \<open>u16\<close> and read as \<open>i16\<close>: a string of
  \<open>2\<^sup>15\<close> to \<open>2\<^sup>16 - 1\<close> bytes is accepted by the encoder, but the decoder returns
  the empty string without an error and leaves the text in the source.
\<close>

theorem long_string_decodes_empty:
  assumes "2 ^ 15 \<le> length s" "length s < 2 ^ 16"
  shows "encode enc_string s vec_sink = EOk (put_slice (wire_string s) vec_sink) \<and>
         decode dec_string [] (wire_string s @ r) = DOk [] (s @ r)"
proof -
  have "length s + 2 \<le> room vec_sink" using assms by (simp add: vec_sink_def)
  then have "encode enc_string s vec_sink = EOk (put_slice (wire_string s) vec_sink)"
    by (auto simp: enc_string_def wire_string_def Let_def min_def)
  moreover have "sint (word_of_nat (length s) :: i16) \<le> 0"
  proof -
    have "(word_of_nat (length s) :: i16) = word_of_int (int (length s) - 2 ^ 16)" by simp
    moreover have "sint (word_of_int (int (length s) - 2 ^ 16) :: i16) = int (length s) - 2 ^ 16"
    proof -
      have "signed_take_bit 15 (int (length s) - 2 ^ 16) = int (length s) - 2 ^ 16"
        using assms by (intro signed_take_bit_int_eq_self) simp_all
      then show ?thesis by (subst signed_of_int) simp
    qed
    ultimately show ?thesis using assms by (simp only:) simp
  qed
  ultimately show ?thesis by (simp add: dec_string_def wire_string_def be_word_bytes)
qed

theorem long_string_decodes_empty_witness:
  "decode dec_string [] (wire_string (replicate 40000 97) @ [1]) = DOk [] (replicate 40000 97 @ [1])"
  using long_string_decodes_empty [of "replicate 40000 97" "[1]"] by simp

end
