(* ===== verification/Varint.thy ===== *)
theory Varint
  imports Wire_Codec
begin

unbundle bit_operations_syntax

text \<open>
  Variable-length integers: \<open>fluvio-protocol/src/core/varint.rs\<close> and the
  \<open>EncoderVarInt\<close> and \<open>DecoderVarInt\<close> implementations of \<open>encoder.rs\<close> and
  \<open>decoder.rs\<close>. The loops are modelled on 64-bit words with the masks and
  shifts of the source. The size loop need not end, so it is a partial
  function; the encoding loop ends at the latest when the destination is full.
\<close>

section \<open>Model\<close>

fun varint_decode_loop :: "i64 \<Rightarrow> nat \<Rightarrow> bytes \<Rightarrow> (fault + i64 \<times> nat) \<times> bytes" where
  "varint_decode_loop num shift [] = (Inl (IoErr UnexpectedEof), [])"
| "varint_decode_loop num shift (b # r) =
     (let num' = num OR push_bit (shift mod 64) (ucast (b AND 0x7f));
          shift' = shift + 7
      in if b AND 0x80 = 0 then (Inr (num', shift'), r)
         else varint_decode_loop num' shift' r)"

definition varint_decode :: "bytes \<Rightarrow> (fault + i64 \<times> nat) \<times> bytes" where
  "varint_decode buf =
     (case varint_decode_loop 0 0 buf of
        (Inl e, r) \<Rightarrow> (Inl e, r)
      | (Inr (num, shift), r) \<Rightarrow>
          (Inr (signed_drop_bit 1 num XOR - (num AND 1), shift div 7), r))"

definition zigzag_i64 :: "i64 \<Rightarrow> i64" where
  "zigzag_i64 num = push_bit 1 num XOR signed_drop_bit 31 num"

function variant_encode_loop :: "i64 \<Rightarrow> sink \<Rightarrow> eres" where
  "variant_encode_loop v d =
     (if v AND 0xffffff80 \<noteq> 0 then
        (if remaining_mut d = 0 then EErr (IoErr UnexpectedEof) d
         else variant_encode_loop (signed_drop_bit 7 v)
                (put_slice [ucast ((v AND 0x7f) OR 0x80)] d))
      else if remaining_mut d = 0 then EErr (IoErr UnexpectedEof) d
      else EOk (put_slice [ucast v] d))"
  by pat_completeness auto
termination
  by (relation "measure (\<lambda>(v, d). room d)") auto

definition variant_encode :: "i64 \<Rightarrow> sink \<Rightarrow> eres" where
  "variant_encode num d = variant_encode_loop (zigzag_i64 num) d"

partial_function (option) variant_size_loop :: "i64 \<Rightarrow> nat \<Rightarrow> nat option" where
  "variant_size_loop v bytes =
     (if v AND 0xffffff80 \<noteq> 0 then variant_size_loop (signed_drop_bit 7 v) (bytes + 1)
      else Some bytes)"

definition variant_size :: "i64 \<Rightarrow> nat option" where
  "variant_size num = variant_size_loop (zigzag_i64 num) 1"

definition venc_i64 :: "i64 encoder" where
  "venc_i64 = \<lparr>write_size = variant_size, encode = variant_encode\<rparr>"

definition vdec_i64 :: "i64 decoder" where
  "vdec_i64 = \<lparr>
     initial = 0,
     decode = (\<lambda>self src. case varint_decode src of
         (Inl e, r) \<Rightarrow> DErr e self r
       | (Inr (value, _), r) \<Rightarrow> DOk value r)\<rparr>"

text \<open>
  Byte vectors with a varint length. \<open>Vec<u8>\<close> appends to what the vector
  holds and compares the total; \<open>Option<Vec<u8>>\<close> reads a negative length as \<open>None\<close>.
\<close>

definition vdec_bytes :: "bytes decoder" where
  "vdec_bytes = \<lparr>
     initial = [],
     decode = (\<lambda>self src. case decode vdec_i64 0 src of
         DErr e _ r \<Rightarrow> DErr e self r
       | DOk len r \<Rightarrow>
           if sint len < 1 then DOk self r
           else (let self' = self @ take (unat len) r; r' = drop (unat len) r
                 in if length self' \<noteq> unat len then DErr (IoErr UnexpectedEof) self' r'
                    else DOk self' r'))\<rparr>"

definition decode_option_vec_u :: "bytes option \<Rightarrow> bytes \<Rightarrow> i64 \<Rightarrow> bytes option dres" where
  "decode_option_vec_u array src len =
     (if sint len < 0 then DOk None src
      else if sint len = 0 then DOk (Some []) src
      else (let value = take (unat len) src; r = drop (unat len) src
            in if length value \<noteq> unat len then DErr (IoErr UnexpectedEof) array r
               else DOk (Some value) r))"

definition vdec_option_bytes :: "bytes option decoder" where
  "vdec_option_bytes = \<lparr>
     initial = None,
     decode = (\<lambda>self src. case decode vdec_i64 0 src of
         DErr e _ r \<Rightarrow> DErr e self r
       | DOk len r \<Rightarrow> decode_option_vec_u self r len)\<rparr>"

section \<open>The wire format\<close>

text \<open>
  The protocol-buffer format the file refers to: the zigzag code of the
  number in base 128, least significant group first.
\<close>

definition zigzag :: "int \<Rightarrow> nat" where
  "zigzag n = nat (if n \<ge> 0 then 2 * n else - 2 * n - 1)"

fun leb128 :: "nat \<Rightarrow> bytes" where
  "leb128 z = (if z < 128 then [word_of_nat z]
               else word_of_nat (z mod 128 + 128) # leb128 (z div 128))"

declare leb128.simps [simp del]
declare variant_encode_loop.simps [simp del]

definition wire_varint :: "i64 \<Rightarrow> bytes" where
  "wire_varint v = leb128 (zigzag (sint v))"

definition ok_varint :: "i64 \<Rightarrow> bool" where
  "ok_varint v = (- (2 ^ 31) \<le> sint v \<and> sint v < 2 ^ 31)"

section \<open>Bit-level facts\<close>

lemma bit_of_nat_word_iff:
  "bit (word_of_nat m :: 'a::len word) n \<longleftrightarrow> n < LENGTH('a) \<and> bit m n"
proof -
  have "(word_of_nat m :: 'a word) = word_of_int (int m)" by simp
  then show ?thesis by (simp only: bit_word_of_int_iff bit_of_nat_iff_bit)
qed

lemma bit_nat_bound: "z < 2 ^ k \<Longrightarrow> k \<le> n \<Longrightarrow> \<not> bit (z::nat) n"
proof -
  assume z: "z < 2 ^ k" "k \<le> n"
  then have "z < 2 ^ n" by (meson less_le_trans one_le_numeral power_increasing)
  then show ?thesis by (simp add: bit_iff_odd)
qed

lemma bit_group_low: "bit (z mod 128 :: nat) n \<longleftrightarrow> n < 7 \<and> bit z n"
  using bit_take_bit_iff [of 7 z n] by (simp add: take_bit_eq_mod)

lemma bit_group_high: "bit (z div 128 :: nat) n \<longleftrightarrow> bit z (n + 7)"
  using bit_drop_bit_eq [of 7 z] by (simp add: drop_bit_eq_div fun_eq_iff add.commute)

lemma bit_group_mask [simp]: "bit (0x7f :: int) n \<longleftrightarrow> n < 7"
proof -
  have "(0x7f :: int) = mask 7" by (simp add: mask_eq_exp_minus_1)
  then show ?thesis by (simp only: bit_mask_iff) auto
qed

lemma bit_cont_mask [simp]: "bit (0xffffff80 :: int) n \<longleftrightarrow> 7 \<le> n \<and> n < 32"
proof -
  have "(0xffffff80 :: int) = push_bit 7 (mask 25)" by (simp add: mask_eq_exp_minus_1)
  then show ?thesis by (simp only: bit_push_bit_iff bit_mask_iff) auto
qed

lemma bit_flag [simp]: "bit (0x80 :: int) n \<longleftrightarrow> n = 7" "bit (0x80 :: nat) n \<longleftrightarrow> n = 7"
proof -
  have "(0x80 :: int) = 2 ^ 7" "(0x80 :: nat) = 2 ^ 7" by simp_all
  then show "bit (0x80 :: int) n \<longleftrightarrow> n = 7" "bit (0x80 :: nat) n \<longleftrightarrow> n = 7"
    by (simp_all only: bit_exp_iff) auto
qed

text \<open>One iteration of the loops on a code below \<open>2\<^sup>32\<close>.\<close>

lemma cont_test:
  assumes "z < 2 ^ 32"
  shows "(word_of_nat z :: i64) AND 0xffffff80 = 0 \<longleftrightarrow> z < 128"
proof
  assume "z < 128"
  then show "(word_of_nat z :: i64) AND 0xffffff80 = 0"
    using bit_nat_bound [of z 7] by (intro bit_eqI) (auto simp: bit_and_iff bit_cont_mask bit_of_nat_word_iff)
next
  assume zero: "(word_of_nat z :: i64) AND 0xffffff80 = 0"
  have "\<not> bit (z div 128) n" for n
  proof
    assume "bit (z div 128) n"
    then have b: "bit z (n + 7)" by (simp add: bit_group_high)
    then have "n + 7 < 32" using bit_nat_bound [OF assms] by (meson not_le)
    then have "bit ((word_of_nat z :: i64) AND 0xffffff80) (n + 7)"
      using b by (simp add: bit_and_iff bit_cont_mask bit_of_nat_word_iff)
    then show False using zero by simp
  qed
  then have "z div 128 = 0" by (intro bit_eqI) simp
  then show "z < 128" by (simp add: div_eq_0_iff)
qed

lemma shift_group:
  assumes "z < 2 ^ 63"
  shows "signed_drop_bit 7 (word_of_nat z :: i64) = word_of_nat (z div 128)"
  using bit_nat_bound [OF assms]
  by (intro bit_eqI) (auto simp: bit_signed_drop_bit_iff bit_of_nat_word_iff bit_group_high add.commute)

lemma bit_group_or: "bit (z mod 128 + 128 :: nat) n \<longleftrightarrow> n = 7 \<or> n < 7 \<and> bit z n"
proof -
  have "z mod 128 + 128 = (z mod 128) OR 128"
    by (rule disjunctive_add) (auto simp: bit_group_low)
  then show ?thesis by (auto simp: bit_or_iff bit_group_low)
qed

lemma emit_group:
  "(ucast (((word_of_nat z :: i64) AND 0x7f) OR 0x80) :: u8) = word_of_nat (z mod 128 + 128)"
  by (intro bit_eqI)
    (auto simp: bit_simps bit_of_nat_word_iff bit_group_or simp del: of_nat_add)

lemma emit_last: "(ucast (word_of_nat z :: i64) :: u8) = word_of_nat z"
  by (intro bit_eqI) (auto simp: bit_simps bit_of_nat_word_iff)

lemma read_group:
  "ucast ((word_of_nat k :: u8) AND 0x7f) = (word_of_nat (k mod 128) :: i64)"
  by (intro bit_eqI) (auto simp: bit_simps bit_of_nat_word_iff bit_group_low)

lemma read_flag:
  assumes "k < 256"
  shows "(word_of_nat k :: u8) AND 0x80 = 0 \<longleftrightarrow> k < 128"
proof -
  have flag: "(word_of_nat k :: u8) AND 0x80 = 0 \<longleftrightarrow> \<not> bit k 7"
    by (simp add: bit_eq_iff [of "(word_of_nat k :: u8) AND 0x80"] bit_simps bit_of_nat_word_iff)
      (auto dest: spec [where x = 7])
  have "k div 128 < 2" using assms by simp
  then have "bit k 7 \<longleftrightarrow> k div 128 = 1" by (auto simp: bit_iff_odd elim: oddE)
  then show ?thesis using assms flag by (auto simp: div_eq_0_iff)
qed

lemma join_groups:
  "(word_of_nat z :: i64) = word_of_nat (z mod 128) OR push_bit 7 (word_of_nat (z div 128))"
  by (intro bit_eqI) (auto simp: bit_simps bit_of_nat_word_iff bit_group_low bit_group_high)

section \<open>The loops compute the wire format\<close>

lemma leb128_short: "z < 128 \<Longrightarrow> leb128 z = [word_of_nat z]"
  by (subst leb128.simps) simp

lemma leb128_long: "128 \<le> z \<Longrightarrow> leb128 z = word_of_nat (z mod 128 + 128) # leb128 (z div 128)"
  by (subst leb128.simps) (simp del: of_nat_add)

lemma length_leb128_pos: "0 < length (leb128 z)"
  by (cases "z < 128") (simp_all add: leb128_short leb128_long)

lemma writes_variant_loop:
  "z < 2 ^ 32 \<Longrightarrow> writes (variant_encode_loop (word_of_nat z)) (leb128 z)"
proof (induction z rule: leb128.induct)
  case (1 z)
  show ?case
  proof (cases "z < 128")
    case True
    then have "variant_encode_loop (word_of_nat z) d =
        (if remaining_mut d < 1 then EErr (IoErr UnexpectedEof) d
         else EOk (put_slice [word_of_nat z] d))" for d
      using cont_test [OF 1(2)] by (subst variant_encode_loop.simps) (auto simp: emit_last)
    then show ?thesis
      using writes_guarded_put [of "[word_of_nat z]" 1] True by (simp add: leb128_short writes_def)
  next
    case False
    have "z div 128 < 2 ^ 32" using 1(2) by simp
    then have "writes (variant_encode_loop (word_of_nat (z div 128))) (leb128 (z div 128))"
      using 1(1) False by simp
    then have "writes (\<lambda>d. if remaining_mut d < 1 then EErr (IoErr UnexpectedEof) d
                     else variant_encode_loop (word_of_nat (z div 128))
                            (put_slice [word_of_nat (z mod 128 + 128)] d))
              ([word_of_nat (z mod 128 + 128)] @ leb128 (z div 128))"
      by (intro writes_guarded_seq) simp_all
    moreover have "variant_encode_loop (word_of_nat z) =
        (\<lambda>d. if remaining_mut d < 1 then EErr (IoErr UnexpectedEof) d
             else variant_encode_loop (word_of_nat (z div 128))
                    (put_slice [word_of_nat (z mod 128 + 128)] d))"
      using cont_test [OF 1(2)] shift_group [of z] emit_group [of z] False 1(2)
      by (intro ext, subst variant_encode_loop.simps) (simp del: of_nat_add)
    ultimately show ?thesis using False by (simp add: leb128_long del: of_nat_add)
  qed
qed

lemma variant_size_loop_leb128:
  "z < 2 ^ 32 \<Longrightarrow> variant_size_loop (word_of_nat z) n = Some (n + length (leb128 z) - 1)"
proof (induction z arbitrary: n rule: leb128.induct)
  case (1 z)
  show ?case
  proof (cases "z < 128")
    case True
    then show ?thesis
      using cont_test [OF 1(2)] by (subst variant_size_loop.simps) (simp add: leb128_short)
  next
    case False
    have "z div 128 < 2 ^ 32" using 1(2) by simp
    then have "variant_size_loop (word_of_nat (z div 128)) (n + 1) = Some (n + length (leb128 (z div 128)))"
      using 1(1) False by simp
    then show ?thesis
      using cont_test [OF 1(2)] shift_group [of z] False 1(2)
      by (subst variant_size_loop.simps) (simp add: leb128_long)
  qed
qed

lemma decode_loop_leb128:
  "z * 2 ^ s < 2 ^ 64 \<Longrightarrow> s < 64 \<Longrightarrow>
   varint_decode_loop num s (leb128 z @ r) =
     (Inr (num OR push_bit s (word_of_nat z), s + 7 * length (leb128 z)), r)"
proof (induction z arbitrary: num s rule: leb128.induct)
  case (1 z)
  show ?case
  proof (cases "z < 128")
    case True
    then show ?thesis
      using 1(3) read_flag [of z] read_group [of z] by (simp add: leb128_short Let_def)
  next
    case False
    have step: "z div 128 * 2 ^ (s + 7) < 2 ^ 64"
    proof -
      have "z div 128 * 2 ^ (s + 7) = z div 128 * 128 * 2 ^ s" by (simp add: power_add)
      also have "\<dots> \<le> z * 2 ^ s" by simp
      finally show ?thesis using 1(2) by linarith
    qed
    moreover have "s + 7 < 64"
    proof -
      have "1 * 2 ^ (s + 7) \<le> z div 128 * (2 ^ (s + 7) :: nat)" using False by (intro mult_le_mono1) simp
      then have "(2::nat) ^ (s + 7) < 2 ^ 64" using step by linarith
      then show ?thesis by (rule power_less_imp_less_exp [rotated]) simp
    qed
    moreover have "(num OR push_bit s (word_of_nat (z mod 128))) OR push_bit (s + 7) (word_of_nat (z div 128))
                     = num OR push_bit s (word_of_nat z :: i64)"
      using join_groups [of z] by (simp add: or.assoc push_bit_or push_bit_push_bit add.commute)
    ultimately show ?thesis
      using 1(1,3) False read_flag [of "z mod 128 + 128"] read_group [of "z mod 128 + 128"]
      by (simp add: leb128_long Let_def del: of_nat_add)
  qed
qed

section \<open>Zigzag\<close>

lemma zigzag_bound: "- (2 ^ k) \<le> n \<Longrightarrow> n < 2 ^ k \<Longrightarrow> zigzag n < 2 ^ (k + 1)"
proof -
  assume n: "- (2 ^ k) \<le> n" "n < 2 ^ k"
  have "int (zigzag n) < 2 ^ (k + 1)"
    using n by (auto simp: zigzag_def)
  then show ?thesis by (metis of_nat_less_iff of_nat_numeral of_nat_power)
qed

lemma sint_high_part:
  assumes "ok_varint v"
  shows "signed_drop_bit 31 v = (if sint v \<ge> 0 then 0 else - 1)"
proof -
  have "sint v div 2 ^ 31 = (if sint v \<ge> 0 then 0 else - 1)"
    using assms by (auto simp: ok_varint_def div_pos_pos_trivial intro: div_pos_neg_trivial)
  then have "sint (signed_drop_bit 31 v) = sint (if sint v \<ge> 0 then 0 else - 1 :: i64)"
    by (simp add: sint_signed_drop_bit_eq drop_bit_eq_div)
  then show ?thesis by (rule signed_word_eqI)
qed

lemma zigzag_i64_eq:
  assumes "ok_varint v"
  shows "zigzag_i64 v = word_of_nat (zigzag (sint v))"
proof (cases "sint v \<ge> 0")
  case True
  then have "zigzag_i64 v = 2 * v"
    using assms by (simp add: zigzag_i64_def sint_high_part push_bit_eq_mult)
  moreover have "(word_of_nat (zigzag (sint v)) :: i64) = word_of_int (2 * sint v)"
    using True by (simp add: zigzag_def word_of_nat_eq_iff)
  ultimately show ?thesis by simp
next
  case False
  then have "zigzag_i64 v = - 2 * v - 1"
    using assms by (simp add: zigzag_i64_def sint_high_part push_bit_eq_mult not_eq_complement)
  moreover have "(word_of_nat (zigzag (sint v)) :: i64) = word_of_int (- 2 * sint v - 1)"
    using False by (simp add: zigzag_def word_of_nat_eq_iff)
  ultimately show ?thesis by simp
qed

lemma unzigzag:
  assumes "- (2 ^ 62) \<le> sint v" "sint v < 2 ^ 62"
  shows "signed_drop_bit 1 (word_of_nat (zigzag (sint v)) :: i64) XOR
           - (word_of_nat (zigzag (sint v)) AND 1) = v"
proof -
  let ?z = "zigzag (sint v)"
  have z: "?z < 2 ^ 63" using zigzag_bound [of 62 "sint v"] assms by simp
  have "signed_drop_bit 1 (word_of_nat ?z :: i64) = word_of_nat (?z div 2)"
    using bit_nat_bound [OF z]
    by (intro bit_eqI) (auto simp: bit_signed_drop_bit_iff bit_of_nat_word_iff simp flip: bit_Suc)
  moreover have "(word_of_nat ?z :: i64) AND 1 = word_of_nat (?z mod 2)"
    by (intro bit_eqI) (auto simp: bit_simps bit_of_nat_word_iff bit_0)
  ultimately have eq: "signed_drop_bit 1 (word_of_nat ?z :: i64) XOR - (word_of_nat ?z AND 1) =
      word_of_nat (?z div 2) XOR - word_of_nat (?z mod 2)" by simp
  show ?thesis
  proof (cases "sint v \<ge> 0")
    case True
    then have "?z div 2 = nat (sint v)" "?z mod 2 = 0" by (simp_all add: zigzag_def nat_mult_distrib)
    then show ?thesis using True eq by simp
  next
    case False
    then have "?z = 2 * nat (- sint v - 1) + 1" by (simp add: zigzag_def)
    then have half: "?z div 2 = nat (- sint v - 1)" "?z mod 2 = 1" by simp_all
    have "(word_of_nat (?z div 2) :: i64) = word_of_int (- sint v - 1)"
      using False by (simp add: half)
    then show ?thesis using eq half by (simp add: not_eq_complement)
  qed
qed

section \<open>Contract of the varint implementations\<close>

lemma varint_decode_wire:
  assumes "- (2 ^ 62) \<le> sint v" "sint v < 2 ^ 62"
  shows "varint_decode (wire_varint v @ r) = (Inr (v, length (wire_varint v)), r)"
proof -
  have "zigzag (sint v) < 2 ^ 63" using zigzag_bound [of 62 "sint v"] assms by simp
  then show ?thesis
    using decode_loop_leb128 [of "zigzag (sint v)" 0 0 r] unzigzag [OF assms]
    by (simp add: varint_decode_def wire_varint_def)
qed

lemma varint_decode_loop_prefix:
  "n < length (leb128 z) \<Longrightarrow> varint_decode_loop num s (take n (leb128 z)) = (Inl (IoErr UnexpectedEof), [])"
proof (induction z arbitrary: num s n rule: leb128.induct)
  case (1 z)
  show ?case
  proof (cases n)
    case (Suc m)
    have z: "128 \<le> z" using 1(2) Suc by (cases "z < 128") (simp_all add: leb128_short)
    then show ?thesis
      using 1 Suc read_flag [of "z mod 128 + 128"] by (simp add: leb128_long Let_def del: of_nat_add)
  qed simp
qed

interpretation c_varint: strict_codec venc_i64 vdec_i64 wire_varint ok_varint
proof (rule strict_codecI, rule codecI)
  fix v
  assume v: "ok_varint v"
  then have z: "zigzag (sint v) < 2 ^ 32"
    using zigzag_bound [of 31 "sint v"] by (simp add: ok_varint_def)
  show "write_size venc_i64 v = Some (length (wire_varint v))"
    using variant_size_loop_leb128 [OF z, of 1] v
    by (simp add: venc_i64_def variant_size_def wire_varint_def zigzag_i64_eq)
  show "writes (encode venc_i64 v) (wire_varint v)"
    using writes_variant_loop [OF z] v
    by (simp add: venc_i64_def variant_encode_def wire_varint_def zigzag_i64_eq writes_def)
  show "reads (decode vdec_i64) (initial vdec_i64) (wire_varint v) v"
    using varint_decode_wire [of v] v by (simp add: reads_def vdec_i64_def ok_varint_def)
  show "rejects (decode vdec_i64) (initial vdec_i64) (wire_varint v)"
    by (auto simp: rejects_def vdec_i64_def varint_decode_def wire_varint_def varint_decode_loop_prefix)
qed

text \<open>The size of a varint: one byte per seven bits of its code.\<close>

lemma length_leb128_le: "z < 128 ^ k \<Longrightarrow> 0 < k \<Longrightarrow> length (leb128 z) \<le> k"
proof (induction z arbitrary: k rule: leb128.induct)
  case (1 z)
  show ?case
  proof (cases "z < 128")
    case False
    obtain j where k: "k = Suc j" "0 < j"
    proof (cases k)
      case (Suc j)
      then show ?thesis using that [of j] 1(2) False by (cases j) auto
    qed (use 1(3) in simp)
    then have "z div 128 < 128 ^ j" using 1(2) by (simp add: less_mult_imp_div_less mult.commute)
    then show ?thesis using 1(1) False k by (simp add: leb128_long)
  qed (use 1 in \<open>simp add: leb128_short\<close>)
qed

lemma wire_varint_max: "ok_varint v \<Longrightarrow> length (wire_varint v) \<le> 5"
  using zigzag_bound [of 31 "sint v"] length_leb128_le [of "zigzag (sint v)" 5]
  by (simp add: wire_varint_def ok_varint_def)

section \<open>Properties\<close>

text \<open>
  C29. A number in the 32-bit range survives the varint encoding in any
  destination with room for it: the encoder appends at most five bytes, as
  many as \<open>variant_size\<close> announces, and the decoder reads the number back,
  reports the number of bytes, and leaves what follows in the source.
\<close>

theorem varint_roundtrip:
  assumes "- (2 ^ 31) \<le> sint v" "sint v < 2 ^ 31" "5 \<le> remaining_mut d"
  shows "\<exists>w. variant_encode v d = EOk (put_slice w d) \<and> variant_size v = Some (length w) \<and>
             length w \<le> 5 \<and> varint_decode (w @ r) = (Inr (v, length w), r)"
proof -
  have v: "ok_varint v" using assms by (simp add: ok_varint_def)
  have "length (wire_varint v) \<le> room d"
    using wire_varint_max [OF v] assms(3) by simp
  then have "variant_encode v d = EOk (put_slice (wire_varint v) d)"
    using c_varint.encode_law [OF v] by (simp add: venc_i64_def)
  moreover have "variant_size v = Some (length (wire_varint v))"
    using c_varint.size_law [OF v] by (simp add: venc_i64_def)
  moreover have "varint_decode (wire_varint v @ r) = (Inr (v, length (wire_varint v)), r)"
    using assms by (intro varint_decode_wire) simp_all
  ultimately show ?thesis using wire_varint_max [OF v] by blast
qed

theorem varint_roundtrip_witness:
  "(5::nat) \<le> remaining_mut \<lparr>written = [], room = 8\<rparr> \<and>
   (\<exists>w. variant_encode (- 134217729) \<lparr>written = [], room = 8\<rparr> = EOk (put_slice w \<lparr>written = [], room = 8\<rparr>) \<and>
        variant_size (- 134217729) = Some (length w) \<and> length w \<le> 5 \<and>
        varint_decode (w @ [7]) = (Inr (- 134217729, length w), [7]))"
  using varint_roundtrip [of "- 134217729" "\<lparr>written = [], room = 8\<rparr>" "[7]"] by simp

section \<open>Numbers beyond 32 bits\<close>

text \<open>
  The groups the loops write for any code below \<open>2\<^sup>63\<close>: the test for another
  group looks at the low 32 bits only.
\<close>

fun varint_groups :: "nat \<Rightarrow> bytes" where
  "varint_groups z = (if z mod 2 ^ 32 < 128 then [word_of_nat (z mod 128)]
                      else word_of_nat (z mod 128 + 128) # varint_groups (z div 128))"

declare varint_groups.simps [simp del]

lemma cont_test_low: "(word_of_nat z :: i64) AND 0xffffff80 = 0 \<longleftrightarrow> z mod 2 ^ 32 < 128"
proof -
  have "bit (z mod 2 ^ 32) n \<longleftrightarrow> n < 32 \<and> bit z n" for n
    using bit_take_bit_iff [of 32 z n] by (simp add: take_bit_eq_mod)
  then have "(word_of_nat z :: i64) AND 0xffffff80 = word_of_nat (z mod 2 ^ 32) AND 0xffffff80"
    by (intro bit_eqI) (auto simp: bit_and_iff bit_cont_mask bit_of_nat_word_iff)
  then show ?thesis using cont_test [of "z mod 2 ^ 32"] by simp
qed

lemma emit_last_low: "z mod 2 ^ 32 < 128 \<Longrightarrow> (ucast (word_of_nat z :: i64) :: u8) = word_of_nat (z mod 128)"
proof -
  assume z: "z mod 2 ^ 32 < 128"
  have "z mod 256 = z mod 2 ^ 32 mod 256" by (simp add: mod_mod_cancel)
  also have "\<dots> = z mod 2 ^ 32 mod 128" using z by simp
  also have "\<dots> = z mod 128" by (simp add: mod_mod_cancel)
  finally have "(word_of_nat z :: u8) = word_of_nat (z mod 128)" by (simp add: word_of_nat_eq_iff take_bit_eq_mod)
  then show ?thesis by (simp add: emit_last)
qed

lemma varint_groups_length: "z < 2 ^ k \<Longrightarrow> 7 * length (varint_groups z) \<le> k + 7"
proof (induction z arbitrary: k rule: varint_groups.induct)
  case (1 z)
  show ?case
  proof (cases "z mod 2 ^ 32 < 128")
    case False
    then have "128 \<le> z" by (meson le_trans mod_less_eq_dividend not_less)
    then have "(2::nat) ^ 7 < 2 ^ k" using 1(2) by simp
    then have k: "7 < k" by (rule power_less_imp_less_exp [rotated]) simp
    have "(2::nat) ^ k = 2 ^ (k - 7) * 128" using k power_add [of "2::nat" "k - 7" 7] by simp
    then have "z div 128 < 2 ^ (k - 7)" using 1(2) by (intro less_mult_imp_div_less) simp
    then have "7 * length (varint_groups (z div 128)) \<le> k - 7 + 7" by (rule 1(1) [OF False])
    then show ?thesis using k False by (subst varint_groups.simps) simp
  qed (simp add: varint_groups.simps)
qed

lemma writes_varint_groups:
  "z < 2 ^ 63 \<Longrightarrow> writes (variant_encode_loop (word_of_nat z)) (varint_groups z)"
proof (induction z rule: varint_groups.induct)
  case (1 z)
  show ?case
  proof (cases "z mod 2 ^ 32 < 128")
    case True
    then have "variant_encode_loop (word_of_nat z) d =
        (if remaining_mut d < 1 then EErr (IoErr UnexpectedEof) d
         else EOk (put_slice [word_of_nat (z mod 128)] d))" for d
      using cont_test_low [of z] emit_last_low [OF True] by (subst variant_encode_loop.simps) auto
    then show ?thesis
      using writes_guarded_put [of "[word_of_nat (z mod 128)]" 1] True by (simp add: varint_groups.simps [of z] writes_def)
  next
    case False
    have "z div 128 < 2 ^ 63" using 1(2) by simp
    then have "writes (\<lambda>d. if remaining_mut d < 1 then EErr (IoErr UnexpectedEof) d
                     else variant_encode_loop (word_of_nat (z div 128))
                            (put_slice [word_of_nat (z mod 128 + 128)] d))
              ([word_of_nat (z mod 128 + 128)] @ varint_groups (z div 128))"
      using 1(1) False by (intro writes_guarded_seq) simp_all
    moreover have "variant_encode_loop (word_of_nat z) =
        (\<lambda>d. if remaining_mut d < 1 then EErr (IoErr UnexpectedEof) d
             else variant_encode_loop (word_of_nat (z div 128))
                    (put_slice [word_of_nat (z mod 128 + 128)] d))"
      using cont_test_low [of z] shift_group [OF 1(2)] emit_group [of z] False
      by (intro ext, subst variant_encode_loop.simps) (simp del: of_nat_add)
    ultimately show ?thesis using False by (simp add: varint_groups.simps [of z] del: of_nat_add)
  qed
qed

lemma variant_size_groups:
  "z < 2 ^ 63 \<Longrightarrow> variant_size_loop (word_of_nat z) n = Some (n + length (varint_groups z) - 1)"
proof (induction z arbitrary: n rule: varint_groups.induct)
  case (1 z)
  show ?case
  proof (cases "z mod 2 ^ 32 < 128")
    case True
    then show ?thesis
      using cont_test_low [of z] by (subst variant_size_loop.simps) (simp add: varint_groups.simps)
  next
    case False
    have "z div 128 < 2 ^ 63" using 1(2) by simp
    then have "variant_size_loop (word_of_nat (z div 128)) (n + 1) = Some (n + length (varint_groups (z div 128)))"
      using 1(1) False by simp
    then show ?thesis
      using cont_test_low [of z] shift_group [OF 1(2)] False
      by (subst variant_size_loop.simps) (simp add: varint_groups.simps [of z])
  qed
qed

lemma take_group:
  "(word_of_nat (take_bit (7 * Suc k) z) :: i64) =
     word_of_nat (z mod 128) OR push_bit 7 (word_of_nat (take_bit (7 * k) (z div 128)))"
  by (intro bit_eqI) (auto simp: bit_simps bit_of_nat_word_iff bit_group_low bit_group_high)

lemma decode_varint_groups:
  "s + 7 * length (varint_groups z) \<le> 70 \<Longrightarrow>
   varint_decode_loop num s (varint_groups z @ r) =
     (Inr (num OR push_bit s (word_of_nat (take_bit (7 * length (varint_groups z)) z)), s + 7 * length (varint_groups z)), r)"
proof (induction z arbitrary: num s rule: varint_groups.induct)
  case (1 z)
  show ?case
  proof (cases "z mod 2 ^ 32 < 128")
    case True
    then have "s < 64" using 1(2) by (simp add: varint_groups.simps)
    then show ?thesis
      using True read_flag [of "z mod 128"] read_group [of "z mod 128"]
      by (simp add: varint_groups.simps [of z] Let_def take_bit_eq_mod)
  next
    case False
    let ?k = "length (varint_groups (z div 128))"
    have len: "length (varint_groups z) = Suc ?k" using False by (simp add: varint_groups.simps [of z])
    have "0 < ?k" by (simp add: varint_groups.simps [of "z div 128"])
    then have s: "s < 64" using 1(2) len by simp
    have IH: "varint_decode_loop num' (s + 7) (varint_groups (z div 128) @ r) =
        (Inr (num' OR push_bit (s + 7) (word_of_nat (take_bit (7 * ?k) (z div 128))), s + 7 + 7 * ?k), r)" for num'
      using 1(1) [OF False, of "s + 7" num'] 1(2) len by simp
    have join: "(num OR push_bit s (word_of_nat (z mod 128))) OR push_bit (s + 7) (word_of_nat (take_bit (7 * ?k) (z div 128)))
        = num OR push_bit s (word_of_nat (take_bit (7 * Suc ?k) z) :: i64)"
      unfolding take_group by (simp add: or.assoc push_bit_or push_bit_push_bit add.commute)
    have "varint_decode_loop num s (varint_groups z @ r) =
        varint_decode_loop (num OR push_bit s (word_of_nat (z mod 128))) (s + 7) (varint_groups (z div 128) @ r)"
      using False s read_flag [of "z mod 128 + 128"] read_group [of "z mod 128 + 128"]
      by (simp add: varint_groups.simps [of z] Let_def del: of_nat_add)
    also have "\<dots> = (Inr (num OR push_bit s (word_of_nat (take_bit (7 * Suc ?k) z)), s + 7 + 7 * ?k), r)"
      unfolding IH join ..
    finally show ?thesis unfolding len by simp
  qed
qed

lemma bit_zigzag:
  fixes v :: i64
  shows "bit (push_bit 1 v XOR signed_drop_bit m v) n \<longleftrightarrow>
    n < 64 \<and> (0 < n \<and> bit v (n - 1)) \<noteq> bit v (if 64 - m \<le> n then 63 else m + n)"
proof (cases "n < 64")
  case True
  then show ?thesis
    by (simp only: bit_xor_iff bit_push_bit_iff bit_signed_drop_bit_iff possible_bit_word) (auto simp: Suc_le_eq)
next
  case False
  then show ?thesis using bit_imp_le_length [of "push_bit 1 v XOR signed_drop_bit m v" n] by auto
qed

lemma sign_div:
  fixes x c :: int
  assumes "- c \<le> x" "x < c" "0 < c"
  shows "x div c = (if 0 \<le> x then 0 else - 1)"
proof (cases "0 \<le> x")
  case False
  then have "x div c < 0" using assms(3) by (simp add: pos_imp_zdiv_neg_iff)
  moreover have "- c div c \<le> x div c" using assms by (intro zdiv_mono1)
  moreover have "- c div c = - 1" using nonzero_mult_div_cancel_right [of c "- 1"] assms(3) by simp
  ultimately show ?thesis using False by simp
qed (use assms in \<open>simp add: div_pos_pos_trivial\<close>)

lemma top_bits_equal:
  fixes v :: i64
  assumes "- (2 ^ 62) \<le> sint v" "sint v < 2 ^ 62"
  shows "bit v 62 = bit v 63"
proof -
  have "bit v 62 = odd (sint v div 2 ^ 62)" "bit v 63 = odd (sint v div 2 ^ 63)"
    using bit_sint_iff [of v 62] bit_sint_iff [of v 63] by (simp_all add: bit_iff_odd)
  moreover have "sint v div 2 ^ 62 = (if 0 \<le> sint v then 0 else - 1)" "sint v div 2 ^ 63 = (if 0 \<le> sint v then 0 else - 1)"
    using assms sign_div [of "2 ^ 62" "sint v"] sign_div [of "2 ^ 63" "sint v"] by simp_all
  ultimately show ?thesis by simp
qed

lemma high_bits_sign:
  fixes v :: i64
  assumes "- (2 ^ 31) \<le> sint v \<and> sint v < 2 ^ 31 \<longleftrightarrow> False"
  shows "signed_drop_bit 31 v \<noteq> signed_drop_bit 63 v"
proof
  assume eq: "signed_drop_bit 31 v = signed_drop_bit 63 v"
  have "sint v div 2 ^ 31 = sint v div 2 ^ 63"
    using arg_cong [OF eq, of sint] by (simp add: sint_signed_drop_bit_eq drop_bit_eq_div)
  moreover have "sint v div 2 ^ 63 \<in> {0, - 1}"
  proof -
    have "- (2 ^ 63) \<le> sint v" "sint v < 2 ^ 63" using sint_range_size [of v] by (simp_all add: word_size)
    then show ?thesis using sign_div [of "2 ^ 63" "sint v"] by simp
  qed
  moreover have "sint v div 2 ^ 31 * 2 ^ 31 + sint v mod 2 ^ 31 = sint v" "0 \<le> sint v mod 2 ^ 31" "sint v mod 2 ^ 31 < 2 ^ 31"
    by simp_all
  ultimately show False using assms by auto
qed

lemma truncated_code_differs:
  fixes v :: i64
  assumes "\<not> (- (2 ^ 31) \<le> sint v \<and> sint v < 2 ^ 31)" "7 \<le> k"
  shows "take_bit k (zigzag_i64 v) \<noteq> push_bit 1 v XOR signed_drop_bit 63 v"
proof
  assume eq: "take_bit k (zigzag_i64 v) = push_bit 1 v XOR signed_drop_bit 63 v"
  have code: "bit (push_bit 1 v XOR signed_drop_bit 63 v) n \<longleftrightarrow> n < 64 \<and> ((0 < n \<and> bit v (n - 1)) \<noteq> bit v 63)" for n
    unfolding bit_zigzag by (cases "n = 0") auto
  have sign: "bit v m \<longleftrightarrow> bit v 63" if "k \<le> Suc m" "Suc m < 64" for m
    using arg_cong [OF eq, of "\<lambda>x. bit x (Suc m)"] code [of "Suc m"] that by (auto simp: bit_take_bit_iff)
  have high: "bit (zigzag_i64 v) n = False" if n: "k \<le> n" "n < 64" for n
  proof -
    obtain m where m: "n = Suc m" using n(1) assms(2) by (cases n) auto
    have "bit v m = bit v 63" using sign that m by simp
    moreover have "bit v (if 64 \<le> n + 31 then 63 else n + 31) = bit v 63"
      using sign [of "n + 31"] n by (cases "n = 32") auto
    ultimately show ?thesis
      unfolding zigzag_i64_def bit_zigzag using that m by (auto split: if_splits)
  qed
  have "zigzag_i64 v = push_bit 1 v XOR signed_drop_bit 63 v"
  proof (rule bit_word_eqI)
    fix n
    assume "n < LENGTH(64)"
    then show "bit (zigzag_i64 v) n = bit (push_bit 1 v XOR signed_drop_bit 63 v) n"
      using arg_cong [OF eq, of "\<lambda>x. bit x n"] high [of n] by (cases "n < k") (auto simp: bit_take_bit_iff)
  qed
  then have "push_bit 1 v XOR (push_bit 1 v XOR signed_drop_bit 31 v) = push_bit 1 v XOR (push_bit 1 v XOR signed_drop_bit 63 v)"
    by (simp add: zigzag_i64_def)
  then have "signed_drop_bit 31 v = signed_drop_bit 63 v" by (simp flip: xor.assoc)
  with high_bits_sign [of v] assms(1) show False by blast
qed

lemma unzigzag_only:
  fixes x :: i64
  assumes "x = 0 \<or> \<not> bit x 63" "signed_drop_bit 1 x XOR - (x AND 1) = v"
  shows "x = push_bit 1 v XOR signed_drop_bit 63 v"
proof (rule bit_word_eqI)
  fix n
  assume n: "n < LENGTH(64)"
  have top: "\<not> bit x 63" using assms(1) by auto
  have m: "bit (- (x AND 1)) k \<longleftrightarrow> k < 64 \<and> bit x 0" for k
    by (cases "bit x 0") (auto simp: and_one_eq mod_2_eq_odd bit_0 bit_minus_1_iff bit_imp_le_length)
  have v: "bit v k \<longleftrightarrow> (k < 63 \<and> bit x (Suc k)) \<noteq> bit x 0" if "k < 64" for k
    unfolding assms(2) [symmetric] bit_xor_iff bit_signed_drop_bit_iff m using top that
    by (cases "k = 63") auto
  show "bit x n = bit (push_bit 1 v XOR signed_drop_bit 63 v) n"
    unfolding bit_zigzag using n v [of "n - 1"] v [of 63] top by (cases n) auto
qed

text \<open>
  C39. No number outside the 32-bit range survives: the encoder zigzags with
  \<open>num >> 31\<close> and tests for further groups with a 32-bit mask, although the
  number has 64 bits. From \<open>2\<^sup>31\<close> up to \<open>2\<^sup>62\<close>, and likewise for negative
  numbers, it writes without an error bytes that decode to a different number,
  and the size computation agrees with those bytes.
\<close>

theorem variant_encode_beyond_i32:
  assumes "- (2 ^ 62) \<le> sint v" "sint v < 2 ^ 62" "\<not> (- (2 ^ 31) \<le> sint v \<and> sint v < 2 ^ 31)" "10 \<le> remaining_mut d"
  shows "\<exists>w u. variant_encode v d = EOk (put_slice w d) \<and> variant_size v = Some (length w) \<and>
               varint_decode (w @ r) = (Inr (u, length w), r) \<and> u \<noteq> v"
proof -
  let ?z = "unat (zigzag_i64 v)" and ?w = "varint_groups (unat (zigzag_i64 v))"
  let ?x = "word_of_nat (take_bit (7 * length ?w) ?z) :: i64"
  have top: "\<not> bit (zigzag_i64 v) 63"
    using assms(1,2) top_bits_equal [of v] unfolding zigzag_i64_def bit_zigzag by simp
  have z: "?z < 2 ^ 63"
  proof (rule ccontr)
    assume "\<not> ?z < 2 ^ 63"
    then have "?z div 2 ^ 63 = 1" using unsigned_less [of "zigzag_i64 v", where ?'a = nat] by (simp add: div_nat_eqI)
    then have "bit ?z 63" by (simp add: bit_iff_odd)
    then show False using top by (simp add: bit_unsigned_iff)
  qed
  have len: "7 * length ?w \<le> 70" using varint_groups_length [OF z] by simp
  have x: "?x = take_bit (7 * length ?w) (zigzag_i64 v)"
    by (intro bit_eqI) (auto simp: bit_simps bit_of_nat_word_iff)
  have "variant_encode v d = EOk (put_slice ?w d)"
    using writes_varint_groups [OF z] len assms(4) by (auto simp: writes_def variant_encode_def)
  moreover have "variant_size v = Some (length ?w)"
    using variant_size_groups [OF z, of 1] by (simp add: variant_size_def)
  moreover have "varint_decode (?w @ r) = (Inr (signed_drop_bit 1 ?x XOR - (?x AND 1), length ?w), r)"
    using decode_varint_groups [of 0 ?z 0 r] len by (simp add: varint_decode_def)
  moreover have "signed_drop_bit 1 ?x XOR - (?x AND 1) \<noteq> v"
  proof
    assume "signed_drop_bit 1 ?x XOR - (?x AND 1) = v"
    moreover have "\<not> bit ?x 63" using top by (simp add: x bit_take_bit_iff)
    ultimately have "?x = push_bit 1 v XOR signed_drop_bit 63 v" by (intro unzigzag_only) simp_all
    moreover have "7 \<le> 7 * length ?w" by (simp add: varint_groups.simps [of ?z])
    ultimately show False using truncated_code_differs [OF assms(3)] unfolding x by blast
  qed
  ultimately show ?thesis by blast
qed

theorem variant_encode_beyond_i32_witness:
  "\<exists>w u. variant_encode (2 ^ 31) vec_sink = EOk (put_slice w vec_sink) \<and> varint_decode (w @ []) = (Inr (u, length w), []) \<and> u \<noteq> 2 ^ 31"
  using variant_encode_beyond_i32 [of "2 ^ 31" vec_sink "[]"] by (simp add: vec_sink_def) blast

text \<open>
  The size loop shifts arithmetically, so it never ends once all bits the
  mask looks at come from a set sign bit.
\<close>

lemma variant_size_loop_all_ones: "variant_size_loop (- 1) n = None"
proof (cases "variant_size_loop (- 1) n")
  case (Some y)
  have "(- 1 :: i64) \<noteq> - 1"
    by (rule variant_size_loop.raw_induct [OF _ Some, where P = "\<lambda>v n y. v \<noteq> - 1"])
      (fastforce split: if_splits)
  then show ?thesis by simp
qed

text \<open>
  C40. For some numbers the size computation does not return at all:
  \<open>2\<^sup>62 + 2\<^sup>40\<close> is one.
\<close>

theorem variant_size_diverges: "variant_size (2 ^ 62 + 2 ^ 40) = None"
proof -
  have "variant_size_loop v n = variant_size_loop (signed_drop_bit 7 v) (n + 1)"
    if "v AND 0xffffff80 \<noteq> 0" for v n
    using that by (subst variant_size_loop.simps) simp
  note step = this [of "numeral w" for w] this [of "- numeral w" for w]
  show ?thesis
    by (simp add: variant_size_def zigzag_i64_def step variant_size_loop_all_ones)
qed

end
