(* ===== verification/Record_Data.thy ===== *)
theory Record_Data
  imports Varint
begin

text \<open>
  Records: \<open>fluvio-protocol/src/record/data.rs\<close> up to the record itself, that is
  \<open>RecordKey\<close>, \<open>RecordData\<close>, \<open>RecordHeader\<close>, \<open>Record\<close> and \<open>ConsumerRecord\<close> with
  their encoders and decoders. Record sets are in the theory of batches.
  \<open>Bytes\<close> values are byte lists; offsets and timestamps are 64-bit words.
\<close>

section \<open>Keys and data\<close>

type_synonym RecordData = bytes

datatype RecordKey = NullKey | Key RecordData

definition into_option :: "RecordKey \<Rightarrow> RecordData option" where
  "into_option k = (case k of Key key \<Rightarrow> Some key | NullKey \<Rightarrow> None)"

definition from_option :: "RecordData option \<Rightarrow> RecordKey" where
  "from_option key = (case key of Some key \<Rightarrow> Key key | None \<Rightarrow> NullKey)"

definition enc_record_data :: "RecordData encoder" where
  "enc_record_data = \<lparr>
     write_size = (\<lambda>v. foldl (\<lambda>sum val. add_size sum (write_size enc_u8 val))
                             (write_size venc_i64 (word_of_nat (length v))) v),
     encode = (\<lambda>v d. ebind (encode venc_i64 (word_of_nat (length v)) d) (encode_all enc_u8 v))\<rparr>"

text \<open>
  Allocating a buffer of a capacity above \<open>isize::MAX\<close> panics. A source
  with fewer bytes than announced yields a shorter value and no error.
\<close>

definition dec_record_data :: "RecordData decoder" where
  "dec_record_data = \<lparr>
     initial = [],
     decode = (\<lambda>self src. case decode vdec_i64 0 src of
         DErr e _ r \<Rightarrow> DErr e self r
       | DOk len r \<Rightarrow>
           if unat len \<ge> 2 ^ 63 then DErr Panic self r
           else DOk (take (unat len) r) (drop (unat len) r))\<rparr>"

section \<open>Record header\<close>

record RecordHeader =
  attributes_r :: i8
  timestamp_delta :: i64
  offset_delta :: i64

definition default_record_header :: RecordHeader where
  "default_record_header = \<lparr>attributes_r = 0, timestamp_delta = 0, offset_delta = 0\<rparr>"

definition set_offset_delta_r :: "i64 \<Rightarrow> RecordHeader \<Rightarrow> RecordHeader" where
  "set_offset_delta_r delta h = h\<lparr>offset_delta := delta\<rparr>"

definition set_timestamp_delta :: "i64 \<Rightarrow> RecordHeader \<Rightarrow> RecordHeader" where
  "set_timestamp_delta delta h = h\<lparr>timestamp_delta := delta\<rparr>"

definition add_base_offset_h :: "i64 \<Rightarrow> RecordHeader \<Rightarrow> RecordHeader" where
  "add_base_offset_h relative_base_offset h = h\<lparr>offset_delta := offset_delta h + relative_base_offset\<rparr>"

definition enc_record_header :: "i16 \<Rightarrow> RecordHeader encoder" where
  "enc_record_header version = struct_enc
     [versioned_enc 0 None version (field_enc attributes_r enc_i8),
      field_enc timestamp_delta venc_i64,
      field_enc offset_delta venc_i64]"

definition dec_record_header :: "i16 \<Rightarrow> RecordHeader decoder" where
  "dec_record_header version = struct_dec default_record_header
     [versioned_dec 0 None version (field_dec attributes_r (\<lambda>a. attributes_r_update (\<lambda>_. a)) dec_i8),
      field_dec timestamp_delta (\<lambda>a. timestamp_delta_update (\<lambda>_. a)) vdec_i64,
      field_dec offset_delta (\<lambda>a. offset_delta_update (\<lambda>_. a)) vdec_i64]"

section \<open>Record\<close>

record 'b Record =
  preamble :: RecordHeader
  key_r :: "'b option"
  value_r :: 'b
  headers_r :: i64

definition record_new :: "RecordData \<Rightarrow> RecordData Record" where
  "record_new v = \<lparr>preamble = default_record_header, key_r = None, value_r = v, headers_r = 0\<rparr>"

definition record_new_key_value :: "RecordKey \<Rightarrow> RecordData \<Rightarrow> RecordData Record" where
  "record_new_key_value k v =
     \<lparr>preamble = default_record_header, key_r = into_option k, value_r = v, headers_r = 0\<rparr>"

definition add_base_offset :: "i64 \<Rightarrow> 'b Record \<Rightarrow> 'b Record" where
  "add_base_offset relative_base_offset r =
     r\<lparr>preamble := (preamble r)\<lparr>offset_delta := offset_delta (preamble r) + relative_base_offset\<rparr>\<rparr>"

text \<open>
  \<open>put_out\<close> is \<open>dest.put_slice(&out)\<close> without a guard: the buffer panics when
  \<open>out\<close> does not fit. \<open>into_vec\<close> runs an encoding on a fresh vector, whose
  error ends the whole encoding with the destination as it was.
\<close>

definition put_out :: "bytes \<Rightarrow> sink \<Rightarrow> eres" where
  "put_out out d = (if remaining_mut d < length out then EErr Panic d else EOk (put_slice out d))"

definition into_vec :: "eres \<Rightarrow> sink \<Rightarrow> (bytes \<Rightarrow> eres) \<Rightarrow> eres" where
  "into_vec res d k = (case res of EErr e _ \<Rightarrow> EErr e d | EOk out \<Rightarrow> k (written out))"

definition enc_record :: "i16 \<Rightarrow> 'b encoder \<Rightarrow> 'b Record encoder" where
  "enc_record version B = \<lparr>
     write_size = (\<lambda>r. do {
       inner_size \<leftarrow> add_size (add_size (add_size
           (write_size (enc_record_header version) (preamble r))
           (write_size (enc_option B) (key_r r)))
           (write_size B (value_r r)))
           (write_size venc_i64 (headers_r r));
       add_size (write_size venc_i64 (word_of_nat inner_size)) (Some inner_size) }),
     encode = (\<lambda>r d.
       into_vec (encode_fields
           [field_enc preamble (enc_record_header version), field_enc key_r (enc_option B),
            field_enc value_r B, field_enc headers_r venc_i64] r vec_sink) d
         (\<lambda>out. ebind (encode venc_i64 (word_of_nat (length out)) d) (put_out out)))\<rparr>"

definition dec_record :: "i16 \<Rightarrow> 'b decoder \<Rightarrow> 'b Record decoder" where
  "dec_record version B = \<lparr>
     initial = \<lparr>preamble = default_record_header, key_r = None, value_r = initial B, headers_r = 0\<rparr>,
     decode = (\<lambda>self src. case decode vdec_i64 0 src of
         DErr e _ r \<Rightarrow> DErr e self r
       | DOk len r \<Rightarrow>
           if int (length r) < sint len then DErr (IoErr UnexpectedEof) self r
           else decode_fields
             [field_dec preamble (\<lambda>a. preamble_update (\<lambda>_. a)) (dec_record_header version),
              field_dec key_r (\<lambda>a. key_r_update (\<lambda>_. a)) (dec_option B),
              field_dec value_r (\<lambda>a. value_r_update (\<lambda>_. a)) B,
              field_dec headers_r (\<lambda>a. headers_r_update (\<lambda>_. a)) vdec_i64] self r)\<rparr>"

section \<open>Consumer records\<close>

record ConsumerRecord =
  offset_c :: i64
  partition_c :: u32
  record_c :: "RecordData Record"
  timestamp_base :: i64

definition NO_TIMESTAMP :: i64 where
  "NO_TIMESTAMP = - 1"

definition timestamp_c :: "ConsumerRecord \<Rightarrow> i64" where
  "timestamp_c c = (if sint (timestamp_base c) \<le> 0 then NO_TIMESTAMP
                    else timestamp_base c + timestamp_delta (preamble (record_c c)))"

section \<open>Contracts\<close>

definition wire_record_data :: "RecordData \<Rightarrow> bytes" where
  "wire_record_data v = wire_varint (word_of_nat (length v)) @ v"

definition ok_record_data :: "RecordData \<Rightarrow> bool" where
  "ok_record_data v = (length v < 2 ^ 31)"

lemma ok_varint_length: "k < 2 ^ 31 \<Longrightarrow> ok_varint (word_of_nat k)"
  by (simp add: ok_varint_def sint_of_nat_word)

lemma concat_be_bytes_1: "concat (map (be_bytes 1) v) = (v :: bytes)"
proof -
  have "be_bytes 1 b = [b]" for b :: u8
  proof -
    have "unat b < 256" using unsigned_less [of b] by simp
    then show ?thesis by (simp add: be_bytes_def)
  qed
  then show ?thesis by (induction v) auto
qed

interpretation c_record_data: codec enc_record_data dec_record_data wire_record_data ok_record_data
proof (rule codecI)
  fix v :: RecordData
  assume v: "ok_record_data v"
  then have len: "ok_varint (word_of_nat (length v))" by (simp add: ok_record_data_def ok_varint_length)
  have "\<forall>b \<in> set v. write_size enc_u8 b = Some (length (be_bytes 1 b))"
    by (simp add: c_u8.size_law)
  from size_vec_foldl [OF this] show "write_size enc_record_data v = Some (length (wire_record_data v))"
    by (simp add: enc_record_data_def wire_record_data_def c_varint.size_law [OF len] concat_be_bytes_1 [simplified])
  have "writes (encode_all enc_u8 v) v"
    using c_u8.writes_encode_all [of v] by (simp only: concat_be_bytes_1) (simp add: list_all_iff)
  from writes_ebind [OF c_varint.writes_wire [OF len] this]
  show "writes (encode enc_record_data v) (wire_record_data v)"
    by (simp add: enc_record_data_def wire_record_data_def)
  have "unat (word_of_nat (length v) :: i64) = length v"
    using v by (simp add: ok_record_data_def unat_of_nat)
  moreover have "decode vdec_i64 0 (wire_varint (word_of_nat (length v)) @ r) = DOk (word_of_nat (length v)) r" for r
    using c_varint.decode_law [OF len] by (simp add: vdec_i64_def)
  ultimately show "reads (decode dec_record_data) (initial dec_record_data) (wire_record_data v) v"
    using v by (simp add: reads_def dec_record_data_def wire_record_data_def ok_record_data_def)
qed

definition wire_record_header :: "RecordHeader \<Rightarrow> bytes" where
  "wire_record_header h =
     be_bytes 1 (attributes_r h) @ wire_varint (timestamp_delta h) @ wire_varint (offset_delta h)"

definition ok_record_header :: "RecordHeader \<Rightarrow> bool" where
  "ok_record_header h = (ok_varint (timestamp_delta h) \<and> ok_varint (offset_delta h))"

lemma initial_simps [simp]:
  "initial dec_i8 = 0" "initial dec_u8 = 0" "initial dec_i16 = 0" "initial dec_u16 = 0"
  "initial dec_i32 = 0" "initial dec_u32 = 0" "initial dec_i64 = 0" "initial dec_u64 = 0"
  "initial vdec_i64 = 0" "initial (dec_option D) = None" "initial (dec_vec D) = []"
  by (simp_all add: dec_int_defs dec_fixed_def vdec_i64_def dec_option_def dec_vec_def)

lemma record_header_codec:
  assumes "sint version \<ge> 0"
  shows "strict_codec (enc_record_header version) (dec_record_header version)
           wire_record_header ok_record_header"
proof (rule strict_codecI, rule codecI)
  have v: "version_check 0 None version" using assms by (simp add: version_check_def)
  fix h :: RecordHeader
  assume h: "ok_record_header h"
  then have ok: "ok_varint (timestamp_delta h)" "ok_varint (offset_delta h)"
    by (simp_all add: ok_record_header_def)
  show "write_size (enc_record_header version) h = Some (length (wire_record_header h))"
    using ok v by (simp add: enc_record_header_def wire_record_header_def c_i8.size_law c_varint.size_law)
  show "writes (encode (enc_record_header version) h) (wire_record_header h)"
    unfolding enc_record_header_def wire_record_header_def struct_simps versioned_on [OF v]
    using ok by (intro write_field_intros c_i8.field_writes c_varint.field_writes) simp_all
  show "reads (decode (dec_record_header version)) (initial (dec_record_header version))
          (wire_record_header h) h"
    using ok v c_i8.decode_law c_varint.decode_law
    by (simp add: reads_def dec_record_header_def wire_record_header_def field_dec_def
        default_record_header_def)
  show "rejects (decode (dec_record_header version)) (initial (dec_record_header version))
          (wire_record_header h)"
    unfolding dec_record_header_def wire_record_header_def struct_simps versioned_on [OF v]
    by (rule reject_field_intros c_i8.field_rejects c_varint.field_rejects
          c_i8.field_reads c_varint.field_reads | simp add: default_record_header_def ok)+
qed

definition wire_record_body :: "('b \<Rightarrow> bytes) \<Rightarrow> 'b Record \<Rightarrow> bytes" where
  "wire_record_body w r =
     wire_record_header (preamble r) @ wire_option w (key_r r) @ w (value_r r) @ wire_varint (headers_r r)"

definition wire_record :: "('b \<Rightarrow> bytes) \<Rightarrow> 'b Record \<Rightarrow> bytes" where
  "wire_record w r =
     wire_varint (word_of_nat (length (wire_record_body w r))) @ wire_record_body w r"

definition ok_record :: "('b \<Rightarrow> bytes) \<Rightarrow> ('b \<Rightarrow> bool) \<Rightarrow> 'b Record \<Rightarrow> bool" where
  "ok_record w p r =
     (ok_record_header (preamble r) \<and> ok_option p (key_r r) \<and> p (value_r r) \<and>
      ok_varint (headers_r r) \<and> length (wire_record_body w r) < 2 ^ 31)"

lemma writes_put_out: "writes (put_out out) out"
  by (auto simp: writes_def put_out_def)

lemma writes_vec_sink:
  assumes "writes f w" "length w < 2 ^ 63"
  shows "f vec_sink = EOk (put_slice w vec_sink)" "written (put_slice w vec_sink) = w"
proof -
  have "length w \<le> room vec_sink" using assms(2) by (simp add: vec_sink_def)
  then show "f vec_sink = EOk (put_slice w vec_sink)" using assms(1) by (simp add: writes_def)
qed (simp add: vec_sink_def)

lemma into_vec_writes:
  assumes "writes f w" "length w < 2 ^ 63"
  shows "into_vec (f vec_sink) d k = k w"
  using writes_vec_sink [OF assms] by (simp add: into_vec_def del: written_put_slice)

text \<open>The length prefix of a record guards the decoding of its fields.\<close>

lemma decode_record_prefix:
  assumes "n < 2 ^ 31"
  shows "decode (dec_record version D) self (wire_varint (word_of_nat n) @ s) =
     (if length s < n then DErr (IoErr UnexpectedEof) self s
      else decode_fields
             [field_dec preamble (\<lambda>a. preamble_update (\<lambda>_. a)) (dec_record_header version),
              field_dec key_r (\<lambda>a. key_r_update (\<lambda>_. a)) (dec_option D),
              field_dec value_r (\<lambda>a. value_r_update (\<lambda>_. a)) D,
              field_dec headers_r (\<lambda>a. headers_r_update (\<lambda>_. a)) vdec_i64] self s)"
  using c_varint.decode_law [OF ok_varint_length [OF assms]] assms
  by (simp add: dec_record_def sint_of_nat_word)

lemma record_rejects:
  assumes len: "length (wire_record_body w r) < 2 ^ 31"
  shows "rejects (decode (dec_record version D)) self (wire_record w r)"
  unfolding rejects_def
proof (intro allI impI)
  fix n
  let ?body = "wire_record_body w r"
  let ?l = "wire_varint (word_of_nat (length ?body))"
  assume n: "n < length (wire_record w r)"
  show "\<exists>k s' q. decode (dec_record version D) self (take n (wire_record w r)) = DErr (IoErr k) s' q"
  proof (cases "n < length ?l")
    case True
    then show ?thesis
      using c_varint.short_law [OF ok_varint_length [OF len] True]
      by (auto simp: dec_record_def wire_record_def)
  next
    case False
    then have "n - length ?l < length ?body" using n by (simp add: wire_record_def)
    then show ?thesis
      using False by (simp add: wire_record_def decode_record_prefix [OF len])
  qed
qed

lemma record_codec:
  assumes B: "codec B D w p" and version: "sint version \<ge> 0"
  shows "strict_codec (enc_record version B) (dec_record version D) (wire_record w) (ok_record w p)"
proof (rule strict_codecI, rule codecI)
  note H = strict_codec.axioms(1) [OF record_header_codec [OF version]] and O = option_codec [OF B]
  fix r :: "'a Record"
  assume "ok_record w p r"
  then have ok: "ok_record_header (preamble r)" "ok_option p (key_r r)" "p (value_r r)"
      "ok_varint (headers_r r)" and len: "length (wire_record_body w r) < 2 ^ 31"
    by (simp_all add: ok_record_def)
  let ?body = "wire_record_body w r"
  note lenok = ok_varint_length [OF len]
  have "write_size (enc_record version B) r =
      add_size (write_size venc_i64 (word_of_nat (length ?body))) (Some (length ?body))"
    using ok by (simp add: enc_record_def codec.size_law [OF H] codec.size_law [OF O]
        codec.size_law [OF B] c_varint.size_law wire_record_body_def add.assoc)
  then show "write_size (enc_record version B) r = Some (length (wire_record w r))"
    by (simp add: c_varint.size_law [OF lenok] wire_record_def)
  have "writes (encode_fields [field_enc preamble (enc_record_header version), field_enc key_r (enc_option B),
            field_enc value_r B, field_enc headers_r venc_i64] r) ?body"
    unfolding wire_record_body_def using ok
    by (intro write_field_intros codec.field_writes [OF H] codec.field_writes [OF O]
        codec.field_writes [OF B] c_varint.field_writes)
  from into_vec_writes [OF this] len
  have "encode (enc_record version B) r =
      (\<lambda>d. ebind (encode venc_i64 (word_of_nat (length ?body)) d) (put_out ?body))"
    by (simp add: enc_record_def)
  then show "writes (encode (enc_record version B) r) (wire_record w r)"
    unfolding wire_record_def using writes_ebind [OF c_varint.writes_wire [OF lenok] writes_put_out] by simp
  have ini: "initial (dec_record_header version) = default_record_header"
    by (simp add: dec_record_header_def)
  show "reads (decode (dec_record version D)) (initial (dec_record version D)) (wire_record w r) r"
    using len ok codec.decode_law [OF H] codec.decode_law [OF O] codec.decode_law [OF B] c_varint.decode_law
    by (simp add: reads_def wire_record_def decode_record_prefix)
      (simp add: wire_record_body_def field_dec_def ini dec_record_def)
  show "rejects (decode (dec_record version D)) (initial (dec_record version D)) (wire_record w r)"
    by (rule record_rejects [OF len])
qed

end
