(* ===== verification/Record_Batch.thy ===== *)
theory Record_Batch
  imports Record_Data
begin

unbundle bit_operations_syntax

text \<open>
  Batches and record sets: \<open>fluvio-protocol/src/record/batch.rs\<close>, the record set
  of \<open>record/data.rs\<close> and the compression tags of \<open>fluvio-compression/src/lib.rs\<close>.
  The checksum \<open>crc32c\<close> and the compression algorithms are parameters. The
  type of the records in a batch is a parameter as in the source: in memory
  they are a vector of records, on disk and on the wire raw bytes.
\<close>

section \<open>Compression\<close>

datatype Compression = CompNone | Gzip | Snappy | Lz4 | Zstd

datatype CompressionError = CompIoError fault | UnreachableError | UnknownCompressionFormat | CodecError

definition compression_code :: "Compression \<Rightarrow> i8" where
  "compression_code c = (case c of CompNone \<Rightarrow> 0 | Gzip \<Rightarrow> 1 | Snappy \<Rightarrow> 2 | Lz4 \<Rightarrow> 3 | Zstd \<Rightarrow> 4)"

definition compression_try_from :: "i8 \<Rightarrow> CompressionError + Compression" where
  "compression_try_from v =
     (if v = 0 then Inr CompNone
      else if v = 1 then Inr Gzip
      else if v = 2 then Inr Snappy
      else if v = 3 then Inr Lz4
      else if v = 4 then Inr Zstd
      else Inl UnknownCompressionFormat)"

definition ascii_lower :: "char \<Rightarrow> char" where
  "ascii_lower c = (let n = of_char c :: nat in if 65 \<le> n \<and> n \<le> 90 then char_of (n + 32) else c)"

definition compression_from_str :: "string \<Rightarrow> CompressionError + Compression" where
  "compression_from_str s =
     (let l = map ascii_lower s
      in if l = ''none'' then Inr CompNone
         else if l = ''gzip'' then Inr Gzip
         else if l = ''snappy'' then Inr Snappy
         else if l = ''lz4'' then Inr Lz4
         else if l = ''zstd'' then Inr Zstd
         else Inl UnknownCompressionFormat)"

definition compression_display :: "Compression \<Rightarrow> string" where
  "compression_display c =
     (case c of CompNone \<Rightarrow> ''none'' | Gzip \<Rightarrow> ''gzip'' | Snappy \<Rightarrow> ''snappy'' | Lz4 \<Rightarrow> ''lz4'' | Zstd \<Rightarrow> ''zstd'')"

text \<open>
  \<open>alg c\<close> and \<open>unalg c\<close> are the compress and uncompress functions of the
  algorithm \<open>c\<close> (gzip, snappy, lz4, zstd).
\<close>

type_synonym algorithm = "Compression \<Rightarrow> bytes \<Rightarrow> CompressionError + bytes"

definition compress :: "algorithm \<Rightarrow> Compression \<Rightarrow> bytes \<Rightarrow> CompressionError + bytes" where
  "compress alg c src = (case c of CompNone \<Rightarrow> Inr src | _ \<Rightarrow> alg c src)"

definition uncompress :: "algorithm \<Rightarrow> Compression \<Rightarrow> bytes \<Rightarrow> CompressionError + bytes option" where
  "uncompress unalg c src =
     (case c of
        CompNone \<Rightarrow> Inr None
      | _ \<Rightarrow> (case unalg c src of Inl e \<Rightarrow> Inl e | Inr output \<Rightarrow> Inr (Some output)))"

section \<open>Batch header\<close>

record BatchHeader =
  partition_leader_epoch :: i32
  magic :: i8
  crc :: u32
  attributes :: i16
  last_offset_delta :: i32
  first_timestamp :: i64
  max_time_stamp :: i64
  producer_id :: i64
  producer_epoch :: i16
  first_sequence :: i32

definition default_batch_header :: BatchHeader where
  "default_batch_header = \<lparr>partition_leader_epoch = - 1, magic = 2, crc = 0, attributes = 0,
     last_offset_delta = - 1, first_timestamp = NO_TIMESTAMP, max_time_stamp = NO_TIMESTAMP,
     producer_id = - 1, producer_epoch = - 1, first_sequence = - 1\<rparr>"

definition BATCH_PREAMBLE_SIZE :: nat where "BATCH_PREAMBLE_SIZE = 12"
definition BATCH_HEADER_SIZE :: nat where "BATCH_HEADER_SIZE = 45"
definition BATCH_FILE_HEADER_SIZE :: nat where
  "BATCH_FILE_HEADER_SIZE = BATCH_PREAMBLE_SIZE + BATCH_HEADER_SIZE"
definition ATTR_SCHEMA_PRESENT :: i16 where "ATTR_SCHEMA_PRESENT = 0x10"
definition ATTR_COMPRESSION_CODEC_MASK :: i16 where "ATTR_COMPRESSION_CODEC_MASK = 0x07"
definition SCHEMA_ID_NULL :: u32 where "SCHEMA_ID_NULL = 0"

definition enc_batch_header :: "i16 \<Rightarrow> BatchHeader encoder" where
  "enc_batch_header version = struct_enc (map (versioned_enc 0 None version)
     [field_enc partition_leader_epoch enc_i32, field_enc magic enc_i8, field_enc crc enc_u32,
      field_enc attributes enc_i16, field_enc last_offset_delta enc_i32,
      field_enc first_timestamp enc_i64, field_enc max_time_stamp enc_i64,
      field_enc producer_id enc_i64, field_enc producer_epoch enc_i16,
      field_enc first_sequence enc_i32])"

definition dec_batch_header :: "i16 \<Rightarrow> BatchHeader decoder" where
  "dec_batch_header version = struct_dec default_batch_header (map (versioned_dec 0 None version)
     [field_dec partition_leader_epoch (\<lambda>a. partition_leader_epoch_update (\<lambda>_. a)) dec_i32,
      field_dec magic (\<lambda>a. magic_update (\<lambda>_. a)) dec_i8,
      field_dec crc (\<lambda>a. crc_update (\<lambda>_. a)) dec_u32,
      field_dec attributes (\<lambda>a. attributes_update (\<lambda>_. a)) dec_i16,
      field_dec last_offset_delta (\<lambda>a. last_offset_delta_update (\<lambda>_. a)) dec_i32,
      field_dec first_timestamp (\<lambda>a. first_timestamp_update (\<lambda>_. a)) dec_i64,
      field_dec max_time_stamp (\<lambda>a. max_time_stamp_update (\<lambda>_. a)) dec_i64,
      field_dec producer_id (\<lambda>a. producer_id_update (\<lambda>_. a)) dec_i64,
      field_dec producer_epoch (\<lambda>a. producer_epoch_update (\<lambda>_. a)) dec_i16,
      field_dec first_sequence (\<lambda>a. first_sequence_update (\<lambda>_. a)) dec_i32])"

definition header_get_compression :: "BatchHeader \<Rightarrow> CompressionError + Compression" where
  "header_get_compression h = compression_try_from (ucast (attributes h AND ATTR_COMPRESSION_CODEC_MASK))"

definition set_compression :: "Compression \<Rightarrow> BatchHeader \<Rightarrow> BatchHeader" where
  "set_compression c h =
     (let compression_bits = scast (compression_code c) AND ATTR_COMPRESSION_CODEC_MASK
      in h\<lparr>attributes := (attributes h AND NOT ATTR_COMPRESSION_CODEC_MASK) OR compression_bits\<rparr>)"

definition has_schema :: "BatchHeader \<Rightarrow> bool" where
  "has_schema h = (attributes h AND ATTR_SCHEMA_PRESENT \<noteq> 0)"

definition header_set_schema_id :: "BatchHeader \<Rightarrow> BatchHeader" where
  "header_set_schema_id h = h\<lparr>attributes := attributes h OR ATTR_SCHEMA_PRESENT\<rparr>"

section \<open>Batch\<close>

record 'r Batch =
  base_offset :: i64
  batch_len :: i32
  header :: BatchHeader
  schema_id :: u32
  records :: 'r

definition default_batch :: "'r \<Rightarrow> 'r Batch" where
  "default_batch r0 = \<lparr>base_offset = 0, batch_len = 0, header = default_batch_header,
                       schema_id = 0, records = r0\<rparr>"

definition new_with_len :: "i32 \<Rightarrow> 'r \<Rightarrow> 'r Batch" where
  "new_with_len len r0 = (default_batch r0)\<lparr>batch_len := len\<rparr>"

definition set_base_offset :: "i64 \<Rightarrow> 'r Batch \<Rightarrow> 'r Batch" where
  "set_base_offset offset b = b\<lparr>base_offset := offset\<rparr>"

definition add_to_offset_delta :: "i32 \<Rightarrow> 'r Batch \<Rightarrow> 'r Batch" where
  "add_to_offset_delta delta b =
     b\<lparr>header := (header b)\<lparr>last_offset_delta := last_offset_delta (header b) + delta\<rparr>\<rparr>"

definition set_offset_delta :: "i32 \<Rightarrow> 'r Batch \<Rightarrow> 'r Batch" where
  "set_offset_delta delta b = b\<lparr>header := (header b)\<lparr>last_offset_delta := delta\<rparr>\<rparr>"

definition get_last_offset :: "'r Batch \<Rightarrow> i64" where
  "get_last_offset b = base_offset b + scast (last_offset_delta (header b))"

definition records_len :: "'r Batch \<Rightarrow> nat" where
  "records_len b = (if sint (last_offset_delta (header b)) < 0 then 0
                    else nat (sint (last_offset_delta (header b))) + 1)"

definition computed_last_offset :: "'r Batch \<Rightarrow> i64" where
  "computed_last_offset b = base_offset b + word_of_nat (records_len b)"

definition get_compression :: "'r Batch \<Rightarrow> CompressionError + Compression" where
  "get_compression b = header_get_compression (header b)"

definition set_schema_id :: "u32 \<Rightarrow> 'r Batch \<Rightarrow> 'r Batch" where
  "set_schema_id sid b = b\<lparr>header := header_set_schema_id (header b), schema_id := sid\<rparr>"

text \<open>
  \<open>R\<close> and \<open>RD\<close> are the encoder and decoder of the records type, by version.
\<close>

definition calc_batch_len :: "(i16 \<Rightarrow> 'r encoder) \<Rightarrow> 'r Batch \<Rightarrow> i32 option" where
  "calc_batch_len R b = do {
     n \<leftarrow> write_size (R 0) (records b);
     Some (word_of_nat (if has_schema (header b) then BATCH_HEADER_SIZE + n + 4
                        else BATCH_HEADER_SIZE + n)) }"

definition validate_decoding :: "(i16 \<Rightarrow> 'r encoder) \<Rightarrow> 'r Batch \<Rightarrow> bool option" where
  "validate_decoding R b = do { n \<leftarrow> calc_batch_len R b; Some (batch_len b = n) }"

definition decode_from_file_buf :: "i16 \<Rightarrow> 'r Batch step" where
  "decode_from_file_buf version = decode_fields
     [field_dec base_offset (\<lambda>a. base_offset_update (\<lambda>_. a)) dec_i64,
      field_dec batch_len (\<lambda>a. batch_len_update (\<lambda>_. a)) dec_i32,
      field_dec header (\<lambda>a. header_update (\<lambda>_. a)) (dec_batch_header version)]"

definition decode_batch_records :: "'r decoder \<Rightarrow> nat \<Rightarrow> 'r Batch step" where
  "decode_batch_records RD rec_len b src =
     (let buf = take rec_len src; rest = drop rec_len src
      in if length buf > 0 then
           (case decode RD (records b) buf of
              DErr e x r \<Rightarrow> DErr e (b\<lparr>records := x\<rparr>) (r @ rest)
            | DOk x r \<Rightarrow> DOk (b\<lparr>records := x\<rparr>) (r @ rest))
         else DOk b src)"

definition decode_batch :: "(i16 \<Rightarrow> 'r decoder) \<Rightarrow> i16 \<Rightarrow> 'r Batch step" where
  "decode_batch RD version self src =
     (case decode_from_file_buf version self src of
        DErr e b r \<Rightarrow> DErr e b r
      | DOk b r \<Rightarrow>
          if has_schema (header b) then
            (case decode dec_u32 SCHEMA_ID_NULL r of
               DErr e _ r' \<Rightarrow> DErr e b r'
             | DOk sid r' \<Rightarrow>
                 decode_batch_records (RD version)
                   (unat (scast (batch_len b) - word_of_nat BATCH_HEADER_SIZE - 4 :: u64))
                   (b\<lparr>schema_id := sid\<rparr>) r')
          else decode_batch_records (RD version)
                 (unat (scast (batch_len b) - word_of_nat BATCH_HEADER_SIZE :: u64)) b r)"

definition dec_batch :: "(i16 \<Rightarrow> 'r decoder) \<Rightarrow> i16 \<Rightarrow> 'r Batch decoder" where
  "dec_batch RD version = \<lparr>initial = default_batch (initial (RD version)), decode = decode_batch RD version\<rparr>"

definition enc_schema_id :: "i16 \<Rightarrow> u32 encoder" where
  "enc_schema_id version = struct_enc [versioned_enc 0 None version (field_enc id enc_u32)]"

definition batch_front_fields :: "i32 \<Rightarrow> 'r Batch encoder list" where
  "batch_front_fields len =
     [field_enc (\<lambda>_. len) enc_i32,
      field_enc (\<lambda>b. partition_leader_epoch (header b)) enc_i32,
      field_enc (\<lambda>b. magic (header b)) enc_i8]"

definition batch_out_fields :: "(i16 \<Rightarrow> 'r encoder) \<Rightarrow> i16 \<Rightarrow> 'r Batch \<Rightarrow> 'r Batch encoder list" where
  "batch_out_fields R version b =
     [field_enc (\<lambda>b. attributes (header b)) enc_i16,
      field_enc (\<lambda>b. last_offset_delta (header b)) enc_i32,
      field_enc (\<lambda>b. first_timestamp (header b)) enc_i64,
      field_enc (\<lambda>b. max_time_stamp (header b)) enc_i64,
      field_enc (\<lambda>b. producer_id (header b)) enc_i64,
      field_enc (\<lambda>b. producer_epoch (header b)) enc_i16,
      field_enc (\<lambda>b. first_sequence (header b)) enc_i32,
      if has_schema (header b) then field_enc schema_id (enc_schema_id version) else skip_enc,
      field_enc records (R version)]"

definition enc_batch :: "(bytes \<Rightarrow> u32) \<Rightarrow> (i16 \<Rightarrow> 'r encoder) \<Rightarrow> i16 \<Rightarrow> 'r Batch encoder" where
  "enc_batch crc32c R version = \<lparr>
     write_size = (\<lambda>b. add_size (Some BATCH_FILE_HEADER_SIZE) (write_size (R version) (records b))),
     encode = (\<lambda>b d. ebind (encode enc_i64 (base_offset b) d) (\<lambda>d.
       case calc_batch_len R b of
         None \<Rightarrow> EErr Diverge d
       | Some len \<Rightarrow>
           ebind (encode_fields (batch_front_fields len) b d) (\<lambda>d.
             into_vec (encode_fields (batch_out_fields R version b) b vec_sink) d
               (\<lambda>out. ebind (encode enc_u32 (crc32c out) d) (put_out out)))))\<rparr>"

section \<open>Raw and memory records\<close>

type_synonym RawRecords = bytes
type_synonym MemoryRecords = "RecordData Record list"

definition enc_raw :: "i16 \<Rightarrow> RawRecords encoder" where
  "enc_raw version = \<lparr>write_size = (\<lambda>v. Some (length v)), encode = put_out\<rparr>"

definition dec_raw :: "i16 \<Rightarrow> RawRecords decoder" where
  "dec_raw version = \<lparr>initial = [], decode = (\<lambda>self src. DOk src [])\<rparr>"

definition enc_memory :: "i16 \<Rightarrow> MemoryRecords encoder" where
  "enc_memory version = enc_vec (enc_record version enc_record_data)"

definition dec_memory :: "i16 \<Rightarrow> MemoryRecords decoder" where
  "dec_memory version = dec_vec (dec_record version dec_record_data)"

definition memory_records :: "algorithm \<Rightarrow> RawRecords Batch \<Rightarrow> CompressionError + MemoryRecords" where
  "memory_records unalg b =
     (let decode_data = (\<lambda>data. case decode (dec_memory 0) [] data of
            DOk rs _ \<Rightarrow> Inr rs
          | DErr (IoErr UnexpectedEof) rs _ \<Rightarrow> Inr rs
          | DErr e rs _ \<Rightarrow> Inl (CompIoError e))
      in case get_compression b of
           Inl e \<Rightarrow> Inl e
         | Inr CompNone \<Rightarrow> decode_data (records b)
         | Inr c \<Rightarrow> (case uncompress unalg c (records b) of
             Inl e \<Rightarrow> Inl e
           | Inr None \<Rightarrow> Inl UnreachableError
           | Inr (Some decompressed) \<Rightarrow> decode_data decompressed))"

definition to_memory_batch :: "algorithm \<Rightarrow> RawRecords Batch \<Rightarrow> (CompressionError + MemoryRecords Batch) option" where
  "to_memory_batch unalg b =
     (case memory_records unalg b of
        Inl e \<Rightarrow> Some (Inl e)
      | Inr rs \<Rightarrow> do {
          n \<leftarrow> write_size (enc_memory 0) rs;
          Some (Inr \<lparr>base_offset = base_offset b,
                     batch_len = word_of_nat (BATCH_HEADER_SIZE + n),
                     header = header b,
                     schema_id = SCHEMA_ID_NULL,
                     records = rs\<rparr>) })"

definition to_raw_batch :: "algorithm \<Rightarrow> MemoryRecords Batch \<Rightarrow> CompressionError + RawRecords Batch" where
  "to_raw_batch alg f =
     (case encode (enc_memory 0) (records f) vec_sink of
        EErr e _ \<Rightarrow> Inl (CompIoError e)
      | EOk buf \<Rightarrow> (case get_compression f of
          Inl e \<Rightarrow> Inl e
        | Inr c \<Rightarrow> (case compress alg c (written buf) of
            Inl e \<Rightarrow> Inl e
          | Inr compressed \<Rightarrow>
              Inr \<lparr>base_offset = base_offset f,
                   batch_len = word_of_nat BATCH_HEADER_SIZE + word_of_nat (length compressed) +
                               (if has_schema (header f) then 4 else 0),
                   header = header f,
                   schema_id = schema_id f,
                   records = compressed\<rparr>)))"

section \<open>Building batches\<close>

definition number_records :: "MemoryRecords \<Rightarrow> MemoryRecords" where
  "number_records rs =
     map (\<lambda>(i, r). r\<lparr>preamble := set_offset_delta_r (word_of_nat i) (preamble r)\<rparr>)
         (zip [0 ..< length rs] rs)"

definition update_offset_deltas :: "MemoryRecords Batch \<Rightarrow> MemoryRecords Batch" where
  "update_offset_deltas b =
     b\<lparr>records := number_records (records b),
       header := (header b)\<lparr>last_offset_delta := word_of_nat (length (records b)) - 1\<rparr>\<rparr>"

definition add_records :: "MemoryRecords \<Rightarrow> MemoryRecords Batch \<Rightarrow> MemoryRecords Batch option" where
  "add_records rs b = do {
     let b1 = b\<lparr>records := records b @ rs\<rparr>;
     n \<leftarrow> calc_batch_len enc_memory b1;
     Some (update_offset_deltas (b1\<lparr>batch_len := n\<rparr>)) }"

definition add_record :: "RecordData Record \<Rightarrow> MemoryRecords Batch \<Rightarrow> MemoryRecords Batch option" where
  "add_record r b = do {
     b1 \<leftarrow> add_records [r] b;
     n \<leftarrow> calc_batch_len enc_memory b1;
     Some (b1\<lparr>batch_len := n\<rparr>) }"

definition batch_from_records :: "MemoryRecords \<Rightarrow> MemoryRecords Batch option" where
  "batch_from_records rs = do {
     let b = (default_batch [])\<lparr>records := number_records rs\<rparr>;
     let len = (word_of_nat (length (records b)) :: i32);
     n \<leftarrow> calc_batch_len enc_memory b;
     let b1 = b\<lparr>batch_len := n\<rparr>;
     Some (b1\<lparr>header := (header b1)\<lparr>last_offset_delta := (if sint len > 0 then len - 1 else len)\<rparr>\<rparr>) }"

definition into_consumer_records :: "u32 \<Rightarrow> MemoryRecords Batch \<Rightarrow> ConsumerRecord list" where
  "into_consumer_records pid b =
     map (\<lambda>(relative, r). \<lparr>offset_c = base_offset b + word_of_nat relative, partition_c = pid,
                            record_c = r, timestamp_base = first_timestamp (header b)\<rparr>)
         (zip [0 ..< length (records b)] (records b))"

section \<open>Record sets\<close>

record 'r RecordSet =
  batches :: "'r Batch list"

definition add_batch :: "'r Batch \<Rightarrow> 'r RecordSet \<Rightarrow> 'r RecordSet" where
  "add_batch b s = s\<lparr>batches := batches s @ [b]\<rparr>"

fun find_valid :: "(i16 \<Rightarrow> 'r encoder) \<Rightarrow> 'r Batch list \<Rightarrow> 'r Batch option option" where
  "find_valid R [] = Some None"
| "find_valid R (b # bs) = do {
     v \<leftarrow> validate_decoding R b;
     if v then Some (Some b) else find_valid R bs }"

definition last_offset :: "(i16 \<Rightarrow> 'r encoder) \<Rightarrow> 'r RecordSet \<Rightarrow> i64 option option" where
  "last_offset R s = do {
     b \<leftarrow> find_valid R (rev (batches s));
     Some (map_option computed_last_offset b) }"

definition total_records :: "'r RecordSet \<Rightarrow> nat" where
  "total_records s = sum_list (map records_len (batches s))"

definition set_base_offset_of :: "'r RecordSet \<Rightarrow> i64" where
  "set_base_offset_of s = (case batches s of b # _ \<Rightarrow> base_offset b | [] \<Rightarrow> - 1)"

text \<open>
  The decoding loop runs while bytes are left. An I/O error of a batch ends
  it with the batches decoded so far and no error. The first argument bounds
  the iterations; a buffer of \<open>n\<close> bytes needs at most \<open>n\<close>.
\<close>

fun decode_batches ::
  "(i16 \<Rightarrow> 'r decoder) \<Rightarrow> i16 \<Rightarrow> nat \<Rightarrow> 'r Batch list \<Rightarrow> bytes \<Rightarrow> 'r Batch list dres" where
  "decode_batches RD version fuel acc [] = DOk acc []"
| "decode_batches RD version 0 acc (c # cs) = DErr Diverge acc (c # cs)"
| "decode_batches RD version (Suc fuel) acc (c # cs) =
     (case decode (dec_batch RD version) (initial (dec_batch RD version)) (c # cs) of
        DOk b r \<Rightarrow> decode_batches RD version fuel (acc @ [b]) r
      | DErr (IoErr k) b r \<Rightarrow> DOk acc r
      | DErr e b r \<Rightarrow> DErr e acc r)"

definition dec_recordset :: "(i16 \<Rightarrow> 'r decoder) \<Rightarrow> i16 \<Rightarrow> 'r RecordSet decoder" where
  "dec_recordset RD version = \<lparr>
     initial = \<lparr>batches = []\<rparr>,
     decode = (\<lambda>self src. case decode dec_i32 0 src of
         DErr e _ r \<Rightarrow> DErr e self r
       | DOk len r \<Rightarrow>
           (let n = unat (scast len :: u64)
            in if length r < n then DErr (IoErr UnexpectedEof) self r
               else (case decode_batches RD version n (batches self) (take n r) of
                       DOk bs r' \<Rightarrow> DOk (self\<lparr>batches := bs\<rparr>) (r' @ drop n r)
                     | DErr e bs r' \<Rightarrow> DErr e (self\<lparr>batches := bs\<rparr>) (r' @ drop n r))))\<rparr>"

definition enc_recordset ::
  "(bytes \<Rightarrow> u32) \<Rightarrow> (i16 \<Rightarrow> 'r encoder) \<Rightarrow> i16 \<Rightarrow> 'r RecordSet encoder" where
  "enc_recordset crc32c R version = \<lparr>
     write_size = (\<lambda>s. foldl (\<lambda>sum val. add_size sum (write_size (enc_batch crc32c R version) val))
                             (Some 4) (batches s)),
     encode = (\<lambda>s d. into_vec (encode_all (enc_batch crc32c R version) (batches s) vec_sink) d
       (\<lambda>out. ebind (encode enc_i32 (word_of_nat (length out)) d) (put_out out)))\<rparr>"

definition recordset_to_raw ::
  "algorithm \<Rightarrow> MemoryRecords RecordSet \<Rightarrow> CompressionError + RawRecords RecordSet" where
  "recordset_to_raw alg s =
     foldl (\<lambda>acc b. case acc of
         Inl e \<Rightarrow> Inl e
       | Inr t \<Rightarrow> (case to_raw_batch alg b of Inl e \<Rightarrow> Inl e | Inr rb \<Rightarrow> Inr (add_batch rb t)))
       (Inr \<lparr>batches = []\<rparr>) (batches s)"

section \<open>Wire format of a batch\<close>

definition wire_header_tail :: "BatchHeader \<Rightarrow> bytes" where
  "wire_header_tail h =
     be_bytes 2 (attributes h) @ be_bytes 4 (last_offset_delta h) @ be_bytes 8 (first_timestamp h) @
     be_bytes 8 (max_time_stamp h) @ be_bytes 8 (producer_id h) @ be_bytes 2 (producer_epoch h) @
     be_bytes 4 (first_sequence h)"

definition wire_batch_header :: "BatchHeader \<Rightarrow> bytes" where
  "wire_batch_header h =
     be_bytes 4 (partition_leader_epoch h) @ be_bytes 1 (magic h) @ be_bytes 4 (crc h) @ wire_header_tail h"

definition wire_schema :: "'r Batch \<Rightarrow> bytes" where
  "wire_schema b = (if has_schema (header b) then be_bytes 4 (schema_id b) else [])"

definition batch_payload :: "('r \<Rightarrow> bytes) \<Rightarrow> 'r Batch \<Rightarrow> bytes" where
  "batch_payload w b = wire_header_tail (header b) @ wire_schema b @ w (records b)"

text \<open>
  Encoding computes the length and the checksum and leaves a schema id out
  unless the attribute announces it. \<open>seal_batch\<close> is the batch with these
  fields as the encoding has them.
\<close>

definition seal_batch :: "(bytes \<Rightarrow> u32) \<Rightarrow> ('r \<Rightarrow> bytes) \<Rightarrow> 'r Batch \<Rightarrow> 'r Batch" where
  "seal_batch crc32c w b =
     b\<lparr>batch_len := word_of_nat (BATCH_HEADER_SIZE + length (wire_schema b) + length (w (records b))),
       header := (header b)\<lparr>crc := crc32c (batch_payload w b)\<rparr>,
       schema_id := (if has_schema (header b) then schema_id b else SCHEMA_ID_NULL)\<rparr>"

definition wire_batch :: "(bytes \<Rightarrow> u32) \<Rightarrow> ('r \<Rightarrow> bytes) \<Rightarrow> 'r Batch \<Rightarrow> bytes" where
  "wire_batch crc32c w b =
     (let s = seal_batch crc32c w b
      in be_bytes 8 (base_offset s) @ be_bytes 4 (batch_len s) @ wire_batch_header (header s) @
         wire_schema s @ w (records s))"

definition ok_batch :: "('r \<Rightarrow> bytes) \<Rightarrow> ('r \<Rightarrow> bool) \<Rightarrow> 'r Batch \<Rightarrow> bool" where
  "ok_batch w p b = (p (records b) \<and> length (w (records b)) < 2 ^ 31 - 49)"

definition wire_recordset :: "(bytes \<Rightarrow> u32) \<Rightarrow> ('r \<Rightarrow> bytes) \<Rightarrow> 'r RecordSet \<Rightarrow> bytes" where
  "wire_recordset crc32c w s =
     (let body = concat (map (wire_batch crc32c w) (batches s))
      in be_bytes 4 (word_of_nat (length body) :: i32) @ body)"

definition ok_recordset :: "('r \<Rightarrow> bytes) \<Rightarrow> ('r \<Rightarrow> bool) \<Rightarrow> 'r RecordSet \<Rightarrow> bool" where
  "ok_recordset w p s =
     (list_all (ok_batch w p) (batches s) \<and> length (wire_recordset (\<lambda>_. 0) w s) < 2 ^ 31)"

definition seal_recordset :: "(bytes \<Rightarrow> u32) \<Rightarrow> ('r \<Rightarrow> bytes) \<Rightarrow> 'r RecordSet \<Rightarrow> 'r RecordSet" where
  "seal_recordset crc32c w s = \<lparr>batches = map (seal_batch crc32c w) (batches s)\<rparr>"

lemma length_wire_header [simp]:
  "length (wire_header_tail h) = 36" "length (wire_batch_header h) = 45"
  by (simp_all add: wire_header_tail_def wire_batch_header_def)

lemma length_wire_schema: "length (wire_schema b) = (if has_schema (header b) then 4 else 0)"
  by (simp add: wire_schema_def)

lemma has_schema_crc [simp]: "has_schema (h\<lparr>crc := c\<rparr>) = has_schema h"
  by (simp add: has_schema_def)

lemma length_wire_batch:
  "length (wire_batch crc32c w b) = BATCH_FILE_HEADER_SIZE + length (wire_schema b) + length (w (records b))"
  by (simp add: wire_batch_def seal_batch_def wire_schema_def BATCH_FILE_HEADER_SIZE_def
      BATCH_PREAMBLE_SIZE_def BATCH_HEADER_SIZE_def)

lemma batch_header_codec:
  assumes "sint version \<ge> 0"
  shows "strict_codec (enc_batch_header version) (dec_batch_header version) wire_batch_header (\<lambda>_. True)"
proof (rule strict_codecI, rule codecI)
  have v: "version_check 0 None version" using assms by (simp add: version_check_def)
  fix h :: BatchHeader
  show "write_size (enc_batch_header version) h = Some (length (wire_batch_header h))"
    using v by (simp add: enc_batch_header_def c_i8.size_law c_i16.size_law c_u32.size_law
        c_i32.size_law c_i64.size_law)
  note writers = c_i8.field_writes c_i16.field_writes c_u32.field_writes c_i32.field_writes c_i64.field_writes
  show "writes (encode (enc_batch_header version) h) (wire_batch_header h)"
    unfolding enc_batch_header_def wire_batch_header_def wire_header_tail_def struct_simps list.map
      versioned_on [OF v]
    by (intro write_field_intros writers TrueI)
  show "reads (decode (dec_batch_header version)) (initial (dec_batch_header version)) (wire_batch_header h) h"
    using v by (simp add: reads_def dec_batch_header_def wire_batch_header_def wire_header_tail_def field_dec_def)
  show "rejects (decode (dec_batch_header version)) (initial (dec_batch_header version)) (wire_batch_header h)"
    unfolding dec_batch_header_def wire_batch_header_def wire_header_tail_def struct_simps list.map
      versioned_on [OF v]
    by (rule reject_field_intros reads_field_dec rejects_field_dec reads_int rejects_int)+
qed

lemma scast_of_nat_i32:
  "n < 2 ^ 31 \<Longrightarrow> (scast (word_of_nat n :: i32) :: u64) = word_of_nat n"
  by (simp only: scast_eq) (simp add: sint_of_nat_word)

lemma of_nat_i32_inject:
  "m < 2 ^ 32 \<Longrightarrow> n < 2 ^ 32 \<Longrightarrow> (word_of_nat m :: i32) = word_of_nat n \<longleftrightarrow> m = n"
  by (simp add: word_of_nat_eq_iff take_bit_nat_eq_self)

lemma rec_len_eq:
  assumes "k + n < 2 ^ 31"
  shows "unat (scast (word_of_nat (k + n) :: i32) - word_of_nat k :: u64) = n"
proof -
  have "(scast (word_of_nat (k + n) :: i32) - word_of_nat k :: u64) = word_of_nat n"
    using scast_of_nat_i32 [OF assms] by simp
  then show ?thesis using assms by (simp add: unat_of_nat)
qed

lemma decode_file_buf_wire:
  assumes "sint version \<ge> 0" "header b0 = default_batch_header"
  shows "decode_from_file_buf version b0
           (be_bytes 8 off @ be_bytes 4 len @ wire_batch_header h @ r) =
         DOk (b0\<lparr>base_offset := off, batch_len := len, header := h\<rparr>) r"
proof -
  have "decode (dec_batch_header version) default_batch_header (wire_batch_header h @ r) = DOk h r"
    using codec.decode_law [OF strict_codec.axioms(1) [OF batch_header_codec [OF assms(1)]], of h r]
    by (simp add: dec_batch_header_def)
  then show ?thesis using assms(2) by (simp add: decode_from_file_buf_def field_dec_def)
qed

text \<open>
  The contract of the \<open>BatchRecords\<close> trait: an encoding that takes the
  announced space, and a decoder that takes back the value from a buffer
  holding exactly its encoding.
\<close>

locale batch_records =
  fixes R :: "i16 \<Rightarrow> 'r encoder" and RD :: "i16 \<Rightarrow> 'r decoder"
    and w :: "'r \<Rightarrow> bytes" and p :: "'r \<Rightarrow> bool"
  assumes records_size: "p x \<Longrightarrow> sint version \<ge> 0 \<Longrightarrow> write_size (R version) x = Some (length (w x))"
    and records_writes: "p x \<Longrightarrow> sint version \<ge> 0 \<Longrightarrow> writes (encode (R version) x) (w x)"
    and records_exact: "p x \<Longrightarrow> sint version \<ge> 0 \<Longrightarrow> decode (RD version) (initial (RD version)) (w x) = DOk x []"
    and records_empty: "p x \<Longrightarrow> w x = [] \<Longrightarrow> x = initial (RD version)"
begin

lemma calc_batch_len_ok:
  "p (records b) \<Longrightarrow> calc_batch_len R b = Some (batch_len (seal_batch crc32c w b))"
  by (simp add: calc_batch_len_def records_size seal_batch_def length_wire_schema)

lemma batch_out_writes:
  assumes p: "p (records b)" and version: "sint version \<ge> 0"
  shows "writes (encode_fields (batch_out_fields R version b) b) (batch_payload w b)"
proof -
  have v: "version_check 0 None version" using version by (simp add: version_check_def)
  have schema: "writes (encode (if has_schema (header b) then field_enc schema_id (enc_schema_id version)
                          else skip_enc) b) (wire_schema b)"
  proof (cases "has_schema (header b)")
    case True
    have "writes (encode (enc_schema_id version) (schema_id b)) (be_bytes 4 (schema_id b))"
      unfolding enc_schema_id_def versioned_on [OF v] struct_simps
      using c_u32.field_writes [of id "schema_id b"] by (intro writes_fields_last) simp
    then show ?thesis using True writes_field_enc [of "enc_schema_id version" schema_id b]
      by (simp add: wire_schema_def)
  qed (simp add: wire_schema_def writes_def)
  show ?thesis
    unfolding batch_payload_def wire_header_tail_def batch_out_fields_def append_assoc
    by (rule write_field_intros c_i16.field_writes c_i32.field_writes c_i64.field_writes schema
        writes_field_enc records_writes [OF p version] TrueI)+
qed

lemma batch_writes:
  assumes b: "ok_batch w p b" and version: "sint version \<ge> 0"
  shows "writes (encode (enc_batch crc32c R version) b) (wire_batch crc32c w b)"
proof -
  have p: "p (records b)" and len: "length (w (records b)) < 2 ^ 31 - 49"
    using b by (simp_all add: ok_batch_def)
  let ?len = "batch_len (seal_batch crc32c w b)" and ?out = "batch_payload w b"
  have front: "writes (encode_fields (batch_front_fields ?len) b)
        (be_bytes 4 ?len @ be_bytes 4 (partition_leader_epoch (header b)) @ be_bytes 1 (magic (header b)))"
    unfolding batch_front_fields_def
    by (rule write_field_intros c_i32.field_writes c_i8.field_writes TrueI)+
  have "length ?out < 2 ^ 63" using len by (simp add: batch_payload_def length_wire_schema)
  from into_vec_writes [OF batch_out_writes [OF p version] this]
  have "encode (enc_batch crc32c R version) b = (\<lambda>d. ebind (encode enc_i64 (base_offset b) d) (\<lambda>d.
      ebind (encode_fields (batch_front_fields ?len) b d)
        (\<lambda>d. ebind (encode enc_u32 (crc32c ?out) d) (put_out ?out))))"
    by (simp add: enc_batch_def calc_batch_len_ok [OF p, of crc32c])
  moreover have "writes (\<lambda>d. ebind (encode enc_i64 (base_offset b) d) (\<lambda>d.
      ebind (encode_fields (batch_front_fields ?len) b d)
        (\<lambda>d. ebind (encode enc_u32 (crc32c ?out) d) (put_out ?out))))
      (be_bytes 8 (base_offset b) @
        (be_bytes 4 ?len @ be_bytes 4 (partition_leader_epoch (header b)) @ be_bytes 1 (magic (header b))) @
        be_bytes 4 (crc32c ?out) @ ?out)"
    by (intro writes_ebind c_i64.writes_wire c_u32.writes_wire writes_put_out front TrueI)
  moreover have "wire_batch crc32c w b = be_bytes 8 (base_offset b) @
        (be_bytes 4 ?len @ be_bytes 4 (partition_leader_epoch (header b)) @ be_bytes 1 (magic (header b))) @
        be_bytes 4 (crc32c ?out) @ ?out"
    by (simp add: wire_batch_def seal_batch_def wire_batch_header_def batch_payload_def wire_schema_def
        wire_header_tail_def)
  ultimately show ?thesis by simp
qed

lemma decode_batch_records_wire:
  assumes "p x" "sint version \<ge> 0" "records b = initial (RD version)"
  shows "decode_batch_records (RD version) (length (w x)) b (w x @ r) = DOk (b\<lparr>records := x\<rparr>) r"
proof (cases "w x = []")
  case True
  then have "x = records b" using records_empty assms by simp
  then show ?thesis using True by (simp add: decode_batch_records_def)
next
  case False
  then show ?thesis
    using records_exact [OF assms(1,2)] assms(3) by (simp add: decode_batch_records_def)
qed

lemma decode_batch_wire:
  assumes b: "ok_batch w p b" and version: "sint version \<ge> 0"
  shows "decode_batch RD version (default_batch (initial (RD version))) (wire_batch crc32c w b @ r) =
           DOk (seal_batch crc32c w b) r"
proof -
  let ?s = "seal_batch crc32c w b" and ?b0 = "default_batch (initial (RD version))"
  let ?b1 = "?b0\<lparr>base_offset := base_offset b, batch_len := batch_len ?s, header := header ?s\<rparr>"
  have p: "p (records b)" and len: "length (w (records b)) < 2 ^ 31 - 49"
    using b by (simp_all add: ok_batch_def)
  have fields: "wire_batch crc32c w b @ r =
      be_bytes 8 (base_offset b) @ be_bytes 4 (batch_len ?s) @ wire_batch_header (header ?s) @
        wire_schema b @ w (records b) @ r"
    by (simp add: wire_batch_def seal_batch_def wire_schema_def)
  have pre: "decode_from_file_buf version ?b0 (wire_batch crc32c w b @ r) =
      DOk ?b1 (wire_schema b @ w (records b) @ r)"
    unfolding fields by (rule decode_file_buf_wire [OF version]) (simp add: default_batch_def)
  have has: "has_schema (header ?s) = has_schema (header b)" by (simp add: seal_batch_def)
  have recs: "decode_batch_records (RD version) (length (w (records b))) b' (w (records b) @ r) =
      DOk (b'\<lparr>records := records b\<rparr>) r" if "records b' = initial (RD version)" for b'
    using decode_batch_records_wire [OF p version that] .
  show ?thesis
  proof (cases "has_schema (header b)")
    case True
    have "unat (scast (batch_len ?s) - word_of_nat BATCH_HEADER_SIZE - 4 :: u64) = length (w (records b))"
      using rec_len_eq [of 49 "length (w (records b))"] len True
      by (simp add: seal_batch_def length_wire_schema BATCH_HEADER_SIZE_def)
    then show ?thesis
      using pre has True recs [of "?b1\<lparr>schema_id := schema_id b\<rparr>"]
      by (simp add: decode_batch_def wire_schema_def default_batch_def seal_batch_def)
  next
    case False
    have "unat (scast (batch_len ?s) - word_of_nat BATCH_HEADER_SIZE :: u64) = length (w (records b))"
      using rec_len_eq [of 45 "length (w (records b))"] len False
      by (simp add: seal_batch_def length_wire_schema BATCH_HEADER_SIZE_def)
    then show ?thesis
      using pre has False recs [of ?b1]
      by (simp add: decode_batch_def wire_schema_def default_batch_def seal_batch_def SCHEMA_ID_NULL_def)
  qed
qed

lemma decode_batches_wire:
  assumes "list_all (ok_batch w p) bs" "sint version \<ge> 0" "length bs \<le> fuel"
  shows "decode_batches RD version fuel acc (concat (map (wire_batch crc32c w) bs) @ r) =
           decode_batches RD version (fuel - length bs) (acc @ map (seal_batch crc32c w) bs) r"
  using assms
proof (induction bs arbitrary: acc fuel)
  case (Cons b bs)
  obtain f where f: "fuel = Suc f" using Cons.prems by (cases fuel) auto
  have "wire_batch crc32c w b \<noteq> []"
    using length_wire_batch [of crc32c w b] by (auto simp: BATCH_FILE_HEADER_SIZE_def BATCH_HEADER_SIZE_def)
  then obtain c cs where w: "wire_batch crc32c w b = c # cs" by (cases "wire_batch crc32c w b") auto
  have "decode (dec_batch RD version) (initial (dec_batch RD version))
          (wire_batch crc32c w b @ concat (map (wire_batch crc32c w) bs) @ r) =
        DOk (seal_batch crc32c w b) (concat (map (wire_batch crc32c w) bs) @ r)"
    using Cons.prems by (simp add: dec_batch_def decode_batch_wire)
  then show ?case using Cons f w by simp
qed simp

lemma length_recordset_body:
  "length (concat (map (wire_batch crc32c w) bs)) = length (concat (map (wire_batch (\<lambda>_. 0) w) bs))"
  by (induction bs) (simp_all add: length_wire_batch)

lemma batches_le_body: "length bs \<le> length (concat (map (wire_batch crc32c w) bs))"
  by (induction bs)
    (simp_all add: length_wire_batch BATCH_FILE_HEADER_SIZE_def BATCH_HEADER_SIZE_def)

lemma encode_all_batches:
  "list_all (ok_batch w p) bs \<Longrightarrow> sint version \<ge> 0 \<Longrightarrow>
   writes (encode_all (enc_batch crc32c R version) bs) (concat (map (wire_batch crc32c w) bs))"
proof (induction bs)
  case (Cons b bs)
  then show ?case using writes_ebind [OF batch_writes [of b version crc32c]] by (simp add: writes_def)
qed (simp add: writes_def)

lemma recordset_writes:
  assumes "ok_recordset w p s" "sint version \<ge> 0"
  shows "writes (encode (enc_recordset crc32c R version) s) (wire_recordset crc32c w s)"
proof -
  let ?body = "concat (map (wire_batch crc32c w) (batches s))"
  have "length ?body < 2 ^ 31"
    using assms(1) length_recordset_body [of crc32c "batches s"]
    by (simp add: ok_recordset_def wire_recordset_def Let_def)
  then have "encode (enc_recordset crc32c R version) s =
      (\<lambda>d. ebind (encode enc_i32 (word_of_nat (length ?body)) d) (put_out ?body))"
    using into_vec_writes [OF encode_all_batches [of "batches s" version crc32c]] assms
    by (simp add: enc_recordset_def ok_recordset_def)
  moreover have "writes (\<lambda>d. ebind (encode enc_i32 (word_of_nat (length ?body)) d) (put_out ?body))
      (be_bytes 4 (word_of_nat (length ?body) :: i32) @ ?body)"
    by (intro writes_ebind c_i32.writes_wire writes_put_out TrueI)
  ultimately show ?thesis by (simp add: wire_recordset_def Let_def)
qed

lemma recordset_reads:
  assumes s: "ok_recordset w p s" and version: "sint version \<ge> 0"
  shows "decode (dec_recordset RD version) (initial (dec_recordset RD version)) (wire_recordset crc32c w s @ r) =
           DOk (seal_recordset crc32c w s) r"
proof -
  let ?body = "concat (map (wire_batch crc32c w) (batches s))"
  have len: "length ?body < 2 ^ 31"
    using s length_recordset_body [of crc32c "batches s"]
    by (simp add: ok_recordset_def wire_recordset_def Let_def)
  then have "unat (scast (word_of_nat (length ?body) :: i32) :: u64) = length ?body"
    by (simp add: scast_of_nat_i32 unat_of_nat)
  moreover have "decode_batches RD version (length ?body) [] ?body = DOk (map (seal_batch crc32c w) (batches s)) []"
    using decode_batches_wire [of "batches s" version "length ?body" "[]" crc32c "[]"]
      batches_le_body [of "batches s" crc32c] s version
    by (simp add: ok_recordset_def)
  ultimately show ?thesis
    by (simp add: dec_recordset_def wire_recordset_def seal_recordset_def Let_def)
qed

text \<open>A batch whose decoding fails ends the record set; the batches before it are kept.\<close>

lemma decode_recordset_cut:
  assumes bs: "list_all (ok_batch w p) bs" and version: "sint version \<ge> 0"
    and cut: "decode_batch RD version (default_batch (initial (RD version))) rest = DErr (IoErr k) b' r'"
    and ne: "rest \<noteq> []"
    and len: "length (concat (map (wire_batch crc32c w) bs) @ rest) < 2 ^ 31"
  shows "decode (dec_recordset RD version) (initial (dec_recordset RD version))
           (be_bytes 4 (word_of_nat (length (concat (map (wire_batch crc32c w) bs) @ rest)) :: i32) @
              concat (map (wire_batch crc32c w) bs) @ rest @ r) =
         DOk \<lparr>batches = map (seal_batch crc32c w) bs\<rparr> (r' @ r)"
proof -
  let ?body = "concat (map (wire_batch crc32c w) bs)" and ?n = "length (concat (map (wire_batch crc32c w) bs) @ rest)"
  obtain c cs where rest: "rest = c # cs" using ne by (cases rest) auto
  have "decode_batches RD version ?n [] (?body @ rest) =
      decode_batches RD version (Suc (?n - length bs - 1)) (map (seal_batch crc32c w) bs) rest"
    using decode_batches_wire [OF bs version, of ?n "[]" crc32c rest] batches_le_body [of bs crc32c] rest
    by (simp add: Suc_diff_le)
  also have "\<dots> = DOk (map (seal_batch crc32c w) bs) r'"
    using cut rest by (simp add: dec_batch_def)
  finally show ?thesis
    using len by (simp add: dec_recordset_def scast_of_nat_i32 unat_of_nat Let_def del: of_nat_add)
qed

end

section \<open>The two kinds of records\<close>

definition wire_memory :: "MemoryRecords \<Rightarrow> bytes" where
  "wire_memory = wire_vec (wire_record wire_record_data)"

definition ok_memory :: "MemoryRecords \<Rightarrow> bool" where
  "ok_memory = ok_vec (ok_record wire_record_data ok_record_data)"

lemma memory_codec:
  assumes "sint version \<ge> 0"
  shows "strict_codec (enc_memory version) (dec_memory version) wire_memory ok_memory"
  unfolding enc_memory_def dec_memory_def wire_memory_def ok_memory_def
  by (intro vec_strict_codec record_codec c_record_data.codec_axioms assms)

interpretation raw: batch_records enc_raw dec_raw "\<lambda>v. v" "\<lambda>_. True"
  by unfold_locales (simp_all add: enc_raw_def dec_raw_def writes_put_out)

interpretation mem: batch_records enc_memory dec_memory wire_memory ok_memory
proof
  fix x :: MemoryRecords and version :: i16
  assume x: "ok_memory x"
  show "x = initial (dec_memory version)" if "wire_memory x = []"
    using that by (simp add: wire_memory_def wire_vec_def)
  assume version: "sint version \<ge> 0"
  note C = strict_codec.axioms(1) [OF memory_codec [OF version]]
  show "write_size (enc_memory version) x = Some (length (wire_memory x))"
    by (rule codec.size_law [OF C x])
  show "writes (encode (enc_memory version) x) (wire_memory x)"
    by (rule codec.writes_wire [OF C x])
  show "decode (dec_memory version) (initial (dec_memory version)) (wire_memory x) = DOk x []"
    using codec.decode_law [OF C x, of "[]"] by simp
qed

section \<open>Properties of record sets\<close>

text \<open>
  C5. Record sets of in-memory batches survive the wire: a record set whose
  records respect the varint range and that is smaller than 2 GiB is written
  to any destination with enough room, and decoding the bytes followed by
  anything gives the same batches, with the length and checksum fields as
  computed, and leaves what follows. The checksum function is arbitrary.
\<close>

theorem recordset_roundtrip:
  assumes "ok_recordset wire_memory ok_memory s" "0 \<le> sint version"
    and "length (wire_recordset crc32c wire_memory s) \<le> room d"
  shows "\<exists>bs. encode (enc_recordset crc32c enc_memory version) s d = EOk (put_slice bs d) \<and>
              decode (dec_recordset dec_memory version) \<lparr>batches = []\<rparr> (bs @ r) =
                DOk (seal_recordset crc32c wire_memory s) r"
  using mem.recordset_writes [OF assms(1,2), of crc32c] mem.recordset_reads [OF assms(1,2), of crc32c r] assms(3)
  by (auto simp: writes_def dec_recordset_def)

definition sample_record :: "RecordData Record" where
  "sample_record = record_new_key_value (Key [1]) [0x74, 0x65, 0x73, 0x74]"

definition sample_batch :: "MemoryRecords Batch" where
  "sample_batch = (default_batch [])\<lparr>base_offset := 7, records := [sample_record]\<rparr>"

lemma sample_body: "wire_record_body wire_record_data sample_record = [0, 0, 0, 1, 2, 1, 8, 0x74, 0x65, 0x73, 0x74, 0]"
  by (simp add: sample_record_def record_new_key_value_def wire_record_body_def wire_record_header_def
      default_record_header_def wire_option_def wire_bool_def wire_record_data_def wire_varint_def
      zigzag_def leb128_short be_bytes_def into_option_def)

lemma sample_wire: "wire_memory [sample_record] = [0, 0, 0, 1, 24, 0, 0, 0, 1, 2, 1, 8, 0x74, 0x65, 0x73, 0x74, 0]"
  by (simp add: wire_memory_def wire_vec_def wire_record_def sample_body wire_varint_def zigzag_def
      leb128_short be_bytes_def)

lemma sample_ok: "ok_memory [sample_record]"
  by (simp add: ok_memory_def ok_vec_def ok_record_def sample_body)
    (simp add: sample_record_def record_new_key_value_def default_record_header_def
      ok_record_header_def ok_option_def ok_record_data_def ok_varint_def into_option_def)

lemma sample_ok_batch: "ok_batch wire_memory ok_memory sample_batch"
  by (simp add: ok_batch_def sample_batch_def sample_ok sample_wire default_batch_def)

lemma sample_length: "length (wire_batch crc32c wire_memory sample_batch) = 74"
  by (simp add: length_wire_batch sample_batch_def sample_wire default_batch_def length_wire_schema
      has_schema_def default_batch_header_def BATCH_FILE_HEADER_SIZE_def BATCH_HEADER_SIZE_def
      BATCH_PREAMBLE_SIZE_def)

theorem recordset_roundtrip_witness:
  "ok_recordset wire_memory ok_memory \<lparr>batches = [sample_batch, sample_batch]\<rparr> \<and>
   (\<exists>bs. encode (enc_recordset (\<lambda>_. 5) enc_memory 0) \<lparr>batches = [sample_batch, sample_batch]\<rparr>
            \<lparr>written = [], room = 200\<rparr> = EOk (put_slice bs \<lparr>written = [], room = 200\<rparr>) \<and>
         decode (dec_recordset dec_memory 0) \<lparr>batches = []\<rparr> (bs @ [9]) =
           DOk (seal_recordset (\<lambda>_. 5) wire_memory \<lparr>batches = [sample_batch, sample_batch]\<rparr>) [9])"
proof -
  have "ok_recordset wire_memory ok_memory \<lparr>batches = [sample_batch, sample_batch]\<rparr>"
    by (simp add: ok_recordset_def sample_ok_batch wire_recordset_def sample_length Let_def)
  moreover have "length (wire_recordset (\<lambda>_. 5) wire_memory \<lparr>batches = [sample_batch, sample_batch]\<rparr>) \<le> 200"
    by (simp add: wire_recordset_def sample_length Let_def)
  ultimately show ?thesis
    using recordset_roundtrip [of "\<lparr>batches = [sample_batch, sample_batch]\<rparr>" 0 "\<lambda>_. 5"
        "\<lparr>written = [], room = 200\<rparr>" "[9]"] by simp
qed

section \<open>Truncated batches\<close>

lemma file_buf_rejects:
  fixes off :: i64 and len :: i32
  assumes version: "sint version \<ge> 0" and "header b0 = default_batch_header"
  shows "rejects (decode_from_file_buf version) b0 (be_bytes 8 off @ be_bytes 4 len @ wire_batch_header h)"
proof -
  note H = batch_header_codec [OF version]
  have ini: "initial (dec_batch_header version) = default_batch_header"
    by (simp add: dec_batch_header_def)
  show ?thesis
    unfolding decode_from_file_buf_def
    by (rule reject_field_intros strict_codec.field_rejects [OF H] codec.field_reads [OF strict_codec.axioms(1) [OF H]]
        reads_field_dec rejects_field_dec reads_int rejects_int | simp add: ini assms(2))+
qed

lemma decode_batch_short:
  assumes "sint version \<ge> 0" "header b0 = default_batch_header"
    and "n < length (be_bytes 8 (off :: i64) @ be_bytes 4 (len :: i32) @ wire_batch_header h)"
  shows "\<exists>k s r. decode_batch RD version b0
           (take n ((be_bytes 8 off @ be_bytes 4 len @ wire_batch_header h) @ rest)) = DErr (IoErr k) s r"
proof -
  have "take n ((be_bytes 8 off @ be_bytes 4 len @ wire_batch_header h) @ rest) =
        take n (be_bytes 8 off @ be_bytes 4 len @ wire_batch_header h)"
    using assms(3) by (simp only: take_append) simp
  then show ?thesis
    using file_buf_rejects [OF assms(1,2), of off len h] assms(3)
    unfolding rejects_def decode_batch_def by fastforce
qed

lemma decode_raw_records:
  "records c = [] \<Longrightarrow>
   decode_batch_records (dec_raw version) m c src = DOk (c\<lparr>records := take m src\<rparr>) (drop m src)"
  by (cases "take m src = []") (auto simp: decode_batch_records_def dec_raw_def Let_def)

lemma decode_raw_rest:
  fixes off :: i64 and len :: i32
  assumes version: "sint version \<ge> 0"
    and "decode_batch dec_raw version (default_batch [])
           ((be_bytes 8 off @ be_bytes 4 len @ wire_batch_header h) @ rest) = DOk b' r'"
  shows "header b' = h \<and> batch_len b' = len \<and>
         length (records b') \<le> length rest - (if has_schema h then 4 else 0) \<and>
         (has_schema h \<longrightarrow> 4 \<le> length rest)"
proof -
  let ?b0 = "default_batch [] :: RawRecords Batch"
  have "header ?b0 = default_batch_header" "records ?b0 = []" by (simp_all add: default_batch_def)
  then show ?thesis
    using assms decode_file_buf_wire [OF version, of ?b0 off len h rest]
    by (auto simp: decode_batch_def decode_raw_records dec_int_defs dec_fixed_def split: if_splits)
qed

lemma decode_truncated_raw:
  assumes version: "sint version \<ge> 0" and n: "n < length (wire_batch crc32c (\<lambda>v. v) b)"
    and dec: "decode_batch dec_raw version (default_batch []) (take n (wire_batch crc32c (\<lambda>v. v) b)) = DOk b' r'"
  shows "header b' = header (seal_batch crc32c (\<lambda>v. v) b) \<and>
         batch_len b' = batch_len (seal_batch crc32c (\<lambda>v. v) b) \<and>
         length (records b') < length (records b)"
proof -
  let ?s = "seal_batch crc32c (\<lambda>v. v) b"
  let ?front = "be_bytes 8 (base_offset b) @ be_bytes 4 (batch_len ?s) @ wire_batch_header (header ?s)"
  let ?rest = "wire_schema b @ records b"
  have wire: "wire_batch crc32c (\<lambda>v. v) b = ?front @ ?rest"
    by (simp add: wire_batch_def seal_batch_def wire_schema_def)
  have front: "length ?front \<le> n"
  proof (rule ccontr)
    assume "\<not> length ?front \<le> n"
    then have "n < length ?front" by (simp only: not_le)
    moreover have "header (default_batch []) = default_batch_header" by (simp add: default_batch_def)
    ultimately obtain k s r where
      "decode_batch dec_raw version (default_batch []) (take n (?front @ ?rest)) = DErr (IoErr k) s r"
      using decode_batch_short [OF version] by blast
    then show False using dec wire by (simp only: dres.distinct)
  qed
  then have "take n (?front @ ?rest) = ?front @ take (n - length ?front) ?rest"
    by (simp only: take_append) simp
  then have b': "header b' = header ?s \<and> batch_len b' = batch_len ?s \<and>
      length (records b') \<le> length (take (n - length ?front) ?rest) - (if has_schema (header ?s) then 4 else 0) \<and>
      (has_schema (header ?s) \<longrightarrow> 4 \<le> length (take (n - length ?front) ?rest))"
    using decode_raw_rest [OF version] dec wire by metis
  have "has_schema (header ?s) = has_schema (header b)" by (simp add: seal_batch_def)
  moreover have "n - length ?front < length ?rest" using n wire front by (simp only: length_append)
  ultimately have "length (records b') < length (records b)"
    using b' by (auto simp: length_wire_schema split: if_splits)
  then show ?thesis using b' by blast
qed

text \<open>
  C30. A raw batch that was cut short does not pass for a whole one: if a
  proper prefix of its encoding decodes at all, \<open>validate_decoding\<close> is false
  for the result.
\<close>

theorem truncated_raw_batch_invalid:
  assumes "0 \<le> sint version" "length (records b) < 2 ^ 31 - 49"
    and "encode (enc_batch crc32c enc_raw version) b vec_sink = EOk d" "n < length (written d)"
    and "decode (dec_batch dec_raw version) (default_batch []) (take n (written d)) = DOk b' r'"
  shows "validate_decoding enc_raw b' = Some False"
proof -
  let ?s = "seal_batch crc32c (\<lambda>v. v) b"
  have ok: "ok_batch (\<lambda>v. v) (\<lambda>_. True) b" using assms(2) by (simp add: ok_batch_def)
  have "length (wire_batch crc32c (\<lambda>v. v) b) < 2 ^ 63"
    using assms(2) by (simp add: length_wire_batch length_wire_schema
        BATCH_FILE_HEADER_SIZE_def BATCH_HEADER_SIZE_def BATCH_PREAMBLE_SIZE_def)
  from writes_vec_sink [OF raw.batch_writes [OF ok assms(1)] this]
  have d: "written d = wire_batch crc32c (\<lambda>v. v) b" using assms(3) by (metis eres.inject(1))
  have b': "header b' = header ?s" "batch_len b' = batch_len ?s" "length (records b') < length (records b)"
    using decode_truncated_raw [OF assms(1), of n crc32c b b' r'] assms(4,5) d
    by (simp_all add: dec_batch_def)
  have "batch_len ?s = word_of_nat (BATCH_HEADER_SIZE + length (wire_schema b) + length (records b))"
    by (simp add: seal_batch_def)
  moreover have "calc_batch_len enc_raw b' =
      Some (word_of_nat (BATCH_HEADER_SIZE + length (wire_schema b) + length (records b')))"
    using b' by (simp add: calc_batch_len_def enc_raw_def length_wire_schema seal_batch_def)
  ultimately show ?thesis
    using b' assms(2) by (simp add: validate_decoding_def of_nat_i32_inject
        length_wire_schema BATCH_HEADER_SIZE_def del: of_nat_add)
qed

definition raw_sample :: "RawRecords Batch" where
  "raw_sample = (default_batch [])\<lparr>base_offset := 3, records := [1, 2, 3, 4]\<rparr>"

lemma raw_sample_cut:
  "decode (dec_batch dec_raw 0) (default_batch []) (take 59 (wire_batch (\<lambda>_. 5) (\<lambda>v. v) raw_sample)) =
     DOk (raw_sample\<lparr>batch_len := 49, header := default_batch_header\<lparr>crc := 5\<rparr>, records := [1, 2]\<rparr>) []"
proof -
  let ?h = "default_batch_header\<lparr>crc := 5\<rparr>"
  have none: "\<not> has_schema default_batch_header"
    by (simp add: has_schema_def default_batch_header_def)
  have cut: "take 59 (wire_batch (\<lambda>_. 5) (\<lambda>v. v) raw_sample) =
      be_bytes 8 (3 :: i64) @ be_bytes 4 (49 :: i32) @ wire_batch_header ?h @ [1, 2]"
    using none by (simp add: wire_batch_def seal_batch_def raw_sample_def default_batch_def wire_schema_def
        BATCH_HEADER_SIZE_def)
  have "unat (scast (49 :: i32) - word_of_nat BATCH_HEADER_SIZE :: u64) = 4"
    by (simp add: BATCH_HEADER_SIZE_def)
  then show ?thesis
    unfolding cut using none decode_file_buf_wire [of 0 "default_batch [] :: RawRecords Batch" 3 49 ?h "[1, 2]"]
    by (simp add: dec_batch_def decode_batch_def decode_raw_records default_batch_def raw_sample_def)
qed

theorem truncated_raw_batch_invalid_witness:
  "\<exists>d b'. encode (enc_batch (\<lambda>_. 5) enc_raw 0) raw_sample vec_sink = EOk d \<and> 59 < length (written d) \<and>
          decode (dec_batch dec_raw 0) (default_batch []) (take 59 (written d)) = DOk b' [] \<and>
          validate_decoding enc_raw b' = Some False"
proof -
  let ?w = "wire_batch (\<lambda>_. 5) (\<lambda>v. v) raw_sample"
  have len: "length ?w = 61"
    by (simp add: length_wire_batch raw_sample_def default_batch_def length_wire_schema has_schema_def
        default_batch_header_def BATCH_FILE_HEADER_SIZE_def BATCH_HEADER_SIZE_def BATCH_PREAMBLE_SIZE_def)
  have "ok_batch (\<lambda>v. v) (\<lambda>_. True) raw_sample"
    by (simp add: ok_batch_def raw_sample_def default_batch_def)
  from writes_vec_sink [OF raw.batch_writes [OF this, of 0 "\<lambda>_. 5"]] len
  have enc: "encode (enc_batch (\<lambda>_. 5) enc_raw 0) raw_sample vec_sink = EOk (put_slice ?w vec_sink)"
    "written (put_slice ?w vec_sink) = ?w" by simp_all
  then have "validate_decoding enc_raw (raw_sample\<lparr>batch_len := 49, header := default_batch_header\<lparr>crc := 5\<rparr>,
      records := [1, 2]\<rparr>) = Some False"
    using truncated_raw_batch_invalid [of 0 raw_sample "\<lambda>_. 5" _ 59] raw_sample_cut len
    by (simp add: raw_sample_def default_batch_def)
  then show ?thesis using enc raw_sample_cut len by (simp del: written_put_slice)
qed

section \<open>Compression\<close>

text \<open>
  C31. Compressing the records of a batch and reading them back is the
  identity, for every algorithm named by the header, when the algorithm's
  \<open>uncompress\<close> undoes its \<open>compress\<close>.
\<close>

theorem compressed_batch_roundtrip:
  assumes inverse: "\<And>c x y. alg c x = Inr y \<Longrightarrow> unalg c y = Inr x"
    and "ok_batch wire_memory ok_memory b" "to_raw_batch alg b = Inr rb"
  shows "memory_records unalg rb = Inr (records b)"
proof -
  have p: "ok_memory (records b)" and len: "length (wire_memory (records b)) < 2 ^ 63"
    using assms(2) by (simp_all add: ok_batch_def)
  have enc: "encode (enc_memory 0) (records b) vec_sink = EOk (put_slice (wire_memory (records b)) vec_sink)"
    "written (put_slice (wire_memory (records b)) vec_sink) = wire_memory (records b)"
    using writes_vec_sink [OF mem.records_writes [OF p, of 0] len] by simp_all
  obtain c where c: "get_compression b = Inr c" and rb: "compress alg c (wire_memory (records b)) = Inr (records rb)"
    and h: "header rb = header b"
    using assms(3) enc by (auto simp: to_raw_batch_def simp del: written_put_slice split: sum.splits)
  have "get_compression rb = Inr c" using c h by (simp add: get_compression_def)
  moreover have "decode (dec_memory 0) [] (wire_memory (records b)) = DOk (records b) []"
    using mem.records_exact [OF p, of 0] by (simp add: dec_memory_def)
  ultimately show ?thesis
    using rb inverse [of c]
    by (cases c) (auto simp: memory_records_def compress_def uncompress_def Let_def)
qed

theorem compressed_batch_roundtrip_witness:
  "\<exists>rb. to_raw_batch (\<lambda>c x. Inr (rev x)) (sample_batch\<lparr>header := set_compression Gzip default_batch_header\<rparr>) = Inr rb \<and>
        memory_records (\<lambda>c x. Inr (rev x)) rb = Inr [sample_record]"
proof -
  let ?b = "sample_batch\<lparr>header := set_compression Gzip default_batch_header\<rparr>"
  have ok: "ok_batch wire_memory ok_memory ?b" using sample_ok_batch by (simp add: ok_batch_def)
  have "encode (enc_memory 0) [sample_record] vec_sink = EOk (put_slice (wire_memory [sample_record]) vec_sink)"
    using writes_vec_sink [OF mem.records_writes [OF sample_ok, of 0]] by (simp add: sample_wire)
  moreover have "get_compression ?b = Inr Gzip"
    by (simp add: get_compression_def header_get_compression_def set_compression_def default_batch_header_def
        compression_code_def ATTR_COMPRESSION_CODEC_MASK_def compression_try_from_def)
  ultimately obtain rb where "to_raw_batch (\<lambda>c x. Inr (rev x)) ?b = Inr rb"
    by (auto simp: to_raw_batch_def sample_batch_def default_batch_def compress_def)
  then show ?thesis
    using compressed_batch_roundtrip [OF _ ok, of "\<lambda>c x. Inr (rev x)" "\<lambda>c x. Inr (rev x)" rb]
    by (simp add: sample_batch_def default_batch_def)
qed

text \<open>
  The compression codec set in a header is the one read back, and
  setting it leaves the schema flag alone.
\<close>

theorem set_get_compression:
  "header_get_compression (set_compression c h) = Inr c \<and> has_schema (set_compression c h) = has_schema h"
proof
  have mask: "(a AND NOT 7 OR (k AND 7)) AND 7 = k AND (7 :: i16)" for a k
    by (intro bit_eqI) (auto simp: bit_simps)
  have mask16: "(a AND NOT 7 OR (k AND 7)) AND 16 = a AND (16 :: i16)" for a k
  proof (intro bit_eqI)
    fix n
    have "(16 :: int) = 2 ^ 4" by simp
    then have "bit (16 :: int) n \<longleftrightarrow> n = 4" by (simp only: bit_exp_iff) simp
    then show "bit ((a AND NOT 7 OR (k AND 7)) AND 16) n = bit (a AND (16 :: i16)) n"
      by (auto simp: bit_simps)
  qed
  have attr: "attributes (set_compression c h) = attributes h AND NOT 7 OR (scast (compression_code c) AND 7)"
    by (simp add: set_compression_def ATTR_COMPRESSION_CODEC_MASK_def)
  have "header_get_compression (set_compression c h) =
      compression_try_from (ucast (scast (compression_code c) AND (7 :: i16)))"
    by (simp only: header_get_compression_def attr ATTR_COMPRESSION_CODEC_MASK_def mask)
  then show "header_get_compression (set_compression c h) = Inr c"
    by (cases c) (simp_all add: compression_code_def compression_try_from_def)
  show "has_schema (set_compression c h) = has_schema h"
    by (simp only: has_schema_def attr ATTR_SCHEMA_PRESENT_def mask16)
qed

section \<open>Schema ids and lengths\<close>

definition encodes_beyond :: "nat \<Rightarrow> 'r Batch encoder \<Rightarrow> 'r Batch \<Rightarrow> bool" where
  "encodes_beyond k E b \<longleftrightarrow>
     (\<exists>n d. write_size E b = Some n \<and> encode E b vec_sink = EOk d \<and> length (written d) = n + k)"

context batch_records
begin

lemma written_batch_size:
  assumes "ok_batch w p b" "0 \<le> sint version"
  shows "encodes_beyond (if has_schema (header b) then 4 else 0) (enc_batch crc32c R version) b"
proof -
  have size: "write_size (R version) (records b) = Some (length (w (records b)))"
    using assms records_size by (simp add: ok_batch_def)
  have len: "length (wire_batch crc32c w b) =
      BATCH_FILE_HEADER_SIZE + length (w (records b)) + (if has_schema (header b) then 4 else 0)"
    by (simp add: length_wire_batch length_wire_schema)
  then have "length (wire_batch crc32c w b) < 2 ^ 63"
    using assms(1) by (simp add: ok_batch_def BATCH_FILE_HEADER_SIZE_def BATCH_HEADER_SIZE_def BATCH_PREAMBLE_SIZE_def)
  from writes_vec_sink [OF batch_writes [OF assms] this] len size show ?thesis
    unfolding encodes_beyond_def by (simp add: enc_batch_def del: written_put_slice)
qed

end

text \<open>
  The \<open>write_size\<close> of a batch, raw or in memory, is the number of bytes
  it encodes to exactly when the batch has no schema id. A batch with one
  encodes to four bytes more, although the doc of \<open>Encoder\<close> says that
  \<open>write_size\<close> is the size of the object in bytes.
\<close>

theorem schema_batch_write_size:
  assumes "0 \<le> sint version"
  shows "(ok_batch (\<lambda>v. v) (\<lambda>_. True) raw_batch \<longrightarrow>
            encodes_beyond (if has_schema (header raw_batch) then 4 else 0) (enc_batch crc32c enc_raw version) raw_batch) \<and>
         (ok_batch wire_memory ok_memory batch \<longrightarrow>
            encodes_beyond (if has_schema (header batch) then 4 else 0) (enc_batch crc32c enc_memory version) batch)"
  using raw.written_batch_size [OF _ assms] mem.written_batch_size [OF _ assms] by blast

theorem schema_batch_write_size_witness:
  "encodes_beyond 4 (enc_batch (\<lambda>_. 5) enc_raw 0) (set_schema_id 42 raw_sample)"
proof -
  have "has_schema (header (set_schema_id 42 raw_sample))"
    by (simp add: set_schema_id_def header_set_schema_id_def has_schema_def raw_sample_def
        default_batch_def default_batch_header_def ATTR_SCHEMA_PRESENT_def)
  moreover have "ok_batch (\<lambda>v. v) (\<lambda>_. True) (set_schema_id 42 raw_sample)"
    by (simp add: ok_batch_def set_schema_id_def raw_sample_def)
  ultimately show ?thesis
    using schema_batch_write_size [of 0 "set_schema_id 42 raw_sample" "\<lambda>_. 5"] by simp
qed

text \<open>
  Converting a raw batch with a schema id to an in-memory batch drops the
  id but keeps the flag, and leaves a \<open>batch_len\<close> that \<open>validate_decoding\<close> rejects.
\<close>

theorem schema_lost_in_memory_batch:
  assumes "has_schema (header rb)" "to_memory_batch unalg rb = Some (Inr mb)"
  shows "has_schema (header mb) \<and> schema_id mb = SCHEMA_ID_NULL \<and>
         validate_decoding enc_memory mb = Some False"
proof -
  obtain rs n where n: "write_size (enc_memory 0) rs = Some n"
    and mb: "mb = \<lparr>base_offset = base_offset rb, batch_len = word_of_nat (BATCH_HEADER_SIZE + n),
                  header = header rb, schema_id = SCHEMA_ID_NULL, records = rs\<rparr>"
    using assms(2) by (auto simp: to_memory_batch_def split: sum.splits bind_splits)
  have "(word_of_nat (BATCH_HEADER_SIZE + n) :: i32) \<noteq> word_of_nat (BATCH_HEADER_SIZE + n) + 4" by simp
  then show ?thesis
    using assms(1) n mb by (simp add: validate_decoding_def calc_batch_len_def add.commute)
qed

theorem schema_lost_in_memory_batch_witness:
  "\<exists>mb. to_memory_batch (\<lambda>c x. Inr x) (set_schema_id 42 ((default_batch [])\<lparr>records := wire_memory [sample_record]\<rparr>))
           = Some (Inr mb) \<and> has_schema (header mb) \<and> schema_id mb = SCHEMA_ID_NULL \<and>
        validate_decoding enc_memory mb = Some False"
proof -
  let ?rb = "set_schema_id 42 ((default_batch [])\<lparr>records := wire_memory [sample_record]\<rparr>)"
  have has: "has_schema (header ?rb)"
    by (simp add: set_schema_id_def header_set_schema_id_def has_schema_def
        default_batch_def default_batch_header_def ATTR_SCHEMA_PRESENT_def)
  have "decode (dec_memory 0) [] (wire_memory [sample_record]) = DOk [sample_record] []"
    using mem.records_exact [OF sample_ok, of 0] by (simp add: dec_memory_def)
  then have "memory_records (\<lambda>c x. Inr x) ?rb = Inr [sample_record]"
    by (simp add: memory_records_def get_compression_def header_get_compression_def set_schema_id_def
        header_set_schema_id_def default_batch_def default_batch_header_def compression_try_from_def
        ATTR_SCHEMA_PRESENT_def ATTR_COMPRESSION_CODEC_MASK_def)
  then obtain mb where "to_memory_batch (\<lambda>c x. Inr x) ?rb = Some (Inr mb)"
    using mem.records_size [OF sample_ok, of 0] by (simp add: to_memory_batch_def)
  then show ?thesis using schema_lost_in_memory_batch [OF has] by blast
qed

section \<open>Building batches\<close>

lemma length_number_records [simp]: "length (number_records rs) = length rs"
  by (simp add: number_records_def)

lemma nth_number_records:
  "i < length rs \<Longrightarrow>
   number_records rs ! i = (rs ! i)\<lparr>preamble := (preamble (rs ! i))\<lparr>offset_delta := word_of_nat i\<rparr>\<rparr>"
  by (simp add: number_records_def set_offset_delta_r_def)

lemma map_number_records [simp]:
  "map value_r (number_records rs) = map value_r rs"
  "map key_r (number_records rs) = map key_r rs"
  "map (\<lambda>x. offset_delta (preamble x)) (number_records rs) = map word_of_nat [0 ..< length rs]"
  by (rule nth_equalityI; simp add: nth_number_records)+

text \<open>
  \<open>add_record\<close> keeps a batch consistent: the result passes
  \<open>validate_decoding\<close>, counts one record more, keeps keys and values, and the
  records carry their positions as offset deltas.
\<close>

theorem add_record_consistent:
  assumes "add_record r b = Some b'" "length (records b) + 1 < 2 ^ 31"
  shows "validate_decoding enc_memory b' = Some True \<and>
         records_len b' = length (records b) + 1 \<and>
         map value_r (records b') = map value_r (records b @ [r]) \<and>
         map key_r (records b') = map key_r (records b @ [r]) \<and>
         map (\<lambda>x. offset_delta (preamble x)) (records b') = map word_of_nat [0 ..< length (records b) + 1]"
proof -
  obtain b1 n where b1: "add_records [r] b = Some b1" and n: "calc_batch_len enc_memory b1 = Some n"
    and b': "b' = b1\<lparr>batch_len := n\<rparr>"
    using assms(1) by (auto simp: add_record_def split: bind_splits)
  have recs: "records b1 = number_records (records b @ [r])"
    and delta: "last_offset_delta (header b1) = word_of_nat (length (records b))"
    using b1 by (auto simp: add_records_def update_offset_deltas_def split: bind_splits)
  have "sint (last_offset_delta (header b')) = int (length (records b))"
    using assms(2) delta b' by (simp add: sint_of_nat_word)
  then have "records_len b' = length (records b) + 1" by (simp add: records_len_def)
  moreover have "validate_decoding enc_memory b' = Some True"
    using n b' by (simp add: validate_decoding_def calc_batch_len_def)
  moreover have "map value_r (records b') = map value_r (records b @ [r])"
      "map key_r (records b') = map key_r (records b @ [r])"
      "map (\<lambda>x. offset_delta (preamble x)) (records b') = map word_of_nat [0 ..< length (records b) + 1]"
    using recs b' by (simp_all del: upt_Suc)
  ultimately show ?thesis by blast
qed

theorem add_record_consistent_witness:
  "\<exists>b'. add_record sample_record (default_batch []) = Some b' \<and>
        validate_decoding enc_memory b' = Some True \<and> records_len b' = 1 \<and>
        map value_r (records b') = [[0x74, 0x65, 0x73, 0x74]]"
proof -
  have num: "number_records [sample_record] = [sample_record]"
    by (simp add: number_records_def set_offset_delta_r_def sample_record_def record_new_key_value_def
        default_record_header_def)
  obtain b' where b': "add_record sample_record (default_batch []) = Some b'"
    using mem.records_size [OF sample_ok, of 0] num
    by (simp add: add_record_def add_records_def calc_batch_len_def default_batch_def update_offset_deltas_def)
  then show ?thesis
    using add_record_consistent [OF b'] by (simp add: default_batch_def sample_record_def record_new_key_value_def)
qed

text \<open>
  \<open>add_records\<close> computes \<open>batch_len\<close> before it renumbers the records, so a
  record that comes with another offset delta can leave a wrong length.
\<close>

theorem add_records_stale_length:
  "\<exists>b'. add_records [record_new [1]\<lparr>preamble := \<lparr>attributes_r = 0, timestamp_delta = 0, offset_delta = 100\<rparr>\<rparr>]
          (default_batch []) = Some b' \<and> validate_decoding enc_memory b' = Some False"
proof -
  define r where "r k = record_new [1]\<lparr>preamble := \<lparr>attributes_r = 0, timestamp_delta = 0, offset_delta = k\<rparr>\<rparr>"
    for k :: i64
  have body: "length (wire_record_body wire_record_data (r 100)) = 8"
      "length (wire_record_body wire_record_data (r 0)) = 7"
    by (simp_all add: r_def record_new_def wire_record_body_def wire_record_header_def wire_option_def
        wire_bool_def wire_record_data_def wire_varint_def zigzag_def leb128_short leb128_long)
  have ok: "ok_memory [r 100]" "ok_memory [r 0]"
    using body by (simp_all add: ok_memory_def ok_vec_def ok_record_def)
      (simp_all add: r_def record_new_def ok_record_header_def ok_option_def ok_record_data_def ok_varint_def)
  have "length (wire_memory [r 100]) = 13" "length (wire_memory [r 0]) = 12"
    using body by (simp_all add: wire_memory_def wire_vec_def wire_record_def wire_varint_def zigzag_def leb128_short)
  then have size: "write_size (enc_memory 0) [r 100] = Some 13" "write_size (enc_memory 0) [r 0] = Some 12"
    using mem.records_size [OF ok(1), of 0] mem.records_size [OF ok(2), of 0] by simp_all
  have num: "number_records [r 100] = [r 0]"
    by (simp add: number_records_def r_def set_offset_delta_r_def)
  have "\<not> has_schema (default_batch_header\<lparr>last_offset_delta := 0\<rparr>)" "\<not> has_schema default_batch_header"
    by (simp_all add: has_schema_def default_batch_header_def)
  then show ?thesis
    using size num unfolding r_def [symmetric]
    by (simp add: add_records_def calc_batch_len_def validate_decoding_def update_offset_deltas_def
        default_batch_def BATCH_HEADER_SIZE_def)
qed

end
