(* ===== verification/Log_Index.thy ===== *)
theory Log_Index
  imports Fluvio_Prelude
begin

text \<open>
  The offset index of a log segment: \<open>fluvio-storage/src/index.rs\<close>,
  \<open>mut_index.rs\<close> and the rebuild of \<open>repair.rs\<close>. The memory-mapped file is the
  list of its entries as stored, in big-endian byte order; what a mapping
  shows when a file is opened (\<open>MemoryMappedMutFile\<close>, \<open>MemoryMappedFile\<close>) is an
  argument of the functions that open one. The target is little-endian.
\<close>

section \<open>Entries\<close>

type_synonym Entry = "u32 \<times> u32"

definition u32_to_be :: "u32 \<Rightarrow> u32" where
  "u32_to_be w = be_word (rev (be_bytes 4 w))"

definition entry_to_be :: "Entry \<Rightarrow> Entry" where
  "entry_to_be e = (u32_to_be (fst e), u32_to_be (snd e))"

definition INDEX_ENTRY_SIZE :: nat where "INDEX_ENTRY_SIZE = 8"

section \<open>Lookup\<close>

text \<open>\<open>slice::binary_search_by\<close> of the standard library, and its result \<open>Ok\<close> (\<open>Inr\<close>) or \<open>Err\<close> (\<open>Inl\<close>).\<close>

datatype ordering = OrdLess | OrdEqual | OrdGreater

definition compare :: "'a::linorder \<Rightarrow> 'a \<Rightarrow> ordering" where
  "compare a b = (if a < b then OrdLess else if a = b then OrdEqual else OrdGreater)"

function bs_loop :: "('a \<Rightarrow> ordering) \<Rightarrow> 'a list \<Rightarrow> nat \<Rightarrow> nat \<Rightarrow> nat" where
  "bs_loop f xs sz base =
     (if sz > 1 then
        (let half = sz div 2; mid = base + half
         in bs_loop f xs (sz - half) (if f (xs ! mid) = OrdGreater then base else mid))
      else base)"
  by pat_completeness auto
termination by (relation "measure (\<lambda>(f, xs, sz, base). sz)") auto

declare bs_loop.simps [simp del]

definition binary_search_by :: "('a \<Rightarrow> ordering) \<Rightarrow> 'a list \<Rightarrow> nat + nat" where
  "binary_search_by f xs =
     (if xs = [] then Inl 0
      else (let base = bs_loop f xs (length xs) 0
            in case f (xs ! base) of
                 OrdEqual \<Rightarrow> Inr base
               | OrdLess \<Rightarrow> Inl (base + 1)
               | OrdGreater \<Rightarrow> Inl base))"

text \<open>
  Indexing an empty slice panics. The insertion point is not 0 where 1 is
  subtracted, because the first entry is not greater than the offset.
\<close>

definition lookup_entry :: "Entry list \<Rightarrow> u32 \<Rightarrow> fault + nat option" where
  "lookup_entry offsets offset =
     (case offsets of
        [] \<Rightarrow> Inl Panic
      | first # _ \<Rightarrow>
          if offset < fst (entry_to_be first) then Inr None
          else (case binary_search_by (\<lambda>entry. compare (u32_to_be (fst entry)) offset) offsets of
                  Inr idx \<Rightarrow> Inr (Some idx)
                | Inl idx \<Rightarrow> Inr (Some (idx - 1))))"

text \<open>The read-only index of a closed segment.\<close>

definition li_find_offset :: "Entry list \<Rightarrow> u32 \<Rightarrow> fault + Entry option" where
  "li_find_offset mapped offset =
     (case lookup_entry mapped offset of
        Inl e \<Rightarrow> Inl e
      | Inr None \<Rightarrow> Inr None
      | Inr (Some idx) \<Rightarrow> Inr (Some (entry_to_be (mapped ! idx))))"

section \<open>The index of the active segment\<close>

record MutLogIndex =
  mi_slots :: "Entry list"
  mi_accumulated :: u32
  mi_last_delta :: u32
  mi_first_empty :: u32
  mi_interval :: u32

definition mi_create :: "u32 \<Rightarrow> u32 \<Rightarrow> Entry list \<Rightarrow> fault + MutLogIndex" where
  "mi_create index_max_bytes max_interval mapped =
     (if index_max_bytes = 0 then Inl (IoErr InvalidInput)
      else Inr \<lparr>mi_slots = mapped, mi_accumulated = 0, mi_last_delta = 0, mi_first_empty = 0,
                mi_interval = max_interval\<rparr>)"

fun find_first_empty :: "nat \<Rightarrow> Entry list \<Rightarrow> fault + u32" where
  "find_first_empty i [] = Inl (IoErr InvalidData)"
| "find_first_empty i (e # es) = (if snd e = 0 then Inr (word_of_nat i) else find_first_empty (i + 1) es)"

definition find_first_empty_index :: "MutLogIndex \<Rightarrow> fault + u32" where
  "find_first_empty_index idx = find_first_empty 0 (mi_slots idx)"

definition mi_open :: "u32 \<Rightarrow> u32 \<Rightarrow> Entry list \<Rightarrow> fault + MutLogIndex" where
  "mi_open index_max_bytes max_interval mapped =
     (if index_max_bytes = 0 then Inl (IoErr InvalidInput)
      else (let index = \<lparr>mi_slots = mapped, mi_accumulated = 0, mi_last_delta = 0, mi_first_empty = 0,
                         mi_interval = max_interval\<rparr>
            in case find_first_empty_index index of
                 Inl e \<Rightarrow> Inl e
               | Inr slot \<Rightarrow> Inr (index\<lparr>mi_first_empty := slot\<rparr>)))"

text \<open>\<open>shrink\<close> truncates the file to the entries written; the result is its contents.\<close>

definition mi_shrink :: "MutLogIndex \<Rightarrow> Entry list" where
  "mi_shrink idx = take (unat (mi_first_empty idx)) (mi_slots idx)"

definition write_index :: "u32 \<Rightarrow> u32 \<Rightarrow> u32 \<Rightarrow> MutLogIndex \<Rightarrow> fault + MutLogIndex" where
  "write_index offset_delta file_position batch_size idx =
     (if (if offset_delta > 0 then \<not> offset_delta > mi_last_delta idx else mi_last_delta idx \<noteq> 0)
      then Inl Panic
      else (let idx = idx\<lparr>mi_last_delta := offset_delta\<rparr>
            in if mi_accumulated idx < mi_interval idx then
                 Inr (idx\<lparr>mi_accumulated := mi_accumulated idx + batch_size\<rparr>)
               else if unat (mi_first_empty idx) < length (mi_slots idx) then
                 Inr (idx\<lparr>mi_slots := (mi_slots idx)[unat (mi_first_empty idx) :=
                                        (u32_to_be offset_delta, u32_to_be file_position)],
                          mi_accumulated := 0,
                          mi_first_empty := mi_first_empty idx + 1\<rparr>)
               else Inr idx))"

definition mi_find_offset :: "MutLogIndex \<Rightarrow> u32 \<Rightarrow> fault + Entry option" where
  "mi_find_offset idx relative_offset =
     (if mi_first_empty idx = 0 then Inr None
      else (case lookup_entry (take (unat (mi_first_empty idx)) (mi_slots idx)) relative_offset of
              Inl e \<Rightarrow> Inl e
            | Inr None \<Rightarrow> Inr None
            | Inr (Some i) \<Rightarrow> Inr (Some (entry_to_be (mi_slots idx ! i)))))"

definition mi_len :: "MutLogIndex \<Rightarrow> nat" where
  "mi_len idx = unat (mi_first_empty idx) * INDEX_ENTRY_SIZE"

section \<open>Rebuilding an index from the log\<close>

fun rebuild_loop :: "i64 \<Rightarrow> u32 \<Rightarrow> (i64 \<times> u32) list \<Rightarrow> u32 \<Rightarrow> MutLogIndex \<Rightarrow> fault + MutLogIndex" where
  "rebuild_loop base_offset interval [] prev_pos idx = Inr idx"
| "rebuild_loop base_offset interval ((batch_offset, batch_pos) # rest) prev_pos idx =
     (let relative_offset = ucast (batch_offset - base_offset) :: u32;
          batch_size = (if batch_pos > prev_pos then batch_pos - prev_pos else interval + 1)
      in case write_index relative_offset batch_pos batch_size idx of
           Inl e \<Rightarrow> Inl e
         | Inr idx' \<Rightarrow> rebuild_loop base_offset interval rest batch_pos idx')"

definition rebuild_index :: "i64 \<Rightarrow> (i64 \<times> u32) list \<Rightarrow> u32 \<Rightarrow> u32 \<Rightarrow> Entry list \<Rightarrow> fault + nat \<times> Entry list" where
  "rebuild_index base_offset log_batches index_max_bytes interval mapped =
     (case mi_create index_max_bytes interval mapped of
        Inl e \<Rightarrow> Inl e
      | Inr new_index \<Rightarrow>
          (case rebuild_loop base_offset interval log_batches 0 new_index of
             Inl e \<Rightarrow> Inl e
           | Inr idx \<Rightarrow> Inr (mi_len idx div INDEX_ENTRY_SIZE, mi_shrink idx)))"

datatype RepairError =
    PositionPastEof nat u32 nat
  | NonMonotonicOffset nat u32 u32
  | PositionMismatch u32 u32 u32

definition entry_errors :: "(i64 \<times> u32) list \<Rightarrow> nat \<Rightarrow> nat \<Rightarrow> u32 \<Rightarrow> Entry \<Rightarrow> RepairError list" where
  "entry_errors log_batches log_size slot prev_offset e =
     (let (offset, position) = e
      in (if unat position > log_size then [PositionPastEof slot position log_size] else []) @
         (if slot > 0 \<and> offset < prev_offset then [NonMonotonicOffset slot offset prev_offset] else []) @
         (if position \<notin> snd ` set log_batches then
            [PositionMismatch offset position
               (case find (\<lambda>b. ucast (fst b) = offset) log_batches of Some b \<Rightarrow> snd b | None \<Rightarrow> 0)]
          else []))"

fun validate_entries :: "(i64 \<times> u32) list \<Rightarrow> nat \<Rightarrow> nat \<Rightarrow> u32 \<Rightarrow> Entry list \<Rightarrow> RepairError list" where
  "validate_entries log_batches log_size slot prev_offset [] = []"
| "validate_entries log_batches log_size slot prev_offset (e # es) =
     (if e = (0, 0) then []
      else entry_errors log_batches log_size slot prev_offset e @
           validate_entries log_batches log_size (slot + 1) (fst e) es)"

definition validate_index :: "Entry list \<Rightarrow> (i64 \<times> u32) list \<Rightarrow> nat \<Rightarrow> RepairError list" where
  "validate_index index_entries log_batches log_size = validate_entries log_batches log_size 0 0 index_entries"

section \<open>Byte order\<close>

lemma be_bytes_word:
  assumes "length bs = n" "LENGTH('a::len) = 8 * n"
  shows "be_bytes n (be_word bs :: 'a word) = bs"
proof -
  have "(256::nat) ^ n = 2 ^ LENGTH('a)" using assms(2) by (simp add: power_mult)
  then have "unat (word_of_nat (be_val bs) :: 'a word) = be_val bs"
    using be_val_less [of bs] assms(1) by (simp add: unat_of_nat)
  then show ?thesis by (simp add: be_bytes_def be_word_def be_digits_val assms(1))
qed

lemma u32_to_be_involution [simp]: "u32_to_be (u32_to_be w) = w"
  by (simp add: u32_to_be_def be_bytes_word be_word_bytes)

lemma entry_to_be_involution [simp]: "entry_to_be (entry_to_be e) = e"
  by (simp add: entry_to_be_def)

lemma entry_to_be_pair [simp]: "entry_to_be (u32_to_be a, u32_to_be b) = (a, b)"
  by (simp add: entry_to_be_def)

lemma u32_to_be_0 [simp]: "u32_to_be w = 0 \<longleftrightarrow> w = 0"
proof -
  have "u32_to_be 0 = 0"
    by (simp add: u32_to_be_def be_bytes_def be_word_def be_val_def)
  then show ?thesis using u32_to_be_involution by metis
qed

section \<open>Binary search\<close>

text \<open>
  The loop keeps an index whose element is not greater than what is looked
  for; everything from the end of the remaining window on is greater.
\<close>

lemma bs_loop_spec:
  assumes "base + sz \<le> length xs" "sz > 0"
    and mono: "\<forall>i j. i \<le> j \<longrightarrow> j < length xs \<longrightarrow> f (xs ! i) = OrdGreater \<longrightarrow> f (xs ! j) = OrdGreater"
    and "base = 0 \<or> f (xs ! base) \<noteq> OrdGreater"
    and "\<forall>j < length xs. base + sz \<le> j \<longrightarrow> f (xs ! j) = OrdGreater"
  shows "bs_loop f xs sz base < length xs \<and> (bs_loop f xs sz base = 0 \<or> f (xs ! bs_loop f xs sz base) \<noteq> OrdGreater) \<and>
     (\<forall>j < length xs. bs_loop f xs sz base < j \<longrightarrow> f (xs ! j) = OrdGreater)"
  using assms(1,2,4,5)
proof (induction sz arbitrary: base rule: less_induct)
  case (less sz)
  show ?case
  proof (cases "sz > 1")
    case True
    let ?mid = "base + sz div 2"
    let ?base = "if f (xs ! ?mid) = OrdGreater then base else ?mid"
    have step: "bs_loop f xs sz base = bs_loop f xs (sz - sz div 2) ?base"
      using True by (subst bs_loop.simps) (simp add: Let_def)
    have up: "f (xs ! j) = OrdGreater" if "f (xs ! ?mid) = OrdGreater" "?mid \<le> j" "j < length xs" for j
      using mono that by blast
    have "\<forall>j < length xs. ?base + (sz - sz div 2) \<le> j \<longrightarrow> f (xs ! j) = OrdGreater"
    proof (cases "f (xs ! ?mid) = OrdGreater")
      case True
      then show ?thesis using up by auto
    next
      case False
      then show ?thesis using less.prems(4) by auto
    qed
    moreover have "sz - sz div 2 < sz" "?base + (sz - sz div 2) \<le> length xs" "0 < sz - sz div 2"
        "?base = 0 \<or> f (xs ! ?base) \<noteq> OrdGreater"
      using True less.prems(1,3) by auto
    ultimately show ?thesis unfolding step by (intro less.IH)
  next
    case False
    then have "bs_loop f xs sz base = base" by (subst bs_loop.simps) simp
    then show ?thesis using False less.prems by simp
  qed
qed

text \<open>\<open>keys_sorted\<close>: the entries, read in native order, have strictly increasing offsets.\<close>

definition keys_sorted :: "Entry list \<Rightarrow> bool" where
  "keys_sorted es = sorted_wrt (\<lambda>a b. fst (entry_to_be a) < fst (entry_to_be b)) es"

lemma keys_sorted_nth:
  "keys_sorted es \<Longrightarrow> i \<le> j \<Longrightarrow> j < length es \<Longrightarrow> fst (entry_to_be (es ! i)) \<le> fst (entry_to_be (es ! j))"
  using sorted_wrt_nth_less [of "\<lambda>a b. fst (entry_to_be a) < fst (entry_to_be b)" es i j]
  by (cases "i = j") (simp_all add: keys_sorted_def)

lemma lookup_entry_sorted:
  assumes "keys_sorted es" "es \<noteq> []"
  shows "(offset < fst (entry_to_be (es ! 0)) \<and> lookup_entry es offset = Inr None) \<or>
         (\<exists>i < length es. lookup_entry es offset = Inr (Some i) \<and> fst (entry_to_be (es ! i)) \<le> offset \<and>
            (\<forall>j < length es. i < j \<longrightarrow> offset < fst (entry_to_be (es ! j))))"
proof (cases "offset < fst (entry_to_be (es ! 0))")
  case True
  then show ?thesis using assms(2) by (cases es) (auto simp: lookup_entry_def)
next
  case False
  let ?f = "\<lambda>entry. compare (u32_to_be (fst entry)) offset"
  have f: "?f e = OrdGreater \<longleftrightarrow> offset < fst (entry_to_be e)" for e
    by (auto simp: compare_def entry_to_be_def)
  define b where "b = bs_loop ?f es (length es) 0"
  have mono: "\<forall>i j. i \<le> j \<longrightarrow> j < length es \<longrightarrow> ?f (es ! i) = OrdGreater \<longrightarrow> ?f (es ! j) = OrdGreater"
    unfolding f using keys_sorted_nth [OF assms(1)] order_less_le_trans by blast
  have b: "b < length es" "b = 0 \<or> ?f (es ! b) \<noteq> OrdGreater" "\<forall>j < length es. b < j \<longrightarrow> ?f (es ! j) = OrdGreater"
    using bs_loop_spec [of 0 "length es" es, OF _ _ mono] assms(2) unfolding b_def by auto
  then have le: "fst (entry_to_be (es ! b)) \<le> offset" using False f by (metis not_le)
  then have "?f (es ! b) \<noteq> OrdGreater" using f by (auto simp: not_less)
  then have "binary_search_by ?f es = Inr b \<or> binary_search_by ?f es = Inl (b + 1)"
    using assms(2) by (simp add: binary_search_by_def b_def [symmetric] split: ordering.splits)
  then have "lookup_entry es offset = Inr (Some b)"
    using False assms(2) by (cases es) (auto simp: lookup_entry_def)
  then show ?thesis using b le f by blast
qed

section \<open>What a lookup returns\<close>

text \<open>The reference: the last entry whose offset is at most the one looked for.\<close>

definition index_lookup :: "Entry list \<Rightarrow> u32 \<Rightarrow> Entry option" where
  "index_lookup es offset =
     (let below = filter (\<lambda>e. fst e \<le> offset) es in if below = [] then None else Some (last below))"

lemma filter_below:
  fixes es :: "Entry list"
  assumes "i < length es" "fst (es ! i) \<le> d" "\<forall>j < length es. i < j \<longrightarrow> d < fst (es ! j)"
    and "\<forall>j \<le> i. fst (es ! j) \<le> fst (es ! i)"
  shows "filter (\<lambda>e. fst e \<le> d) es = take (Suc i) es"
proof -
  have "filter (\<lambda>e. fst e \<le> d) (take (Suc i) es) = take (Suc i) es"
    unfolding filter_id_conv
  proof
    fix e
    assume "e \<in> set (take (Suc i) es)"
    then obtain j where j: "j \<le> i" "e = es ! j" using assms(1) by (auto simp: in_set_conv_nth less_Suc_eq_le)
    have "fst (es ! j) \<le> d" by (rule order_trans [OF assms(4) [rule_format, OF j(1)] assms(2)])
    then show "fst e \<le> d" using j(2) by simp
  qed
  moreover have "filter (\<lambda>e. fst e \<le> d) (drop (Suc i) es) = []"
    unfolding filter_empty_conv
  proof
    fix e
    assume "e \<in> set (drop (Suc i) es)"
    then obtain j where "j < length es - Suc i" "e = es ! (Suc i + j)" by (auto simp: in_set_conv_nth)
    then show "\<not> fst e \<le> d" using assms(3) [rule_format, of "Suc i + j"] by (simp add: not_le)
  qed
  ultimately have "filter (\<lambda>e. fst e \<le> d) (take (Suc i) es @ drop (Suc i) es) = take (Suc i) es"
    by (simp only: filter_append append_Nil2)
  then show ?thesis by (simp only: append_take_drop_id)
qed

lemma lookup_none: 
  assumes "keys_sorted es" "offset < fst (entry_to_be (es ! 0))"
  shows "filter (\<lambda>e. fst e \<le> offset) (map entry_to_be es) = []"
proof -
  have "\<not> fst (entry_to_be e) \<le> offset" if e: "e \<in> set es" for e
  proof -
    from e obtain i where "i < length es" "e = es ! i" unfolding in_set_conv_nth by blast
    then have "fst (entry_to_be (es ! 0)) \<le> fst (entry_to_be e)" using keys_sorted_nth [OF assms(1), of 0 i] by simp
    then show ?thesis using assms(2) by (meson not_le order_less_le_trans)
  qed
  then show ?thesis unfolding filter_empty_conv set_map by blast
qed

lemma lookup_some:
  assumes "keys_sorted es" "i < length es"  "fst (entry_to_be (es ! i)) \<le> offset" "\<forall>j < length es. i < j \<longrightarrow> offset < fst (entry_to_be (es ! j))"
  shows "index_lookup (map entry_to_be es) offset = Some (entry_to_be (es ! i))"
proof -
  have "filter (\<lambda>e. fst e \<le> offset) (map entry_to_be es) = take (Suc i) (map entry_to_be es)"
  proof (rule filter_below)
    show "\<forall>j \<le> i. fst (map entry_to_be es ! j) \<le> fst (map entry_to_be es ! i)"
      using keys_sorted_nth [OF assms(1)] assms(2) by simp
  qed (use assms in simp_all)
  moreover have "take (Suc i) (map entry_to_be es) = take i (map entry_to_be es) @ [entry_to_be (es ! i)]"
    using assms(2) by (simp add: take_Suc_conv_app_nth)
  ultimately show ?thesis by (simp add: index_lookup_def)
qed

lemma lookup_entry_reference:
  assumes "keys_sorted es" "es \<noteq> []"
  shows "(case lookup_entry es offset of
            Inl e \<Rightarrow> Inl e
          | Inr None \<Rightarrow> Inr None
          | Inr (Some i) \<Rightarrow> Inr (Some (entry_to_be (es ! i)))) =
         (Inr (index_lookup (map entry_to_be es) offset) :: fault + Entry option)"
  using lookup_entry_sorted [OF assms, of offset]
proof
  assume "offset < fst (entry_to_be (es ! 0)) \<and> lookup_entry es offset = Inr None"
  then show ?thesis using lookup_none [OF assms(1), of offset] by (simp add: index_lookup_def)
next
  assume "\<exists>i < length es. lookup_entry es offset = Inr (Some i) \<and> fst (entry_to_be (es ! i)) \<le> offset \<and>
            (\<forall>j < length es. i < j \<longrightarrow> offset < fst (entry_to_be (es ! j)))"
  then obtain i where "lookup_entry es offset = Inr (Some i)"
      "index_lookup (map entry_to_be es) offset = Some (entry_to_be (es ! i))"
    using lookup_some [OF assms(1)] by blast
  then show ?thesis by simp
qed

definition entries :: "MutLogIndex \<Rightarrow> Entry list" where
  "entries idx = map entry_to_be (take (unat (mi_first_empty idx)) (mi_slots idx))"

text \<open>
  \<open>idx_ok idx n\<close>: the written slots are in range and sorted, and all offsets
  written so far are below \<open>n\<close>, the relative end offset of the segment.
\<close>

definition idx_ok :: "MutLogIndex \<Rightarrow> nat \<Rightarrow> bool" where
  "idx_ok idx n =
     (unat (mi_first_empty idx) \<le> length (mi_slots idx) \<and> length (mi_slots idx) < 2 ^ 32 \<and>
      keys_sorted (take (unat (mi_first_empty idx)) (mi_slots idx)) \<and>
      (\<forall>e \<in> set (entries idx). unat (fst e) < n) \<and>
      unat (mi_last_delta idx) < max n 1)"

lemma mi_find_offset_reference:
  assumes "idx_ok idx n"
  shows "mi_find_offset idx d = Inr (index_lookup (entries idx) d)"
proof (cases "mi_first_empty idx = 0")
  case True
  then show ?thesis by (simp add: mi_find_offset_def entries_def index_lookup_def)
next
  case False
  let ?es = "take (unat (mi_first_empty idx)) (mi_slots idx)"
  have "0 < unat (mi_first_empty idx)" using False by (simp add: unat_gt_0)
  then have ne: "?es \<noteq> []" and sorted: "keys_sorted ?es" using assms by (auto simp: idx_ok_def)
  have "mi_slots idx ! i = ?es ! i" if "lookup_entry ?es d = Inr (Some i)" for i
    using lookup_entry_sorted [OF sorted ne, of d] that by auto
  then show ?thesis
    using False lookup_entry_reference [OF sorted ne, of d]
    by (auto simp: mi_find_offset_def entries_def split: sum.splits option.splits)
qed

lemma li_find_offset_reference:
  assumes "keys_sorted mapped" "mapped \<noteq> []"
  shows "li_find_offset mapped d = Inr (index_lookup (map entry_to_be mapped) d)"
  using lookup_entry_reference [OF assms, of d] by (simp add: li_find_offset_def)

section \<open>Writing, closing and reopening\<close>

lemma keys_sorted_snoc:
  "keys_sorted (es @ [e]) \<longleftrightarrow> keys_sorted es \<and> (\<forall>x \<in> set es. fst (entry_to_be x) < fst (entry_to_be e))"
  by (auto simp: keys_sorted_def sorted_wrt_append)

lemma length_entries: "idx_ok idx n \<Longrightarrow> length (entries idx) = unat (mi_first_empty idx)"
  by (simp add: idx_ok_def entries_def)

lemma write_index_ok:
  assumes "idx_ok idx n" "n \<le> unat d"
  obtains idx' where "write_index d pos size' idx = Inr idx'" "idx_ok idx' (unat d + 1)"
    "mi_interval idx' = mi_interval idx" "length (mi_slots idx') = length (mi_slots idx)"
    "entries idx' = entries idx \<or> entries idx' = entries idx @ [(d, pos)]"
    "entries idx' = entries idx @
       (if mi_accumulated idx < mi_interval idx \<or> length (mi_slots idx) \<le> length (entries idx) then [] else [(d, pos)])"
    "mi_accumulated idx' =
       (if mi_accumulated idx < mi_interval idx then mi_accumulated idx + size'
        else if length (mi_slots idx) \<le> length (entries idx) then mi_accumulated idx else 0)"
proof -
  note len = length_entries [OF assms(1)]
  have "unat (mi_last_delta idx) < max n 1" using assms(1) by (simp add: idx_ok_def)
  then have "unat (mi_last_delta idx) = 0 \<or> unat (mi_last_delta idx) < unat d" using assms(2) by linarith
  then have assert: "\<not> (if d > 0 then \<not> d > mi_last_delta idx else mi_last_delta idx \<noteq> 0)"
    by (auto simp: word_less_nat_alt unat_eq_zero)
  have below: "\<forall>e \<in> set (entries idx). unat (fst e) < unat d + 1"
    using assms by (fastforce simp: idx_ok_def)
  let ?k = "unat (mi_first_empty idx)"
  consider (small) "mi_accumulated idx < mi_interval idx"
    | (full) "\<not> mi_accumulated idx < mi_interval idx" "\<not> ?k < length (mi_slots idx)"
    | (slot) "\<not> mi_accumulated idx < mi_interval idx" "?k < length (mi_slots idx)"
    by blast
  then show thesis
  proof cases
    case small
    let ?idx = "idx\<lparr>mi_last_delta := d, mi_accumulated := mi_accumulated idx + size'\<rparr>"
    show thesis
    proof (rule that)
      show "write_index d pos size' idx = Inr ?idx" using assert small by (simp add: write_index_def Let_def)
      show "idx_ok ?idx (unat d + 1)" using assms(1) below by (simp add: idx_ok_def entries_def)
    qed (use small in \<open>simp_all add: entries_def\<close>)
  next
    case full
    let ?idx = "idx\<lparr>mi_last_delta := d\<rparr>"
    show thesis
    proof (rule that)
      show "write_index d pos size' idx = Inr ?idx" using assert full by (simp add: write_index_def Let_def)
      show "idx_ok ?idx (unat d + 1)" using assms(1) below by (simp add: idx_ok_def entries_def)
    qed (use full len in \<open>simp_all add: entries_def\<close>)
  next
    case slot
    let ?idx = "idx\<lparr>mi_last_delta := d, mi_slots := (mi_slots idx)[?k := (u32_to_be d, u32_to_be pos)],
                    mi_accumulated := 0, mi_first_empty := mi_first_empty idx + 1\<rparr>"
    have k: "unat (mi_first_empty idx + 1) = Suc ?k"
      using assms(1) slot by (simp add: idx_ok_def unat_word_ariths)
    have take: "take (Suc ?k) ((mi_slots idx)[?k := e]) = take ?k (mi_slots idx) @ [e]" for e
      using slot(2) by (simp add: take_Suc_conv_app_nth)
    have lt: "unat (fst e) < unat d" if "e \<in> set (entries idx)" for e
      using assms that by (fastforce simp: idx_ok_def)
    show thesis
    proof (rule that)
      show "write_index d pos size' idx = Inr ?idx" using assert slot by (simp add: write_index_def Let_def)
      show new: "entries ?idx = entries idx \<or> entries ?idx = entries idx @ [(d, pos)]"
        by (simp add: entries_def k take)
      show "entries ?idx = entries idx @
          (if mi_accumulated idx < mi_interval idx \<or> length (mi_slots idx) \<le> length (entries idx) then [] else [(d, pos)])"
        using slot len by (simp add: entries_def k take)
      show "idx_ok ?idx (unat d + 1)"
        using assms(1) slot(2) lt below
        by (auto simp: idx_ok_def entries_def k take keys_sorted_snoc word_less_nat_alt)
    qed (use slot len in simp_all)
  qed
qed

lemma find_first_empty_skip:
  "\<forall>e \<in> set es. snd e \<noteq> 0 \<Longrightarrow>
     find_first_empty i (es @ (0, 0) # rest) = Inr (word_of_nat (i + length es))"
  by (induction es arbitrary: i) (auto simp: add.commute)

lemma find_first_empty_full: "\<forall>e \<in> set es. snd e \<noteq> 0 \<Longrightarrow> find_first_empty i es = Inl (IoErr InvalidData)"
  by (induction es arbitrary: i) auto

lemma entries_shrink: "map entry_to_be (mi_shrink idx) = entries idx"
  by (simp add: entries_def mi_shrink_def)

lemma positions_shrink:
  assumes "\<forall>e \<in> set (entries idx). snd e \<noteq> 0"
  shows "\<forall>e \<in> set (mi_shrink idx). snd e \<noteq> 0"
  using assms unfolding entries_shrink [symmetric] by (auto simp: entry_to_be_def)

text \<open>
  C35. Closing an index and opening it again keeps the entries: when the
  shrunk file is mapped again, filled up with at least one empty slot, the
  index finds the first empty slot behind the entries written before,
  provided no entry has file position 0. A full index is different: without
  an empty slot \<open>open\<close> fails, although the entries are intact.
\<close>

theorem index_reopen:
  assumes "idx_ok idx n" "\<forall>e \<in> set (entries idx). snd e \<noteq> 0" "max_bytes \<noteq> 0"
  shows "(\<exists>idx'. mi_open max_bytes interval (mi_shrink idx @ replicate (Suc k) (0, 0)) = Inr idx' \<and>
                 entries idx' = entries idx) \<and>
         mi_open max_bytes interval (mi_shrink idx) = Inl (IoErr InvalidData)"
proof -
  note pos = positions_shrink [OF assms(2)]
  have len: "length (mi_shrink idx) = unat (mi_first_empty idx)"
    using assms(1) by (simp add: idx_ok_def mi_shrink_def)
  then have "mi_open max_bytes interval (mi_shrink idx @ replicate (Suc k) (0, 0)) =
      Inr \<lparr>mi_slots = mi_shrink idx @ replicate (Suc k) (0, 0), mi_accumulated = 0, mi_last_delta = 0,
           mi_first_empty = mi_first_empty idx, mi_interval = interval\<rparr>"
    using assms(3) find_first_empty_skip [OF pos, of 0 "replicate k (0, 0)"]
    by (simp add: mi_open_def find_first_empty_index_def)
  moreover have "mi_open max_bytes interval (mi_shrink idx) = Inl (IoErr InvalidData)"
    using assms(3) find_first_empty_full [OF pos] by (simp add: mi_open_def find_first_empty_index_def)
  ultimately show ?thesis
    using len entries_shrink [of idx] by (simp add: entries_def)
qed

definition empty_index :: MutLogIndex where
  "empty_index = \<lparr>mi_slots = replicate 4 (0, 0), mi_accumulated = 0, mi_last_delta = 0, mi_first_empty = 0,
                  mi_interval = 1\<rparr>"

lemma empty_index_ok: "idx_ok empty_index 0"
  by (simp add: idx_ok_def empty_index_def entries_def keys_sorted_def)

definition small_index :: MutLogIndex where
  "small_index = \<lparr>mi_slots = [(u32_to_be 3, u32_to_be 70), (u32_to_be 8, u32_to_be 200), (0, 0)], mi_accumulated = 0,
                  mi_last_delta = 8, mi_first_empty = 2, mi_interval = 1\<rparr>"

lemma small_index_ok: "idx_ok small_index 9" and small_index_entries: "entries small_index = [(3, 70), (8, 200)]"
  by (simp_all add: idx_ok_def small_index_def entries_def keys_sorted_def)

theorem index_reopen_witness:
  "(\<exists>idx'. mi_open 800 1 (mi_shrink small_index @ replicate (Suc 97) (0, 0)) = Inr idx' \<and>
           entries idx' = [(3, 70), (8, 200)]) \<and>
   mi_open 800 1 (mi_shrink small_index) = Inl (IoErr InvalidData)"
  using index_reopen [OF small_index_ok, of 800 1 97] by (simp add: small_index_entries)

text \<open>
  C15. The binary search of the index is a search for the last entry at or
  before an offset: the active index and the closed one, opened on the same
  entries, both return what a scan of the entries returns.
\<close>

theorem index_lookup_correct:
  assumes "idx_ok idx n"
  shows "mi_find_offset idx d = Inr (index_lookup (entries idx) d) \<and>
         (entries idx \<noteq> [] \<longrightarrow> li_find_offset (mi_shrink idx) d = Inr (index_lookup (entries idx) d))"
proof -
  have "li_find_offset (mi_shrink idx) d = Inr (index_lookup (entries idx) d)" if "entries idx \<noteq> []"
    using li_find_offset_reference [of "mi_shrink idx" d] assms that
    by (auto simp: entries_shrink idx_ok_def mi_shrink_def entries_def)
  then show ?thesis using mi_find_offset_reference [OF assms] by simp
qed

theorem index_lookup_correct_witness:
  "mi_find_offset small_index 7 = Inr (Some (3, 70)) \<and> li_find_offset (mi_shrink small_index) 50 = Inr (Some (8, 200))"
  using index_lookup_correct [OF small_index_ok, of 7] index_lookup_correct [OF small_index_ok, of 50]
  by (simp add: small_index_entries index_lookup_def)

section \<open>Rebuilding\<close>

definition rel_entry :: "i64 \<Rightarrow> i64 \<times> u32 \<Rightarrow> Entry" where
  "rel_entry base_offset b = (ucast (fst b - base_offset), snd b)"

text \<open>
  The batches an index has entries for: one batch gets an entry when the batch
  before it begins at least \<open>interval\<close> bytes behind the last entry. \<open>last_pos\<close> is the
  position of the last entry, \<open>prev\<close> that of the batch before.
\<close>

fun index_points :: "nat \<Rightarrow> nat \<Rightarrow> nat \<Rightarrow> Entry list \<Rightarrow> Entry list" where
  "index_points interval last_pos prev [] = []"
| "index_points interval last_pos prev (e # es) =
     (if last_pos + interval \<le> prev then e # index_points interval (unat (snd e)) (unat (snd e)) es
      else index_points interval last_pos (unat (snd e)) es)"

lemma index_points_subset: "set (index_points interval last_pos prev es) \<subseteq> set es"
  by (induction es arbitrary: last_pos prev) auto

lemma accumulated_less:
  fixes last_pos prev interval :: u32
  assumes "last_pos \<le> prev"
  shows "prev - last_pos < interval \<longleftrightarrow> \<not> unat last_pos + unat interval \<le> unat prev"
proof -
  have "unat (prev - last_pos) = unat prev - unat last_pos" using assms by (rule unat_sub)
  then show ?thesis using assms by (auto simp: word_less_nat_alt word_le_nat_alt)
qed

lemma rebuild_loop_full:
  assumes "idx_ok idx n" "\<forall>b \<in> set bs. n \<le> unat (fst (rel_entry base b))"
    and "sorted_wrt (\<lambda>a b. fst (rel_entry base a) < fst (rel_entry base b)) bs"
    and "length (mi_slots idx) \<le> length (entries idx)"
  shows "\<exists>idx' m. rebuild_loop base interval bs prev idx = Inr idx' \<and> idx_ok idx' m \<and> entries idx' = entries idx"
  using assms
proof (induction bs arbitrary: idx n prev)
  case (Cons b bs)
  obtain off pos where b: "b = (off, pos)" by (cases b)
  let ?d = "ucast (off - base) :: u32"
  have d: "rel_entry base b = (?d, pos)" by (simp add: b rel_entry_def)
  have n: "n \<le> unat ?d" using Cons.prems(2) d by auto
  obtain idx1 where idx1: "write_index ?d pos (if pos > prev then pos - prev else interval + 1) idx = Inr idx1"
      "idx_ok idx1 (unat ?d + 1)" "length (mi_slots idx1) = length (mi_slots idx)"
      "entries idx1 = entries idx @ (if mi_accumulated idx < mi_interval idx \<or> length (mi_slots idx) \<le> length (entries idx)
         then [] else [(?d, pos)])"
    by (rule write_index_ok [OF Cons.prems(1) n])
  have "\<forall>c \<in> set bs. unat ?d + 1 \<le> unat (fst (rel_entry base c))"
    using Cons.prems(3) d by (auto simp: word_less_nat_alt Suc_le_eq)
  from Cons.IH [OF idx1(2) this, of pos] Cons.prems(3,4) idx1(3,4) obtain idx' m where
    "rebuild_loop base interval bs pos idx1 = Inr idx'" "idx_ok idx' m" "entries idx' = entries idx"
    by auto
  then show ?case using idx1(1) by (auto simp: b Let_def)
qed auto

lemma rebuild_loop_points:
  assumes "idx_ok idx n" "\<forall>b \<in> set bs. n \<le> unat (fst (rel_entry base b))"
    and "sorted_wrt (\<lambda>a b. fst (rel_entry base a) < fst (rel_entry base b) \<and> snd a < snd b) bs"
    and "\<forall>b \<in> set bs. prev < snd b" "last_pos \<le> prev" "mi_accumulated idx = prev - last_pos"
  shows "\<exists>idx' m. rebuild_loop base interval bs prev idx = Inr idx' \<and> idx_ok idx' m \<and>
           entries idx' = entries idx @ take (length (mi_slots idx) - length (entries idx))
             (index_points (unat (mi_interval idx)) (unat last_pos) (unat prev) (map (rel_entry base) bs))"
  using assms
proof (induction bs arbitrary: idx n prev last_pos)
  case (Cons b bs)
  obtain off pos where b: "b = (off, pos)" by (cases b)
  let ?d = "ucast (off - base) :: u32"
  have d: "rel_entry base b = (?d, pos)" by (simp add: b rel_entry_def)
  have n: "n \<le> unat ?d" using Cons.prems(2) d by auto
  have pos: "prev < pos" using Cons.prems(4) b by simp
  obtain idx1 where "write_index ?d pos (if pos > prev then pos - prev else interval + 1) idx = Inr idx1"
      and idx1: "idx_ok idx1 (unat ?d + 1)" "mi_interval idx1 = mi_interval idx" "length (mi_slots idx1) = length (mi_slots idx)"
      "entries idx1 = entries idx @ (if mi_accumulated idx < mi_interval idx \<or> length (mi_slots idx) \<le> length (entries idx)
         then [] else [(?d, pos)])"
      "mi_accumulated idx1 = (if mi_accumulated idx < mi_interval idx then mi_accumulated idx + (if pos > prev then pos - prev else interval + 1)
        else if length (mi_slots idx) \<le> length (entries idx) then mi_accumulated idx else 0)"
    by (rule write_index_ok [OF Cons.prems(1) n])
  then have step: "rebuild_loop base interval (b # bs) prev idx = rebuild_loop base interval bs pos idx1"
    by (simp add: b Let_def)
  have off: "\<forall>c \<in> set bs. unat ?d + 1 \<le> unat (fst (rel_entry base c))"
    using Cons.prems(3) d by (auto simp: word_less_nat_alt Suc_le_eq)
  have sorted: "sorted_wrt (\<lambda>a b. fst (rel_entry base a) < fst (rel_entry base b) \<and> snd a < snd b) bs"
      "\<forall>c \<in> set bs. pos < snd c"
    using Cons.prems(3) b by auto
  note IH = Cons.IH [OF idx1(1) off sorted]
  note test = accumulated_less [OF Cons.prems(5), of "mi_interval idx", folded Cons.prems(6)]
  consider (small) "mi_accumulated idx < mi_interval idx"
    | (full) "\<not> mi_accumulated idx < mi_interval idx" "length (mi_slots idx) \<le> length (entries idx)"
    | (slot) "\<not> mi_accumulated idx < mi_interval idx" "length (entries idx) < length (mi_slots idx)"
    by fastforce
  then show ?case
  proof cases
    case small
    then have "mi_accumulated idx1 = pos - last_pos" using idx1(5) pos Cons.prems(6) by simp
    moreover have "last_pos \<le> pos" using Cons.prems(5) pos by simp
    ultimately show ?thesis
      unfolding step using IH [of last_pos] small test idx1(2-4) by (simp add: d)
  next
    case full
    have "sorted_wrt (\<lambda>a b. fst (rel_entry base a) < fst (rel_entry base b)) bs"
      using sorted(1) by (rule sorted_wrt_mono_rel [rotated]) simp
    then show ?thesis
      unfolding step using rebuild_loop_full [OF idx1(1) off] full idx1(3,4) by simp
  next
    case slot
    then have "mi_accumulated idx1 = pos - pos" using idx1(5) by simp
    moreover have "length (mi_slots idx) - length (entries idx) = Suc (length (mi_slots idx) - Suc (length (entries idx)))"
      using slot(2) by simp
    ultimately show ?thesis
      unfolding step using IH [of pos] slot test idx1(2-4) by (simp add: d)
  qed
qed auto

lemma first_entry_then_points:
  assumes "idx_ok idx n" "mi_interval idx = interval" "length (mi_slots idx) = len" "entries idx = []"
      "mi_accumulated idx = interval + 1" "\<forall>b \<in> set bs. n \<le> unat (fst (rel_entry base b))"
    and "sorted_wrt (\<lambda>a b. fst (rel_entry base a) < fst (rel_entry base b) \<and> snd a < snd b) bs"
    and "interval \<noteq> - 1"
  shows "\<exists>idx' m. rebuild_loop base interval bs prev idx = Inr idx' \<and> idx_ok idx' m \<and>
           entries idx' = take len (case map (rel_entry base) bs of [] \<Rightarrow> []
             | c # cs \<Rightarrow> c # index_points (unat interval) (unat (snd c)) (unat (snd c)) cs)"
proof (cases bs)
  case (Cons b cs)
  obtain off pos where b: "b = (off, pos)" by (cases b)
  let ?d = "ucast (off - base) :: u32"
  have d: "rel_entry base b = (?d, pos)" by (simp add: b rel_entry_def)
  have n: "n \<le> unat ?d" using assms(6) d Cons by auto
  have "1 + interval \<noteq> 0" using assms(8) by (metis add.commute eq_neg_iff_add_eq_0)
  then have "unat (interval + 1) = Suc (unat interval)" by (metis add.commute unatSuc)
  then have acc: "\<not> mi_accumulated idx < mi_interval idx" using assms(2,5) by (simp add: word_less_nat_alt)
  obtain idx1 where "write_index ?d pos (if pos > prev then pos - prev else interval + 1) idx = Inr idx1"
      and idx1: "idx_ok idx1 (unat ?d + 1)" "mi_interval idx1 = mi_interval idx" "length (mi_slots idx1) = length (mi_slots idx)"
      "entries idx1 = entries idx @ (if mi_accumulated idx < mi_interval idx \<or> length (mi_slots idx) \<le> length (entries idx)
         then [] else [(?d, pos)])"
      "mi_accumulated idx1 = (if mi_accumulated idx < mi_interval idx then mi_accumulated idx + (if pos > prev then pos - prev else interval + 1)
        else if length (mi_slots idx) \<le> length (entries idx) then mi_accumulated idx else 0)"
    by (rule write_index_ok [OF assms(1) n])
  then have step: "rebuild_loop base interval bs prev idx = rebuild_loop base interval cs pos idx1"
    by (simp add: Cons b Let_def)
  have off: "\<forall>c \<in> set cs. unat ?d + 1 \<le> unat (fst (rel_entry base c))"
    using assms(7) d Cons by (auto simp: word_less_nat_alt Suc_le_eq)
  have sorted: "sorted_wrt (\<lambda>a b. fst (rel_entry base a) < fst (rel_entry base b) \<and> snd a < snd b) cs" "\<forall>c \<in> set cs. pos < snd c"
    using assms(7) b Cons by auto
  show ?thesis
  proof (cases len)
    case 0
    have "sorted_wrt (\<lambda>a b. fst (rel_entry base a) < fst (rel_entry base b)) cs"
      using sorted(1) by (rule sorted_wrt_mono_rel [rotated]) simp
    then show ?thesis unfolding step using rebuild_loop_full [OF idx1(1) off] idx1(3,4) assms(3,4) 0 by simp
  next
    case (Suc k)
    then have "mi_accumulated idx1 = pos - pos" using idx1(5) acc assms(3,4) by simp
    from rebuild_loop_points [OF idx1(1) off sorted order_refl this, of interval] show ?thesis
      unfolding step using idx1(2-4) acc assms(2-4) Suc Cons by (simp add: d)
  qed
qed (use assms in auto)

lemma validate_entries_ok:
  assumes "\<forall>e \<in> set es. snd e \<in> snd ` set bs \<and> unat (snd e) \<le> log_size"
    and "sorted_wrt (\<lambda>a b. fst a < fst b) es" "\<forall>e \<in> set es. prev \<le> fst e"
  shows "validate_entries bs log_size slot prev es = []"
  using assms
proof (induction es arbitrary: slot prev)
  case (Cons e es)
  have "entry_errors bs log_size slot prev e = []"
    using Cons.prems by (auto simp: entry_errors_def case_prod_beta not_less)
  moreover have "validate_entries bs log_size (slot + 1) (fst e) es = []"
    using Cons.prems by (intro Cons.IH) (auto intro: less_imp_le)
  ultimately show ?case by simp
qed simp

text \<open>
  C34. An index rebuilt from a scan of a log with increasing offsets and positions,
  whatever stale entries the file held, has exactly these entries, as many as fit:
  the second batch, and then each batch whose predecessor begins at least the
  index interval behind the last entry. It passes the validation against the scan.
  The first batch has none, although a comment says its size is chosen to force
  one.
\<close>

theorem rebuild_index_sound:
  assumes "sorted_wrt (\<lambda>a b. fst (rel_entry base a) < fst (rel_entry base b) \<and> snd a < snd b) ((o0, 0) # bs)"
    and "\<forall>c \<in> set bs. unat (snd c) \<le> log_size"
    and "max_bytes \<noteq> 0" "interval \<noteq> 0" "interval \<noteq> - 1" "length mapped < 2 ^ 32"
  shows "\<exists>es. rebuild_index base ((o0, 0) # bs) max_bytes interval mapped = Inr (length es, es) \<and>
              map entry_to_be es = take (length mapped) (case map (rel_entry base) bs of [] \<Rightarrow> []
                | c # cs \<Rightarrow> c # index_points (unat interval) (unat (snd c)) (unat (snd c)) cs) \<and>
              validate_index (map entry_to_be es) ((o0, 0) # bs) log_size = []"
proof -
  let ?idx = "\<lparr>mi_slots = mapped, mi_accumulated = 0, mi_last_delta = 0, mi_first_empty = 0, mi_interval = interval\<rparr>"
  let ?d = "ucast (o0 - base) :: u32"
  let ?points = "case map (rel_entry base) bs of [] \<Rightarrow> []
    | c # cs \<Rightarrow> c # index_points (unat interval) (unat (snd c)) (unat (snd c)) cs"
  have "0 < interval" using assms(4) by (simp add: word_neq_0_conv)
  have "idx_ok ?idx 0" using assms(6) by (simp add: idx_ok_def entries_def keys_sorted_def)
  then obtain idx1 where "write_index ?d 0 (interval + 1) ?idx = Inr idx1" and idx1: "idx_ok idx1 (unat ?d + 1)"
      "mi_interval idx1 = interval" "length (mi_slots idx1) = length mapped" "entries idx1 = []" "mi_accumulated idx1 = interval + 1"
    by (rule write_index_ok [where d = ?d and pos = 0 and size' = "interval + 1"])
      (use \<open>0 < interval\<close> in \<open>auto simp: entries_def\<close>)
  then have step: "rebuild_loop base interval ((o0, 0) # bs) 0 ?idx = rebuild_loop base interval bs 0 idx1"
    by (simp add: Let_def)
  have off: "\<forall>c \<in> set bs. unat ?d + 1 \<le> unat (fst (rel_entry base c))"
    using assms(1) by (auto simp: rel_entry_def word_less_nat_alt Suc_le_eq)
  obtain idx' m where idx': "rebuild_loop base interval bs 0 idx1 = Inr idx'" "idx_ok idx' m"
      "entries idx' = take (length mapped) ?points"
    using first_entry_then_points [OF idx1 off, of 0] assms(1,5) by auto
  have "rebuild_index base ((o0, 0) # bs) max_bytes interval mapped = Inr (length (mi_shrink idx'), mi_shrink idx')"
    using step idx' assms(3)
    by (simp add: rebuild_index_def mi_create_def Let_def mi_len_def mi_shrink_def INDEX_ENTRY_SIZE_def idx_ok_def)
  moreover have "set ?points \<subseteq> rel_entry base ` set bs"
    using index_points_subset by (fastforce split: list.splits)
  then have sub: "set (entries idx') \<subseteq> rel_entry base ` set bs"
    unfolding idx'(3) using set_take_subset by fastforce
  have "validate_index (entries idx') ((o0, 0) # bs) log_size = []"
    unfolding validate_index_def
  proof (rule validate_entries_ok)
    show "sorted_wrt (\<lambda>a b. fst a < fst b) (entries idx')"
      using idx'(2) by (simp add: idx_ok_def entries_def keys_sorted_def sorted_wrt_map)
    show "\<forall>e \<in> set (entries idx'). snd e \<in> snd ` set ((o0, 0) # bs) \<and> unat (snd e) \<le> log_size"
      using sub assms(2) by (force simp: rel_entry_def)
  qed simp
  ultimately show ?thesis
    by (intro exI [of _ "mi_shrink idx'"]) (simp only: entries_shrink idx'(3) simp_thms)
qed

theorem rebuild_index_sound_witness:
  "\<exists>es. rebuild_index 10 [(10, 0), (12, 80), (15, 300), (16, 400), (18, 460)] 64 150 (replicate 8 (0, 0)) = Inr (length es, es) \<and>
        map entry_to_be es = [(2, 80), (6, 400)] \<and>
        validate_index (map entry_to_be es) [(10, 0), (12, 80), (15, 300), (16, 400), (18, 460)] 500 = []"
  using rebuild_index_sound [of 10 10 "[(12, 80), (15, 300), (16, 400), (18, 460)]" 500 64 150 "replicate 8 (0, 0)"]
  by (simp add: rel_entry_def)

end
