(* ===== verification/Log_Segment.thy ===== *)
theory Log_Segment
  imports Record_Batch Log_Index
begin

text \<open>
  A segment of the commit log: the file iterator (\<open>fluvio-storage/src/file.rs\<close>),
  the batch stream (\<open>batch.rs\<close>, \<open>batch_header.rs\<close>), the append-only log file
  (\<open>mut_records.rs\<close>, \<open>records.rs\<close>), the segment with its index (\<open>segment.rs\<close>)
  and the validator (\<open>validator.rs\<close>). A log file is the list of its bytes.
  Operating system calls on files succeed; a read may return fewer bytes than
  asked for, as \<open>pread\<close> may.
\<close>

section \<open>Reading bytes\<close>

text \<open>
  One \<open>pread\<close> system call at \<open>offset\<close> for \<open>n\<close> bytes: nothing at the end of the
  file, otherwise at least one byte. \<open>short\<close> decides how many.
\<close>

definition sys_pread :: "(nat \<Rightarrow> nat) \<Rightarrow> bytes \<Rightarrow> nat \<Rightarrow> nat \<Rightarrow> bytes" where
  "sys_pread short file_bytes offset n =
     (let avail = min n (length file_bytes - offset)
      in take (if short offset = 0 then avail else min avail (short offset)) (drop offset file_bytes))"

datatype ReadOutput = ReadEmpty | ReadSome bytes bool

function pread_loop :: "(nat \<Rightarrow> nat) \<Rightarrow> bytes \<Rightarrow> nat \<Rightarrow> nat \<Rightarrow> bytes \<Rightarrow> ReadOutput" where
  "pread_loop short file_bytes offset buf_len buf =
     (if buf_len > 0 then
        (let got = sys_pread short file_bytes (offset + length buf) buf_len
         in if got = [] then (if buf = [] then ReadEmpty else ReadSome buf True)
            else pread_loop short file_bytes offset (buf_len - length got) (buf @ got))
      else ReadSome buf False)"
  by pat_completeness auto
termination
  by (relation "measure (\<lambda>(short, file_bytes, offset, buf_len, buf). buf_len)") auto

declare pread_loop.simps [simp del]

definition pread :: "(nat \<Rightarrow> nat) \<Rightarrow> bytes \<Rightarrow> nat \<Rightarrow> nat \<Rightarrow> ReadOutput" where
  "pread short file_bytes offset len = pread_loop short file_bytes offset len []"

text \<open>\<open>FileBytesIterator::read_bytes\<close>: the bytes read and the new position, which moves by the length asked for.\<close>

definition read_bytes :: "(nat \<Rightarrow> nat) \<Rightarrow> bytes \<Rightarrow> u32 \<Rightarrow> u32 \<Rightarrow> bytes option \<times> u32" where
  "read_bytes short file_bytes pos len =
     (case pread short file_bytes (unat pos) (unat len) of
        ReadSome buffer eof \<Rightarrow> (Some buffer, pos + len)
      | ReadEmpty \<Rightarrow> (None, pos))"

section \<open>The batch stream\<close>

datatype BatchHeaderError =
    NotEnoughHeader u32 nat nat
  | NotEnoughContent BatchHeader i64 u32 nat nat

datatype storage_error =
    InvalidBaseOffsetMinimum i64
  | HeaderError BatchHeaderError
  | EmptyBatch
  | BatchExceededSegment nat nat
  | BatchTooBig nat
  | ShortCircuited
  | StorageOther
  | StorageFault fault

text \<open>\<open>FileEmptyRecords\<close>, a struct without fields: reading a batch header only.\<close>

definition dec_empty :: "i16 \<Rightarrow> unit decoder" where
  "dec_empty version = struct_dec () []"

definition read_from ::
  "(nat \<Rightarrow> nat) \<Rightarrow> (i16 \<Rightarrow> 'r decoder) \<Rightarrow> bytes \<Rightarrow> u32 \<Rightarrow> (storage_error + ('r Batch \<times> u32) option) \<times> u32" where
  "read_from short RD file_bytes pos =
     (case read_bytes short file_bytes pos (word_of_nat BATCH_FILE_HEADER_SIZE) of
        (None, pos1) \<Rightarrow> (Inr None, pos1)
      | (Some head, pos1) \<Rightarrow>
          if length head < BATCH_FILE_HEADER_SIZE then
            (Inl (HeaderError (NotEnoughHeader pos (length head) BATCH_FILE_HEADER_SIZE)), pos1)
          else (case decode_from_file_buf 0 (default_batch (initial (RD 0))) head of
              DErr e _ _ \<Rightarrow> (Inl (StorageFault e), pos1)
            | DOk batch _ \<Rightarrow>
                (let content_len = unat (scast (batch_len batch) - word_of_nat BATCH_HEADER_SIZE :: u64)
                 in case read_bytes short file_bytes pos1 (word_of_nat content_len) of
                      (None, pos2) \<Rightarrow>
                        (Inl (HeaderError (NotEnoughContent (header batch) (base_offset batch) pos 0 content_len)), pos2)
                    | (Some content, pos2) \<Rightarrow>
                        if length content < content_len then
                          (Inl (HeaderError (NotEnoughContent (header batch) (base_offset batch) pos (length content) content_len)), pos2)
                        else (case decode (RD 0) (records batch) content of
                            DErr e _ _ \<Rightarrow> (Inl (StorageFault e), pos2)
                          | DOk x _ \<Rightarrow> (Inr (Some (batch\<lparr>records := x\<rparr>, pos)), pos2)))))"

section \<open>The log file\<close>

record MutFileRecords =
  fr_base :: i64
  fr_file :: bytes
  fr_len :: u32
  fr_max :: u32
  fr_write_count :: u64
  fr_flush_count :: u32

text \<open>\<open>content\<close> is what the file holds when it is opened for appending.\<close>

definition fr_create :: "i64 \<Rightarrow> u32 \<Rightarrow> bytes \<Rightarrow> MutFileRecords" where
  "fr_create base segment_max_bytes content =
     \<lparr>fr_base = base, fr_file = content, fr_len = word_of_nat (length content), fr_max = segment_max_bytes,
      fr_write_count = 0, fr_flush_count = 0\<rparr>"

definition fr_set_len :: "u32 \<Rightarrow> MutFileRecords \<Rightarrow> MutFileRecords" where
  "fr_set_len len log =
     log\<lparr>fr_file := take (unat len) (fr_file log) @ replicate (unat len - length (fr_file log)) 0, fr_len := len\<rparr>"

definition fr_flush :: "MutFileRecords \<Rightarrow> MutFileRecords" where
  "fr_flush log = log\<lparr>fr_flush_count := fr_flush_count log + 1\<rparr>"

definition fr_write_batch ::
  "(bytes \<Rightarrow> u32) \<Rightarrow> (i16 \<Rightarrow> 'r encoder) \<Rightarrow> 'r Batch \<Rightarrow> MutFileRecords
    \<Rightarrow> (storage_error + bool \<times> nat \<times> u32) \<times> MutFileRecords" where
  "fr_write_batch crc32c R batch log =
     (if sint (base_offset batch) < sint (fr_base log) then
        (Inl (InvalidBaseOffsetMinimum (base_offset batch)), log)
      else (case write_size (enc_batch crc32c R 0) batch of
          None \<Rightarrow> (Inl (StorageFault Diverge), log)
        | Some blen \<Rightarrow>
            if word_of_nat blen + fr_len log > fr_max log then (Inr (False, blen, fr_len log), log)
            else (case encode (enc_batch crc32c R 0) batch vec_sink of
                EErr e _ \<Rightarrow> (Inl (StorageFault e), log)
              | EOk buffer \<Rightarrow>
                  if length (written buffer) \<noteq> blen then (Inl (StorageFault Panic), log)
                  else (let log1 = log\<lparr>fr_file := fr_file log @ written buffer,
                                       fr_len := fr_len log + word_of_nat blen,
                                       fr_write_count := (if fr_write_count log = - 1 then - 1
                                                          else fr_write_count log + 1)\<rparr>;
                            log2 = fr_flush log1
                        in (Inr (True, blen, fr_len log2), log2)))))"

section \<open>Segments\<close>

record MutableSegment =
  sg_log :: MutFileRecords
  sg_index :: MutLogIndex
  sg_base :: i64
  sg_end :: i64

record ReadSegment =
  rs_file :: bytes
  rs_index :: "Entry list"
  rs_base :: i64
  rs_end :: i64

text \<open>
  The configuration a segment is created with: \<open>segment_max_bytes\<close>,
  \<open>index_max_bytes\<close> and \<open>index_max_interval_bytes\<close>.
\<close>

record SegmentConfig =
  segment_max_bytes :: u32
  index_max_bytes :: u32
  index_max_interval_bytes :: u32

text \<open>
  \<open>content\<close> is what a log file of that name holds already, nothing for a new one;
  \<open>mapped\<close> is what the mapping of the index file shows.
\<close>

definition segment_create :: "SegmentConfig \<Rightarrow> bytes \<Rightarrow> Entry list \<Rightarrow> i64 \<Rightarrow> storage_error + MutableSegment" where
  "segment_create cfg content mapped base =
     (case mi_create (index_max_bytes cfg) (index_max_interval_bytes cfg) mapped of
        Inl e \<Rightarrow> Inl (StorageFault e)
      | Inr index \<Rightarrow> Inr \<lparr>sg_log = fr_create base (segment_max_bytes cfg) content, sg_index = index,
                           sg_base = base, sg_end = base\<rparr>)"

definition open_for_write :: "SegmentConfig \<Rightarrow> bytes \<Rightarrow> Entry list \<Rightarrow> i64 \<Rightarrow> storage_error + MutableSegment" where
  "open_for_write cfg content mapped base =
     (let log = fr_create base (segment_max_bytes cfg) content
      in case mi_open (index_max_bytes cfg) (index_max_interval_bytes cfg) mapped of
           Inl e \<Rightarrow> Inl (StorageFault e)
         | Inr index \<Rightarrow> Inr \<lparr>sg_log = log, sg_index = index, sg_base = fr_base log, sg_end = fr_base log\<rparr>)"

text \<open>\<open>append_batch\<close> also rewrites the base offset of the batch, which its caller keeps.\<close>

definition append_batch ::
  "(bytes \<Rightarrow> u32) \<Rightarrow> (i16 \<Rightarrow> 'r encoder) \<Rightarrow> 'r Batch \<Rightarrow> MutableSegment
    \<Rightarrow> (storage_error + bool) \<times> 'r Batch \<times> MutableSegment" where
  "append_batch crc32c R batch seg =
     (if records_len batch = 0 then (Inl EmptyBatch, batch, seg)
      else (let batch = set_base_offset (sg_end seg) batch;
                next_end_offset = get_last_offset batch;
                relative_offset_in_segment = ucast (sg_end seg - sg_base seg) :: i32;
                start_file_pos = fr_len (sg_log seg)
            in case fr_write_batch crc32c R batch (sg_log seg) of
                 (Inl e, log) \<Rightarrow> (Inl e, batch, seg\<lparr>sg_log := log\<rparr>)
               | (Inr (write_success, blen, _), log) \<Rightarrow>
                   if write_success then
                     (case write_index relative_offset_in_segment start_file_pos (word_of_nat blen)
                             (sg_index seg) of
                        Inl e \<Rightarrow> (Inl (StorageFault e), batch, seg\<lparr>sg_log := log\<rparr>)
                      | Inr index \<Rightarrow>
                          (Inr True, batch, seg\<lparr>sg_log := log, sg_index := index, sg_end := next_end_offset + 1\<rparr>))
                   else (Inr False, batch, seg\<lparr>sg_log := log\<rparr>)))"

text \<open>\<open>close\<close> shrinks the index file and \<open>as_segment\<close> opens log and index for reading; \<open>remap\<close> is what the mapping of the shrunk index shows.\<close>

definition as_segment :: "(Entry list \<Rightarrow> Entry list) \<Rightarrow> MutableSegment \<Rightarrow> ReadSegment" where
  "as_segment remap seg = \<lparr>rs_file = fr_file (sg_log seg), rs_index = remap (mi_shrink (sg_index seg)),
                           rs_base = sg_base seg, rs_end = sg_end seg\<rparr>"

definition seg_occupied :: "MutableSegment \<Rightarrow> nat" where
  "seg_occupied seg = mi_len (sg_index seg) + unat (fr_len (sg_log seg))"

definition rs_occupied :: "ReadSegment \<Rightarrow> nat" where
  "rs_occupied seg = length (rs_index seg) * INDEX_ENTRY_SIZE + length (rs_file seg)"

section \<open>Finding and slicing records\<close>

text \<open>
  What the code common to both kinds of segment uses of its index and log: the
  offsets, \<open>Index::find_offset\<close>, the bytes of the log file and the two slicing
  operations. A file slice is a position and a length.
\<close>

type_synonym file_slice = "nat \<times> nat"

record segment_view =
  sv_base :: i64
  sv_end :: i64
  sv_find :: "u32 \<Rightarrow> fault + Entry option"
  sv_file :: bytes
  sv_slice :: "u32 \<Rightarrow> fault + file_slice"
  sv_slice_from_to :: "u32 \<Rightarrow> u32 \<Rightarrow> fault + file_slice"

definition active_view :: "MutableSegment \<Rightarrow> segment_view" where
  "active_view seg = \<lparr>sv_base = sg_base seg, sv_end = sg_end seg, sv_find = mi_find_offset (sg_index seg),
     sv_file = fr_file (sg_log seg),
     sv_slice = (\<lambda>start. Inr (unat start, unat (fr_len (sg_log seg) - start))),
     sv_slice_from_to = (\<lambda>start len. Inr (unat start, unat len))\<rparr>"

definition closed_view :: "ReadSegment \<Rightarrow> segment_view" where
  "closed_view seg = \<lparr>sv_base = rs_base seg, sv_end = rs_end seg, sv_find = li_find_offset (rs_index seg),
     sv_file = rs_file seg,
     sv_slice = (\<lambda>start. Inr (unat start, unat (word_of_nat (length (rs_file seg)) - ucast start :: u64))),
     sv_slice_from_to = (\<lambda>start len. if unat len > length (rs_file seg) then Inl (IoErr UnexpectedEof)
                                     else Inr (unat start, unat len))\<rparr>"

lemma view_simps [simp]:
  "sv_base (active_view seg) = sg_base seg" "sv_end (active_view seg) = sg_end seg"
  "sv_file (active_view seg) = fr_file (sg_log seg)"
  "sv_base (closed_view rs) = rs_base rs" "sv_end (closed_view rs) = rs_end rs" "sv_file (closed_view rs) = rs_file rs"
  by (simp_all add: active_view_def closed_view_def)

text \<open>The loops over a header stream: \<open>None\<close> is a loop that does not end.\<close>

partial_function (option) seek_batch ::
  "(nat \<Rightarrow> nat) \<Rightarrow> bytes \<Rightarrow> i64 \<Rightarrow> u32 \<Rightarrow> (storage_error + (unit Batch \<times> u32) option) option" where
  "seek_batch short file_bytes offset stream_pos =
     (case read_from short dec_empty file_bytes stream_pos of
        (Inl e, _) \<Rightarrow> Some (Inl e)
      | (Inr None, _) \<Rightarrow> Some (Inr None)
      | (Inr (Some (batch, pos)), stream_pos') \<Rightarrow>
          if sint (get_last_offset batch) \<ge> sint offset then Some (Inr (Some (batch, pos)))
          else seek_batch short file_bytes offset stream_pos')"

definition find_offset_position ::
  "(nat \<Rightarrow> nat) \<Rightarrow> segment_view \<Rightarrow> i64 \<Rightarrow> (storage_error + (unit Batch \<times> u32) option) option" where
  "find_offset_position short seg offset =
     (if sint offset < sint (sv_base seg) then Some (Inr None)
      else if sint offset \<ge> sint (sv_end seg) then Some (Inr None)
      else (let delta = ucast (offset - sv_base seg) :: u32
            in case sv_find seg delta of
                 Inl e \<Rightarrow> Some (Inl (StorageFault e))
               | Inr entry \<Rightarrow>
                   seek_batch short (sv_file seg) offset (case entry of None \<Rightarrow> 0 | Some e \<Rightarrow> snd e)))"

datatype ErrorCode = ErrOther | OffsetEvicted i64 i64 | ErrPanic

definition other_code :: "storage_error \<Rightarrow> ErrorCode" where
  "other_code e = (if e = StorageFault Panic then ErrPanic else ErrOther)"

definition records_slice ::
  "(nat \<Rightarrow> nat) \<Rightarrow> segment_view \<Rightarrow> i64 \<Rightarrow> i64 option \<Rightarrow> (ErrorCode + file_slice option) option" where
  "records_slice short seg start_offset max_offset_opt =
     (case find_offset_position short seg start_offset of
        None \<Rightarrow> None
      | Some (Inl e) \<Rightarrow> Some (Inl (other_code e))
      | Some (Inr None) \<Rightarrow> Some (Inr None)
      | Some (Inr (Some (batch, pos))) \<Rightarrow>
          (let to_end = (case sv_slice seg pos of Inl _ \<Rightarrow> Inl ErrOther | Inr s \<Rightarrow> Inr (Some s))
           in case max_offset_opt of
                None \<Rightarrow> Some to_end
              | Some max_offset \<Rightarrow>
                  (let effective_max_offset =
                         (if sint max_offset \<le> sint (sv_end seg) then max_offset else sv_end seg)
                   in if effective_max_offset = sv_end seg then Some to_end
                      else (case find_offset_position short seg effective_max_offset of
                          None \<Rightarrow> None
                        | Some (Inl e) \<Rightarrow> Some (Inl (other_code e))
                        | Some (Inr None) \<Rightarrow> Some (Inl ErrOther)
                        | Some (Inr (Some (_, end_pos))) \<Rightarrow>
                            (case sv_slice_from_to seg pos (end_pos - pos) of
                               Inl _ \<Rightarrow> Some (Inl ErrOther)
                             | Inr s \<Rightarrow> Some (Inr (Some s)))))))"

section \<open>Validation and repair\<close>

datatype LogValidationError = BatchDecoding BatchHeaderError | LogInvalidBaseOffset i64

record InvalidIndexError =
  ie_offset :: i64
  ie_batch_pos :: u32
  ie_index_pos :: u32
  ie_diff :: u32

record LogValidator =
  lv_base :: i64
  lv_batches :: u32
  lv_last_offset :: i64
  lv_batch_pos :: u32
  lv_file_pos :: u32
  lv_error :: "LogValidationError option"
  lv_index_error :: "InvalidIndexError option"

text \<open>The index check of one batch at \<open>pos\<close>.\<close>

definition check_index :: "(u32 \<Rightarrow> fault + Entry option) \<Rightarrow> i64 \<Rightarrow> u32 \<Rightarrow> LogValidator \<Rightarrow> fault + LogValidator" where
  "check_index find_offset batch_offset pos val =
     (if lv_index_error val \<noteq> None then Inr val
      else (let delta = ucast (batch_offset - lv_base val) :: u32
            in case find_offset delta of
                 Inl e \<Rightarrow> Inl e
               | Inr None \<Rightarrow> Inr val
               | Inr (Some (offset, index_pos)) \<Rightarrow>
                   if offset = delta \<and> index_pos \<noteq> pos then
                     Inr (val\<lparr>lv_index_error := Some \<lparr>ie_offset = batch_offset, ie_batch_pos = pos,
                                 ie_index_pos = index_pos, ie_diff = index_pos - pos\<rparr>\<rparr>)
                   else Inr val))"

partial_function (option) validate_with_stream ::
  "(nat \<Rightarrow> nat) \<Rightarrow> bytes \<Rightarrow> (u32 \<Rightarrow> fault + Entry option) \<Rightarrow> u32 \<Rightarrow> LogValidator
    \<Rightarrow> (storage_error option \<times> LogValidator) option" where
  "validate_with_stream short file_bytes find_offset stream_pos val =
     (case read_from short dec_empty file_bytes stream_pos of
        (Inl e, _) \<Rightarrow> Some (Some e, val)
      | (Inr None, _) \<Rightarrow> Some (None, val)
      | (Inr (Some (batch, pos)), stream_pos') \<Rightarrow>
          if sint (base_offset batch) < sint (lv_base val) then
            Some (None, val\<lparr>lv_error := Some (LogInvalidBaseOffset (base_offset batch))\<rparr>)
          else (let val1 = val\<lparr>lv_last_offset := base_offset batch + scast (last_offset_delta (header batch)),
                               lv_batch_pos := pos, lv_file_pos := stream_pos',
                               lv_batches := lv_batches val + 1\<rparr>
                in case check_index find_offset (base_offset batch) pos val1 of
                     Inl e \<Rightarrow> Some (Some (StorageFault e), val1)
                   | Inr val2 \<Rightarrow> validate_with_stream short file_bytes find_offset stream_pos' val2))"

definition new_validator :: "i64 \<Rightarrow> LogValidator" where
  "new_validator base = \<lparr>lv_base = base, lv_batches = 0, lv_last_offset = - 1, lv_batch_pos = 0, lv_file_pos = 0,
                         lv_error = None, lv_index_error = None\<rparr>"

definition validate_core ::
  "(nat \<Rightarrow> nat) \<Rightarrow> i64 \<Rightarrow> bytes \<Rightarrow> (u32 \<Rightarrow> fault + Entry option) \<Rightarrow> (storage_error + LogValidator) option" where
  "validate_core short base file_bytes find_offset =
     (case validate_with_stream short file_bytes find_offset 0 (new_validator base) of
        None \<Rightarrow> None
      | Some (Some (HeaderError e), val) \<Rightarrow> Some (Inr (val\<lparr>lv_error := Some (BatchDecoding e)\<rparr>))
      | Some (Some e, val) \<Rightarrow> Some (Inl e)
      | Some (None, val) \<Rightarrow> Some (Inr val))"

definition lv_leo :: "LogValidator \<Rightarrow> i64" where
  "lv_leo val = (if lv_last_offset val = - 1 then lv_base val else lv_last_offset val + 1)"

partial_function (option) scan_log_batches ::
  "(nat \<Rightarrow> nat) \<Rightarrow> bytes \<Rightarrow> u32 \<Rightarrow> (i64 \<times> u32) list \<Rightarrow> (storage_error + (i64 \<times> u32) list) option" where
  "scan_log_batches short file_bytes stream_pos found =
     (case read_from short dec_empty file_bytes stream_pos of
        (Inl e, _) \<Rightarrow> Some (Inl e)
      | (Inr None, _) \<Rightarrow> Some (Inr found)
      | (Inr (Some (batch, pos)), stream_pos') \<Rightarrow>
          scan_log_batches short file_bytes stream_pos' (found @ [(base_offset batch, pos)]))"

text \<open>
  \<open>mmap\<close> is the mapping \<open>MemoryMappedMutFile::create\<close> gives for an index file:
  what the mapped file shows, from what it holds.
\<close>

definition repair_index ::
  "(nat \<Rightarrow> nat) \<Rightarrow> (Entry list \<Rightarrow> Entry list) \<Rightarrow> SegmentConfig \<Rightarrow> i64 \<Rightarrow> bytes \<Rightarrow> Entry list
    \<Rightarrow> (storage_error + Entry list) option" where
  "repair_index short mmap cfg base file_bytes index_file =
     (case scan_log_batches short file_bytes 0 [] of
        None \<Rightarrow> None
      | Some (Inl e) \<Rightarrow> Some (Inl e)
      | Some (Inr log_batches) \<Rightarrow>
          (case rebuild_index base log_batches (index_max_bytes cfg) (index_max_interval_bytes cfg)
                  (mmap index_file) of
             Inl e \<Rightarrow> Some (Inl (StorageFault e))
           | Inr (_, es) \<Rightarrow> Some (Inr es)))"

definition recover_log :: "LogValidator \<Rightarrow> MutFileRecords \<Rightarrow> storage_error + MutFileRecords" where
  "recover_log val log =
     (case lv_error val of
        None \<Rightarrow> Inr log
      | Some (BatchDecoding _) \<Rightarrow> Inr (fr_set_len (lv_file_pos val) log)
      | Some (LogInvalidBaseOffset offset) \<Rightarrow> Inl (InvalidBaseOffsetMinimum offset))"

definition validate_and_repair ::
  "(nat \<Rightarrow> nat) \<Rightarrow> (Entry list \<Rightarrow> Entry list) \<Rightarrow> SegmentConfig \<Rightarrow> MutableSegment
    \<Rightarrow> (storage_error + i64 \<times> MutableSegment) option" where
  "validate_and_repair short mmap cfg seg =
     (case validate_core short (sg_base seg) (fr_file (sg_log seg)) (mi_find_offset (sg_index seg)) of
        None \<Rightarrow> None
      | Some (Inl e) \<Rightarrow> Some (Inl e)
      | Some (Inr val) \<Rightarrow>
          (case recover_log val (sg_log seg) of
             Inl e \<Rightarrow> Some (Inl e)
           | Inr log \<Rightarrow>
               (let seg1 = seg\<lparr>sg_log := log\<rparr>
                in if lv_index_error val = None then Some (Inr (lv_leo val, seg1\<lparr>sg_end := lv_leo val\<rparr>))
                   else (case repair_index short mmap cfg (sg_base seg) (fr_file log) (mi_slots (sg_index seg)) of
                       None \<Rightarrow> None
                     | Some (Inl e) \<Rightarrow> Some (Inl e)
                     | Some (Inr es) \<Rightarrow>
                         (case mi_open (index_max_bytes cfg) (index_max_interval_bytes cfg) (mmap es) of
                            Inl e \<Rightarrow> Some (Inl (StorageFault e))
                          | Inr index \<Rightarrow>
                              Some (Inr (lv_leo val, seg1\<lparr>sg_index := index, sg_end := lv_leo val\<rparr>)))))))"

text \<open>\<open>Segment::open_unknown\<close>: a closed segment whose end is found by validation.\<close>

definition open_unknown ::
  "(nat \<Rightarrow> nat) \<Rightarrow> (Entry list \<Rightarrow> Entry list) \<Rightarrow> i64 \<Rightarrow> bytes \<Rightarrow> Entry list
    \<Rightarrow> (storage_error + ReadSegment) option" where
  "open_unknown short remap base content index_file =
     (case validate_core short base content (li_find_offset (remap index_file)) of
        None \<Rightarrow> None
      | Some (Inl e) \<Rightarrow> Some (Inl e)
      | Some (Inr val) \<Rightarrow>
          (case lv_error val of
             Some (BatchDecoding e) \<Rightarrow> Some (Inl (HeaderError e))
           | Some (LogInvalidBaseOffset offset) \<Rightarrow> Some (Inl (InvalidBaseOffsetMinimum offset))
           | None \<Rightarrow> Some (Inr \<lparr>rs_file = content, rs_index = remap index_file, rs_base = base, rs_end = lv_leo val\<rparr>)))"

section \<open>Reading what was written\<close>

lemma sys_pread_bounds:
  "length (sys_pread short bs offset n) \<le> min n (length bs - offset)"
  "sys_pread short bs offset n = take (length (sys_pread short bs offset n)) (drop offset bs)"
  "n > 0 \<Longrightarrow> sys_pread short bs offset n = [] \<longleftrightarrow> length bs \<le> offset"
  by (auto simp: sys_pread_def Let_def)

lemma pread_loop_eq:
  "pread_loop short bs offset n buf =
     (if n = 0 then ReadSome buf False
      else if length bs \<le> offset + length buf \<and> buf = [] then ReadEmpty
      else ReadSome (buf @ take n (drop (offset + length buf) bs)) (length bs < offset + length buf + n))"
proof (induction n arbitrary: buf rule: less_induct)
  case (less n)
  show ?case
  proof (cases "n = 0 \<or> length bs \<le> offset + length buf")
    case True
    then show ?thesis
      using sys_pread_bounds(3) [where n = n and short = short and bs = bs and offset = "offset + length buf"]
      by (subst pread_loop.simps) (auto simp: Let_def)
  next
    case False
    define got where "got = sys_pread short bs (offset + length buf) n"
    have got: "got \<noteq> []" "length got \<le> n" "length got \<le> length bs - (offset + length buf)"
        "got = take (length got) (drop (offset + length buf) bs)"
      using False sys_pread_bounds [where n = n and short = short and bs = bs and offset = "offset + length buf"] unfolding got_def by auto
    have "pread_loop short bs offset n buf = pread_loop short bs offset (n - length got) (buf @ got)"
      using False got(1) by (subst pread_loop.simps) (simp add: Let_def got_def [symmetric])
    also have "\<dots> = (if n - length got = 0 then ReadSome (buf @ got) False
        else ReadSome ((buf @ got) @ take (n - length got) (drop (offset + length (buf @ got)) bs))
               (length bs < offset + length (buf @ got) + (n - length got)))"
      using False got(1) less.IH [of "n - length got" "buf @ got"] by simp
    also have "\<dots> = ReadSome (buf @ take n (drop (offset + length buf) bs)) (length bs < offset + length buf + n)"
    proof -
      have "take n (drop (offset + length buf) bs) =
          got @ take (n - length got) (drop (offset + length (buf @ got)) bs)"
        using got(2,4) take_add [of "length got" "n - length got" "drop (offset + length buf) bs"]
        by (simp add: add.commute add.left_commute)
      then show ?thesis using got(1,2,3) False by auto
    qed
    finally show ?thesis using False by simp
  qed
qed

lemma read_bytes_eq:
  "read_bytes short bs pos len =
     (if len \<noteq> 0 \<and> length bs \<le> unat pos then (None, pos)
      else (Some (take (unat len) (drop (unat pos) bs)), pos + len))"
  by (simp add: read_bytes_def pread_def pread_loop_eq unat_eq_zero)

text \<open>The header a stream without records sees of a written batch.\<close>

definition file_header :: "(bytes \<Rightarrow> u32) \<Rightarrow> ('r \<Rightarrow> bytes) \<Rightarrow> 'r Batch \<Rightarrow> unit Batch" where
  "file_header crc32c w b =
     (let s = seal_batch crc32c w b
      in (default_batch ())\<lparr>base_offset := base_offset s, batch_len := batch_len s, header := header s\<rparr>)"

lemma file_header_simps [simp]:
  "base_offset (file_header crc32c w b) = base_offset b"
  "last_offset_delta (header (file_header crc32c w b)) = last_offset_delta (header b)"
  "get_last_offset (file_header crc32c w b) = get_last_offset b"
  by (simp_all add: file_header_def seal_batch_def get_last_offset_def)

lemma dec_empty_simps [simp]: "initial (dec_empty v) = ()" "decode (dec_empty v) u src = DOk () src"
  by (simp_all add: dec_empty_def struct_dec_def)

lemma wire_batch_split:
  "wire_batch crc32c w b =
     (be_bytes 8 (base_offset b) @ be_bytes 4 (batch_len (seal_batch crc32c w b)) @
      wire_batch_header (header (seal_batch crc32c w b))) @ (wire_schema b @ w (records b))"
  by (simp add: wire_batch_def seal_batch_def wire_schema_def)

lemma read_from_eof: "length bs \<le> unat pos \<Longrightarrow> read_from short RD bs pos = (Inr None, pos)"
  by (simp add: read_from_def read_bytes_eq BATCH_FILE_HEADER_SIZE_def BATCH_PREAMBLE_SIZE_def BATCH_HEADER_SIZE_def)

lemma content_len_eq:
  assumes "length (w (records b)) < 2 ^ 31 - 49"
  shows "unat (scast (batch_len (seal_batch crc32c w b)) - word_of_nat BATCH_HEADER_SIZE :: u64) =
         length (wire_schema b) + length (w (records b))"
proof -
  have "45 + (length (wire_schema b) + length (w (records b))) < 2 ^ 31"
    using assms by (simp add: length_wire_schema)
  from rec_len_eq [OF this] show ?thesis
    by (simp add: seal_batch_def BATCH_HEADER_SIZE_def add.assoc del: of_nat_add)
qed

lemma decode_front:
  "decode_from_file_buf 0 (default_batch ())
     (be_bytes 8 (base_offset b) @ be_bytes 4 (batch_len (seal_batch crc32c w b)) @
      wire_batch_header (header (seal_batch crc32c w b))) = DOk (file_header crc32c w b) []"
  using decode_file_buf_wire [of 0 "default_batch ()" "base_offset b" "batch_len (seal_batch crc32c w b)"
      "header (seal_batch crc32c w b)" "[]"]
  by (simp add: file_header_def seal_batch_def default_batch_def Let_def)

lemma read_from_wire:
  assumes len: "length (w (records b)) < 2 ^ 31 - 49"
    and room: "length pre + length (wire_batch crc32c w b) < 2 ^ 32"
  shows "read_from short dec_empty (pre @ wire_batch crc32c w b @ rest) (word_of_nat (length pre)) =
     (Inr (Some (file_header crc32c w b, word_of_nat (length pre))),
      word_of_nat (length pre + length (wire_batch crc32c w b)))"
proof -
  let ?front = "be_bytes 8 (base_offset b) @ be_bytes 4 (batch_len (seal_batch crc32c w b)) @
      wire_batch_header (header (seal_batch crc32c w b))"
  let ?content = "wire_schema b @ w (records b)" and ?pos = "word_of_nat (length pre) :: u32"
  let ?file = "pre @ wire_batch crc32c w b @ rest"
  have front: "length ?front = 57" by simp
  have total: "length (wire_batch crc32c w b) = 57 + length ?content"
    unfolding wire_batch_split by simp
  have pos: "unat ?pos = length pre" and pos1: "unat (?pos + 57) = length pre + 57"
    using room total by (simp_all add: unat_of_nat unat_word_ariths)
  have content: "unat (word_of_nat (length ?content) :: u32) = length ?content"
    using room total by (simp add: unat_of_nat del: length_append)
  have split: "?file = pre @ ?front @ ?content @ rest" unfolding wire_batch_split by simp
  have read1: "read_bytes short ?file ?pos 57 = (Some ?front, ?pos + 57)"
    unfolding split read_bytes_eq pos by simp
  have read2: "read_bytes short ?file (?pos + 57) (word_of_nat (length ?content)) =
      (Some ?content, ?pos + 57 + word_of_nat (length ?content))"
  proof -
    have "length ?content = 0" if "length ?file \<le> length pre + 57" using that total by simp
    then have "\<not> ((word_of_nat (length ?content) :: u32) \<noteq> 0 \<and> length ?file \<le> length pre + 57)" by auto
    then show ?thesis unfolding read_bytes_eq pos1 content unfolding split by simp
  qed
  have size57: "BATCH_FILE_HEADER_SIZE = 57"
    by (simp add: BATCH_FILE_HEADER_SIZE_def BATCH_PREAMBLE_SIZE_def BATCH_HEADER_SIZE_def)
  have "length ?content = length (wire_schema b) + length (w (records b))" by simp
  then have content_len: "unat (scast (batch_len (file_header crc32c w b)) - word_of_nat BATCH_HEADER_SIZE :: u64) =
      length ?content"
    using content_len_eq [of w b, OF len] by (simp add: file_header_def Let_def)
  show ?thesis
    unfolding read_from_def size57 dec_empty_simps
    using read1 read2 front decode_front [of b crc32c w] content_len total
    by (simp add: Let_def del: length_append)
qed

section \<open>Contents of a log file\<close>

definition log_bytes :: "(bytes \<Rightarrow> u32) \<Rightarrow> ('r \<Rightarrow> bytes) \<Rightarrow> 'r Batch list \<Rightarrow> bytes" where
  "log_bytes crc32c w bs = concat (map (wire_batch crc32c w) bs)"

text \<open>The batches follow each other without a gap, the first one at offset \<open>o0\<close>.\<close>

fun chain :: "int \<Rightarrow> 'r Batch list \<Rightarrow> bool" where
  "chain o0 [] = True"
| "chain o0 (b # bs) = (sint (base_offset b) = o0 \<and> records_len b > 0 \<and> chain (o0 + int (records_len b)) bs)"

definition chain_end :: "int \<Rightarrow> 'r Batch list \<Rightarrow> int" where
  "chain_end o0 bs = o0 + int (sum_list (map records_len bs))"

definition log_ok ::
  "(bytes \<Rightarrow> u32) \<Rightarrow> ('r \<Rightarrow> bytes) \<Rightarrow> ('r \<Rightarrow> bool) \<Rightarrow> i64 \<Rightarrow> i64 \<Rightarrow> bytes \<Rightarrow> 'r Batch list \<Rightarrow> bool" where
  "log_ok crc32c w p base end_offset file_bytes bs =
     (file_bytes = log_bytes crc32c w bs \<and> list_all (ok_batch w p) bs \<and>
      chain (sint base) bs \<and> sint end_offset = chain_end (sint base) bs \<and>
      sint end_offset - sint base < 2 ^ 32 \<and> length file_bytes < 2 ^ 32)"

lemma log_bytes_simps [simp]:
  "log_bytes crc32c w [] = []"
  "log_bytes crc32c w (b # bs) = wire_batch crc32c w b @ log_bytes crc32c w bs"
  "log_bytes crc32c w (bs @ cs) = log_bytes crc32c w bs @ log_bytes crc32c w cs"
  by (simp_all add: log_bytes_def)

lemma chain_end_simps [simp]:
  "chain_end o0 [] = o0"
  "chain_end o0 (b # bs) = chain_end (o0 + int (records_len b)) bs"
  "chain_end o0 (bs @ cs) = chain_end (chain_end o0 bs) cs"
  by (simp_all add: chain_end_def)

lemma chain_append [simp]: "chain o0 (bs @ cs) \<longleftrightarrow> chain o0 bs \<and> chain (chain_end o0 bs) cs"
  by (induction bs arbitrary: o0) auto

lemma chain_end_ge: "o0 \<le> chain_end o0 bs"
  by (simp add: chain_end_def)

lemma chain_before:
  "chain o0 bs \<Longrightarrow> b \<in> set bs \<Longrightarrow> sint (base_offset b) + int (records_len b) \<le> chain_end o0 bs"
proof (induction bs arbitrary: o0)
  case (Cons c bs)
  then show ?case using chain_end_ge [of "o0 + int (records_len c)" bs] by auto
qed simp

lemma chain_from: "chain o0 bs \<Longrightarrow> b \<in> set bs \<Longrightarrow> o0 \<le> sint (base_offset b)"
  by (induction bs arbitrary: o0) fastforce+

lemma chain_split:
  assumes "chain o0 bs" "o0 \<le> x" "x < chain_end o0 bs"
  obtains pre b post where "bs = pre @ b # post" "sint (base_offset b) \<le> x"
    "x < sint (base_offset b) + int (records_len b)"
proof -
  have "\<exists>pre b post. bs = pre @ b # post \<and> sint (base_offset b) \<le> x \<and>
      x < sint (base_offset b) + int (records_len b)"
    using assms
  proof (induction bs arbitrary: o0)
    case (Cons c bs)
    show ?case
    proof (cases "x < o0 + int (records_len c)")
      case True
      then show ?thesis using Cons.prems by (intro exI [of _ "[]"]) auto
    next
      case False
      then obtain pre b post where "bs = pre @ b # post" "sint (base_offset b) \<le> x"
          "x < sint (base_offset b) + int (records_len b)"
        using Cons.IH [of "o0 + int (records_len c)"] Cons.prems by auto
      then show ?thesis by (intro exI [of _ "c # pre"] exI [of _ b] exI [of _ post]) simp
    qed
  qed simp
  then show thesis using that by blast
qed

lemma sint_less_power: "sint (x :: i64) < 2 ^ 63" "- (2 ^ 63) \<le> sint (x :: i64)"
  using sint_lt [of x] sint_ge [of x] by simp_all

lemma len64: "LENGTH(64) - 1 = 63"
  by simp

lemma sint_plus:
  fixes x :: i64
  assumes "0 \<le> k" "sint x + k < 2 ^ 63"
  shows "sint (x + word_of_int k) = sint x + k"
proof -
  have ge: "- (2 ^ 63) \<le> sint x + k" using sint_less_power(2) [of x] assms(1) by linarith
  have "x + word_of_int k = word_of_int (sint x + k)"
    unfolding of_int_add of_int_sint scast_id ..
  then show ?thesis
    using signed_take_bit_int_eq_self [OF ge assms(2)] by (simp only: sint_sbintrunc' len64)
qed

lemma last_offset_eq:
  assumes "records_len b > 0" "sint (base_offset b) + int (records_len b) \<le> 2 ^ 63"
  shows "sint (get_last_offset b) = sint (base_offset b) + int (records_len b) - 1"
proof -
  let ?d = "last_offset_delta (header b)"
  have d: "sint ?d \<ge> 0" "int (records_len b) = sint ?d + 1"
    using assms(1) by (auto simp: records_len_def split: if_splits)
  have "get_last_offset b = base_offset b + word_of_int (sint ?d)"
    unfolding get_last_offset_def of_int_sint ..
  then show ?thesis using sint_plus [of "sint ?d" "base_offset b"] d assms(2) by simp
qed

section \<open>Searching a log\<close>

lemma wire_batch_nonempty [simp]: "wire_batch crc32c w b \<noteq> []"
  using length_wire_batch [of crc32c w b] by (auto simp: BATCH_FILE_HEADER_SIZE_def BATCH_PREAMBLE_SIZE_def)

lemma seek_batch_finds:
  assumes "list_all (ok_batch w p) (mid @ [b])" "length (log_bytes crc32c w (pre @ mid @ [b])) < 2 ^ 32"
    and "\<forall>c \<in> set mid. sint (get_last_offset c) < sint offset" "sint offset \<le> sint (get_last_offset b)"
  shows "seek_batch short (log_bytes crc32c w (pre @ mid @ b # post)) offset
           (word_of_nat (length (log_bytes crc32c w pre))) =
         Some (Inr (Some (file_header crc32c w b, word_of_nat (length (log_bytes crc32c w (pre @ mid))))))"
  using assms
proof (induction mid arbitrary: pre)
  case Nil
  have "read_from short dec_empty (log_bytes crc32c w pre @ wire_batch crc32c w b @ log_bytes crc32c w post)
      (word_of_nat (length (log_bytes crc32c w pre))) =
     (Inr (Some (file_header crc32c w b, word_of_nat (length (log_bytes crc32c w pre)))),
      word_of_nat (length (log_bytes crc32c w pre) + length (wire_batch crc32c w b)))"
    using Nil.prems by (intro read_from_wire) (simp_all add: ok_batch_def)
  then show ?case using Nil.prems by (subst seek_batch.simps) simp
next
  case (Cons c mid)
  have "read_from short dec_empty
        (log_bytes crc32c w pre @ wire_batch crc32c w c @ log_bytes crc32c w (mid @ b # post))
      (word_of_nat (length (log_bytes crc32c w pre))) =
     (Inr (Some (file_header crc32c w c, word_of_nat (length (log_bytes crc32c w pre)))),
      word_of_nat (length (log_bytes crc32c w pre) + length (wire_batch crc32c w c)))"
    using Cons.prems by (intro read_from_wire) (simp_all add: ok_batch_def)
  then show ?case
    using Cons.prems Cons.IH [of "pre @ [c]"] by (subst seek_batch.simps) (simp add: not_le)
qed

text \<open>The index entry of each batch: its offset relative to the segment and its file position.\<close>

fun marks :: "(bytes \<Rightarrow> u32) \<Rightarrow> ('r \<Rightarrow> bytes) \<Rightarrow> i64 \<Rightarrow> nat \<Rightarrow> 'r Batch list \<Rightarrow> Entry list" where
  "marks crc32c w base pos [] = []"
| "marks crc32c w base pos (b # bs) =
     (ucast (base_offset b - base), word_of_nat pos) #
     marks crc32c w base (pos + length (wire_batch crc32c w b)) bs"

lemma marks_append:
  "marks crc32c w base pos (bs @ cs) =
     marks crc32c w base pos bs @ marks crc32c w base (pos + length (log_bytes crc32c w bs)) cs"
  by (induction bs arbitrary: pos) (simp_all add: add.assoc)

lemma marks_split:
  assumes "e \<in> set (marks crc32c w base pos bs)"
  obtains pre b post where "bs = pre @ b # post" "fst e = ucast (base_offset b - base)"
    "snd e = word_of_nat (pos + length (log_bytes crc32c w pre))"
proof -
  have "\<exists>pre b post. bs = pre @ b # post \<and> fst e = ucast (base_offset b - base) \<and>
      snd e = word_of_nat (pos + length (log_bytes crc32c w pre))"
    using assms
  proof (induction bs arbitrary: pos)
    case (Cons c bs)
    then consider "e = (ucast (base_offset c - base), word_of_nat pos)"
      | "e \<in> set (marks crc32c w base (pos + length (wire_batch crc32c w c)) bs)" by auto
    then show ?case
    proof cases
      case 1
      then show ?thesis by (intro exI [of _ "[]"]) simp
    next
      case 2
      from Cons.IH [OF this] obtain pre b post where "bs = pre @ b # post" "fst e = ucast (base_offset b - base)"
        "snd e = word_of_nat (pos + length (wire_batch crc32c w c) + length (log_bytes crc32c w pre))" by blast
      then show ?thesis by (intro exI [of _ "c # pre"] exI [of _ b] exI [of _ post]) (simp add: add.assoc)
    qed
  qed simp
  then show thesis using that by blast
qed

lemma rel_offset:
  fixes x base :: i64
  assumes "sint base \<le> sint x" "sint x - sint base < 2 ^ 32"
  shows "int (unat (ucast (x - base) :: u32)) = sint x - sint base"
proof -
  have "x - base = word_of_int (sint x - sint base)"
    unfolding of_int_diff of_int_sint scast_id ..
  then have "uint (x - base) = take_bit 64 (sint x - sint base)"
    by (simp only: uint_word_of_int_eq) simp
  also have "\<dots> = sint x - sint base"
    using assms by (intro take_bit_int_eq_self) auto
  finally have u: "uint (x - base) = sint x - sint base" .
  have "uint (ucast (x - base) :: u32) = take_bit 32 (uint (x - base))"
    by (simp only: unsigned_ucast_eq) simp
  also have "\<dots> = sint x - sint base"
    unfolding u using assms by (intro take_bit_int_eq_self) auto
  finally show ?thesis by simp
qed

text \<open>
  What searching and slicing rely on, for both kinds of segment: the file holds
  the batches, the index answers with the position of a batch that starts at
  or before the offset, and slices inside the file are granted.
\<close>

locale segment_log =
  fixes crc32c :: "bytes \<Rightarrow> u32" and w :: "'r \<Rightarrow> bytes" and p :: "'r \<Rightarrow> bool"
    and view :: "'s \<Rightarrow> segment_view" and holds :: "'s \<Rightarrow> 'r Batch list \<Rightarrow> bool"
  assumes log_law: "holds s bs \<Longrightarrow>
      log_ok crc32c w p (sv_base (view s)) (sv_end (view s)) (sv_file (view s)) bs"
    and find_law: "holds s bs \<Longrightarrow> bs \<noteq> [] \<Longrightarrow> \<exists>entry. sv_find (view s) d = Inr entry \<and>
      (\<forall>e. entry = Some e \<longrightarrow> fst e \<le> d \<and> e \<in> set (marks crc32c w (sv_base (view s)) 0 bs))"
    and slice_law: "holds s bs \<Longrightarrow> unat pos \<le> length (sv_file (view s)) \<Longrightarrow>
      sv_slice (view s) pos = Inr (unat pos, length (sv_file (view s)) - unat pos)"
    and slice_to_law: "holds s bs \<Longrightarrow> unat pos + unat len \<le> length (sv_file (view s)) \<Longrightarrow>
      sv_slice_from_to (view s) pos len = Inr (unat pos, unat len)"
begin

lemma holds_split:
  assumes "holds s bs" "sint (sv_base (view s)) \<le> x" "x < sint (sv_end (view s))"
  shows "bs \<noteq> []"
  using log_law [OF assms(1)] assms(2,3) by (auto simp: log_ok_def)

text \<open>The position the scan starts from is the start of a batch at or before the offset.\<close>

lemma find_start:
  assumes ok: "holds s bs" and off: "sint (sv_base (view s)) \<le> sint offset" "sint offset < sint (sv_end (view s))"
  obtains entry pre post where "sv_find (view s) (ucast (offset - sv_base (view s))) = Inr entry"
    "(case entry of None \<Rightarrow> 0 | Some e \<Rightarrow> snd e) = (word_of_nat (length (log_bytes crc32c w pre)) :: u32)"
    "bs = pre @ post" "chain_end (sint (sv_base (view s))) pre \<le> sint offset"
proof -
  let ?base = "sv_base (view s)"
  have log: "chain (sint ?base) bs" "sint (sv_end (view s)) = chain_end (sint ?base) bs"
      "sint (sv_end (view s)) - sint ?base < 2 ^ 32"
    using log_law [OF ok] by (simp_all add: log_ok_def)
  from find_law [OF ok holds_split [OF ok off], of "ucast (offset - ?base)"] obtain entry where
    entry: "sv_find (view s) (ucast (offset - ?base)) = Inr entry"
      "\<And>e. entry = Some e \<Longrightarrow> fst e \<le> ucast (offset - ?base)"
      "\<And>e. entry = Some e \<Longrightarrow> e \<in> set (marks crc32c w ?base 0 bs)"
    by blast
  show thesis
  proof (cases entry)
    case None
    then show thesis using that [OF entry(1), of "[]" bs] off by simp
  next
    case (Some e)
    from entry(3) [OF Some] obtain pre b post where e: "bs = pre @ b # post"
        "fst e = ucast (base_offset b - ?base)" "snd e = word_of_nat (0 + length (log_bytes crc32c w pre))"
      by (rule marks_split)
    have b: "sint (base_offset b) = chain_end (sint ?base) pre" using log(1) e(1) by simp
    have "sint ?base \<le> sint (base_offset b)" "sint (base_offset b) < sint (sv_end (view s))"
      using log(1,2) e(1) b chain_end_ge [of "sint ?base" pre] chain_before [OF log(1), of b] by auto
    then have "int (unat (fst e)) = sint (base_offset b) - sint ?base"
      unfolding e(2) using log(3) by (intro rel_offset) auto
    moreover have "int (unat (ucast (offset - ?base) :: u32)) = sint offset - sint ?base"
      using off log(3) by (intro rel_offset) auto
    ultimately have "sint (base_offset b) \<le> sint offset"
      using entry(2) [OF Some] by (simp add: word_le_def)
    then show thesis using that [OF entry(1), of pre "b # post"] e Some b by simp
  qed
qed

lemma find_offset:
  assumes ok: "holds s bs" and off: "sint (sv_base (view s)) \<le> sint offset" "sint offset < sint (sv_end (view s))"
  obtains pre b post where "bs = pre @ b # post" "sint (base_offset b) \<le> sint offset"
    "sint offset < sint (base_offset b) + int (records_len b)"
    "find_offset_position short (view s) offset =
       Some (Inr (Some (file_header crc32c w b, word_of_nat (length (log_bytes crc32c w pre)))))"
proof -
  let ?base = "sv_base (view s)"
  have log: "sv_file (view s) = log_bytes crc32c w bs" "list_all (ok_batch w p) bs" "chain (sint ?base) bs"
      "sint (sv_end (view s)) = chain_end (sint ?base) bs" "length (log_bytes crc32c w bs) < 2 ^ 32"
    using log_law [OF ok] by (auto simp: log_ok_def)
  from ok off obtain entry pre post where start:
      "sv_find (view s) (ucast (offset - ?base)) = Inr entry"
      "(case entry of None \<Rightarrow> 0 | Some e \<Rightarrow> snd e) = (word_of_nat (length (log_bytes crc32c w pre)) :: u32)"
      "bs = pre @ post" "chain_end (sint ?base) pre \<le> sint offset"
    by (rule find_start)
  have chain: "chain (chain_end (sint ?base) pre) post" using log(3) start(3) by simp
  have "sint offset < chain_end (chain_end (sint ?base) pre) post" using log(4) off(2) start(3) by simp
  from chain start(4) this obtain mid b rest where b: "post = mid @ b # rest" "sint (base_offset b) \<le> sint offset"
      "sint offset < sint (base_offset b) + int (records_len b)"
    by (rule chain_split)
  have last: "sint (get_last_offset c) = sint (base_offset c) + int (records_len c) - 1" if "c \<in> set post" for c
  proof (rule last_offset_eq)
    show "records_len c > 0" using chain that by (auto simp: in_set_conv_decomp)
    show "sint (base_offset c) + int (records_len c) \<le> 2 ^ 63"
      using chain_before [OF log(3), of c] that start(3) log(4) sint_less_power(1) [of "sv_end (view s)"] by simp
  qed
  have "sint (get_last_offset c) < sint offset" if "c \<in> set mid" for c
    using chain_before [of "chain_end (sint ?base) pre" mid c] last [of c] that chain b by simp
  moreover have "sint offset \<le> sint (get_last_offset b)" using last [of b] b by simp
  ultimately have seek: "seek_batch short (log_bytes crc32c w (pre @ mid @ b # rest)) offset
       (word_of_nat (length (log_bytes crc32c w pre))) =
      Some (Inr (Some (file_header crc32c w b, word_of_nat (length (log_bytes crc32c w (pre @ mid))))))"
    using log(1,2,5) start(3) b(1) by (intro seek_batch_finds) auto
  have "find_offset_position short (view s) offset =
      Some (Inr (Some (file_header crc32c w b, word_of_nat (length (log_bytes crc32c w (pre @ mid))))))"
    using off start(1,2) seek log(1) start(3) b(1) by (simp add: find_offset_position_def Let_def)
  then show thesis using that [of "pre @ mid" b rest] b start(3) by simp
qed

end

section \<open>What a slice holds\<close>

definition batch_end :: "'r Batch \<Rightarrow> int" where
  "batch_end b = sint (base_offset b) + int (records_len b)"

text \<open>
  The reference for a read: from the batch that holds \<open>start\<close> on, the batches
  all of whose records are below \<open>limit\<close>.
\<close>

definition batches_between :: "'r Batch list \<Rightarrow> int \<Rightarrow> int \<Rightarrow> 'r Batch list" where
  "batches_between bs start limit =
     takeWhile (\<lambda>b. batch_end b \<le> limit) (dropWhile (\<lambda>b. batch_end b \<le> start) bs)"

text \<open>The offset a read ends before: \<open>max_offset\<close>, when it is given, but at most the end of the segment.\<close>

definition read_limit :: "segment_view \<Rightarrow> i64 option \<Rightarrow> int" where
  "read_limit seg max_offset = (case max_offset of None \<Rightarrow> sint (sv_end seg) | Some m \<Rightarrow> min (sint m) (sint (sv_end seg)))"

lemma takeWhile_weaken:
  assumes "\<And>x. P x \<Longrightarrow> Q x"
  shows "takeWhile Q xs = takeWhile P xs @ takeWhile Q (dropWhile P xs)"
  using assms by (induction xs) auto

lemma slice_content:
  "take (length (log_bytes crc32c w (batches_between bs x y)))
     (drop (length (log_bytes crc32c w (takeWhile (\<lambda>b. batch_end b \<le> x) bs))) (log_bytes crc32c w bs)) =
   log_bytes crc32c w (batches_between bs x y)"
proof -
  let ?low = "takeWhile (\<lambda>b. batch_end b \<le> x) bs" and ?high = "dropWhile (\<lambda>b. batch_end b \<le> x) bs"
  have "log_bytes crc32c w bs = log_bytes crc32c w (?low @ batches_between bs x y @ dropWhile (\<lambda>b. batch_end b \<le> y) ?high)"
    unfolding batches_between_def by (simp only: takeWhile_dropWhile_id)
  then show ?thesis by (simp only: log_bytes_simps(3) append_eq_conv_conj) simp
qed

lemma chain_takeWhile:
  assumes "chain o0 (pre @ b # post)" "sint (base_offset b) \<le> x" "x < batch_end b"
  shows "takeWhile (\<lambda>b. batch_end b \<le> x) (pre @ b # post) = pre"
    "dropWhile (\<lambda>b. batch_end b \<le> x) (pre @ b # post) = b # post"
proof -
  have "batch_end c \<le> x" if "c \<in> set pre" for c
    using chain_before [of o0 pre c] assms that by (simp add: batch_end_def)
  then show "takeWhile (\<lambda>b. batch_end b \<le> x) (pre @ b # post) = pre"
      "dropWhile (\<lambda>b. batch_end b \<le> x) (pre @ b # post) = b # post"
    using assms(3) by (auto simp: takeWhile_append2 dropWhile_append2)
qed

context segment_log
begin

lemma find_position:
  assumes ok: "holds s bs" and off: "sint (sv_base (view s)) \<le> sint offset" "sint offset < sint (sv_end (view s))"
  obtains h where "find_offset_position short (view s) offset = Some (Inr (Some (h,
      word_of_nat (length (log_bytes crc32c w (takeWhile (\<lambda>b. batch_end b \<le> sint offset) bs))))))"
proof -
  from ok off obtain pre b post where b: "bs = pre @ b # post" "sint (base_offset b) \<le> sint offset"
    "sint offset < sint (base_offset b) + int (records_len b)"
    "find_offset_position short (view s) offset =
       Some (Inr (Some (file_header crc32c w b, word_of_nat (length (log_bytes crc32c w pre)))))"
    by (rule find_offset)
  have "chain (sint (sv_base (view s))) (pre @ b # post)" using log_law [OF ok] b(1) by (simp add: log_ok_def)
  from chain_takeWhile(1) [OF this b(2)] b(3)
  have "takeWhile (\<lambda>b. batch_end b \<le> sint offset) bs = pre" by (simp add: batch_end_def b(1))
  then show thesis using that b(4) by simp
qed

lemma slice_exact:
  assumes ok: "holds s bs" and start: "sint (sv_base (view s)) \<le> sint start" "sint start < sint (sv_end (view s))"
    and limit: "sint start \<le> read_limit (view s) max_offset"
  shows "records_slice short (view s) start max_offset = Some (Inr (Some
     (length (log_bytes crc32c w (takeWhile (\<lambda>b. batch_end b \<le> sint start) bs)),
      length (log_bytes crc32c w (batches_between bs (sint start) (read_limit (view s) max_offset))))))"
proof -
  have log: "sv_file (view s) = log_bytes crc32c w bs" "chain (sint (sv_base (view s))) bs"
      "sint (sv_end (view s)) = chain_end (sint (sv_base (view s))) bs" "length (log_bytes crc32c w bs) < 2 ^ 32"
    using log_law [OF ok] by (auto simp: log_ok_def)
  let ?below = "\<lambda>x. takeWhile (\<lambda>b. batch_end b \<le> x) bs"
  let ?mid = "batches_between bs (sint start)"
  define pos where "pos = length (log_bytes crc32c w (?below (sint start)))"
  from ok start obtain h where find: "find_offset_position short (view s) start = Some (Inr (Some (h, word_of_nat pos)))"
    unfolding pos_def by (rule find_position)
  have below: "?below x = ?below (sint start) @ ?mid x" if "sint start \<le> x" for x
    unfolding batches_between_def using that by (intro takeWhile_weaken) simp
  have upto: "pos + length (log_bytes crc32c w (?mid x)) = length (log_bytes crc32c w (?below x))"
    if "sint start \<le> x" for x
    unfolding below [OF that] pos_def by simp
  have inside: "length (log_bytes crc32c w (?below x)) \<le> length (log_bytes crc32c w bs)" for x
  proof -
    have "log_bytes crc32c w bs = log_bytes crc32c w (?below x @ dropWhile (\<lambda>b. batch_end b \<le> x) bs)"
      by (simp only: takeWhile_dropWhile_id)
    then show ?thesis by (simp only: log_bytes_simps(3) length_append le_add1)
  qed
  have all: "?below (sint (sv_end (view s))) = bs"
    using chain_before [OF log(2)] log(3) by (simp add: takeWhile_eq_all_conv batch_end_def)
  have whole: "pos + length (log_bytes crc32c w (?mid (sint (sv_end (view s))))) = length (log_bytes crc32c w bs)"
    using upto [of "sint (sv_end (view s))"] start(2) all by simp
  have pos32: "unat (word_of_nat pos :: u32) = pos" using whole log(4) by (simp add: unat_of_nat)
  have to_end: "sv_slice (view s) (word_of_nat pos) =
      Inr (pos, length (log_bytes crc32c w (?mid (sint (sv_end (view s))))))"
    using slice_law [OF ok, of "word_of_nat pos"] whole by (simp add: pos32 log(1))
  show ?thesis
  proof (cases "read_limit (view s) max_offset = sint (sv_end (view s))")
    case True
    then show ?thesis
      using find to_end
      by (auto simp: records_slice_def read_limit_def Let_def pos_def min_def word_eq_iff_signed [symmetric]
          split: option.splits if_splits)
  next
    case False
    then obtain m where m: "max_offset = Some m" "sint m < sint (sv_end (view s))" "read_limit (view s) max_offset = sint m"
      by (cases max_offset) (auto simp: read_limit_def min_def split: if_splits)
    have le: "sint start \<le> sint m" using limit m(3) by simp
    obtain h2 where find2: "find_offset_position short (view s) m =
        Some (Inr (Some (h2, word_of_nat (length (log_bytes crc32c w (?below (sint m)))))))"
      by (rule find_position [OF ok order_trans [OF start(1) le] m(2)])
    let ?len = "word_of_nat (length (log_bytes crc32c w (?below (sint m)))) - word_of_nat pos :: u32"
    have "?len = word_of_nat (length (log_bytes crc32c w (?mid (sint m))))"
      unfolding upto [OF le, symmetric] by simp
    then have len: "unat ?len = length (log_bytes crc32c w (?mid (sint m)))"
      using upto [OF le] inside [of "sint m"] log(4) by (simp add: unat_of_nat)
    then have "sv_slice_from_to (view s) (word_of_nat pos) ?len =
        Inr (pos, length (log_bytes crc32c w (?mid (sint m))))"
      using slice_to_law [OF ok, of "word_of_nat pos" ?len] upto [OF le] inside [of "sint m"]
      by (simp only: pos32 log(1) len)
    moreover have "m \<noteq> sv_end (view s)" using m(2) by auto
    ultimately show ?thesis
      using find find2 m by (simp add: records_slice_def Let_def pos_def)
  qed
qed

end

section \<open>The two kinds of segment\<close>

definition seg_holds ::
  "(bytes \<Rightarrow> u32) \<Rightarrow> ('r \<Rightarrow> bytes) \<Rightarrow> ('r \<Rightarrow> bool) \<Rightarrow> MutableSegment \<Rightarrow> 'r Batch list \<Rightarrow> bool" where
  "seg_holds crc32c w p seg bs =
     (log_ok crc32c w p (sg_base seg) (sg_end seg) (fr_file (sg_log seg)) bs \<and>
      fr_len (sg_log seg) = word_of_nat (length (fr_file (sg_log seg))) \<and> fr_base (sg_log seg) = sg_base seg \<and>
      idx_ok (sg_index seg) (nat (sint (sg_end seg) - sint (sg_base seg))) \<and>
      set (entries (sg_index seg)) \<subseteq> set (marks crc32c w (sg_base seg) 0 bs))"

definition rs_holds ::
  "(bytes \<Rightarrow> u32) \<Rightarrow> ('r \<Rightarrow> bytes) \<Rightarrow> ('r \<Rightarrow> bool) \<Rightarrow> ReadSegment \<Rightarrow> 'r Batch list \<Rightarrow> bool" where
  "rs_holds crc32c w p seg bs =
     (log_ok crc32c w p (rs_base seg) (rs_end seg) (rs_file seg) bs \<and>
      rs_index seg \<noteq> [] \<and> keys_sorted (rs_index seg) \<and>
      set (map entry_to_be (rs_index seg)) \<subseteq> insert (0, 0) (set (marks crc32c w (rs_base seg) 0 bs)))"

lemma index_lookup_SomeD:
  assumes "index_lookup es d = Some e"
  shows "e \<in> set es" "fst e \<le> d"
proof -
  let ?below = "filter (\<lambda>e. fst e \<le> d) es"
  have "?below \<noteq> []" "e = last ?below"
    using assms by (auto simp: index_lookup_def Let_def split: if_splits)
  then have "e \<in> set ?below" by (metis last_in_set)
  then show "e \<in> set es" "fst e \<le> d" by auto
qed

lemma unat_ucast_u64 [simp]: "unat (ucast (x :: u32) :: u64) = unat x"
proof -
  have "unat x < 2 ^ 64" using unsigned_less [of x, where ?'a = nat] by simp
  then show ?thesis by (simp only: unsigned_ucast_eq) (simp add: take_bit_nat_eq_self)
qed

lemma first_mark: "log_ok crc32c w p base end_offset file_bytes bs \<Longrightarrow> bs \<noteq> [] \<Longrightarrow> (0, 0) \<in> set (marks crc32c w base 0 bs)"
  by (cases bs) (auto simp: log_ok_def word_eq_iff_signed [symmetric])

interpretation active: segment_log crc32c w p active_view "seg_holds crc32c w p" for crc32c w p
proof
  fix s :: MutableSegment and bs pos len d
  assume ok: "seg_holds crc32c w p s bs"
  show "log_ok crc32c w p (sv_base (active_view s)) (sv_end (active_view s)) (sv_file (active_view s)) bs"
    using ok by (simp add: seg_holds_def active_view_def)
  show "\<exists>entry. sv_find (active_view s) d = Inr entry \<and>
      (\<forall>e. entry = Some e \<longrightarrow> fst e \<le> d \<and> e \<in> set (marks crc32c w (sv_base (active_view s)) 0 bs))"
  proof (intro exI conjI allI impI)
    show "sv_find (active_view s) d = Inr (index_lookup (entries (sg_index s)) d)"
      using ok mi_find_offset_reference by (auto simp: seg_holds_def active_view_def)
    fix e
    assume "index_lookup (entries (sg_index s)) d = Some e"
    from index_lookup_SomeD [OF this]
    show "fst e \<le> d" "e \<in> set (marks crc32c w (sv_base (active_view s)) 0 bs)"
      using ok unfolding seg_holds_def active_view_def by auto
  qed
  show "sv_slice (active_view s) pos = Inr (unat pos, length (sv_file (active_view s)) - unat pos)"
    if "unat pos \<le> length (sv_file (active_view s))"
  proof -
    have "unat (word_of_nat (length (fr_file (sg_log s))) :: u32) = length (fr_file (sg_log s))"
      using ok by (auto simp: seg_holds_def log_ok_def unat_of_nat)
    then have "unat (word_of_nat (length (fr_file (sg_log s))) - pos) = length (fr_file (sg_log s)) - unat pos"
      using that by (simp add: active_view_def unat_sub word_le_nat_alt)
    then show ?thesis using ok by (simp add: active_view_def seg_holds_def)
  qed
  show "sv_slice_from_to (active_view s) pos len = Inr (unat pos, unat len)"
    by (simp add: active_view_def)
qed

interpretation closed: segment_log crc32c w p closed_view "rs_holds crc32c w p" for crc32c w p
proof
  fix s :: ReadSegment and bs pos len d
  assume ok: "rs_holds crc32c w p s bs"
  show "log_ok crc32c w p (sv_base (closed_view s)) (sv_end (closed_view s)) (sv_file (closed_view s)) bs"
    using ok by (simp add: rs_holds_def closed_view_def)
  show "\<exists>entry. sv_find (closed_view s) d = Inr entry \<and>
      (\<forall>e. entry = Some e \<longrightarrow> fst e \<le> d \<and> e \<in> set (marks crc32c w (sv_base (closed_view s)) 0 bs))"
    if "bs \<noteq> []"
  proof -
    have "set (map entry_to_be (rs_index s)) \<subseteq> set (marks crc32c w (rs_base s) 0 bs)"
      using ok first_mark [OF _ that] unfolding rs_holds_def by blast
    then show ?thesis
      using ok li_find_offset_reference [of "rs_index s" d] index_lookup_SomeD [of "map entry_to_be (rs_index s)" d]
      by (auto simp: rs_holds_def closed_view_def)
  qed
  have len: "length (rs_file s) < 2 ^ 32" using ok by (auto simp: rs_holds_def log_ok_def)
  show "sv_slice (closed_view s) pos = Inr (unat pos, length (sv_file (closed_view s)) - unat pos)"
    if "unat pos \<le> length (sv_file (closed_view s))"
  proof -
    have "unat (word_of_nat (length (rs_file s)) :: u64) = length (rs_file s)"
      "unat (ucast pos :: u64) = unat pos"
      using len by (simp_all add: unat_of_nat)
    then show ?thesis using that by (simp add: closed_view_def unat_sub word_le_nat_alt)
  qed
  show "sv_slice_from_to (closed_view s) pos len = Inr (unat pos, unat len)"
    if "unat pos + unat len \<le> length (sv_file (closed_view s))"
    using that by (simp add: closed_view_def)
qed

section \<open>Appending\<close>

lemma idx_ok_mono: "idx_ok idx n \<Longrightarrow> n \<le> m \<Longrightarrow> idx_ok idx m"
  by (fastforce simp: idx_ok_def)

lemma ok_batch_base [simp]:
  "ok_batch w p (set_base_offset o0 b) = ok_batch w p b" "records_len (set_base_offset o0 b) = records_len b"
  "length (wire_batch crc32c w (set_base_offset o0 b)) = length (wire_batch crc32c w b)"
  "header (set_base_offset o0 b) = header b" "base_offset (set_base_offset o0 b) = o0"
  "records (set_base_offset o0 b) = records b"
  by (simp_all add: ok_batch_def set_base_offset_def records_len_def length_wire_batch wire_schema_def)

context batch_records
begin

lemma size_without_schema:
  assumes "ok_batch w p b" "\<not> has_schema (header b)"
  shows "write_size (enc_batch crc32c R 0) b = Some (length (wire_batch crc32c w b))"
  using assms records_size [of "records b" 0]
  by (simp add: enc_batch_def ok_batch_def length_wire_batch length_wire_schema)

lemma encode_to_vec:
  assumes "ok_batch w p b"
  obtains buffer where "encode (enc_batch crc32c R 0) b vec_sink = EOk buffer" "written buffer = wire_batch crc32c w b"
proof -
  have "length (wire_batch crc32c w b) \<le> room vec_sink"
    using assms by (simp add: length_wire_batch length_wire_schema ok_batch_def vec_sink_def
        BATCH_FILE_HEADER_SIZE_def BATCH_PREAMBLE_SIZE_def BATCH_HEADER_SIZE_def)
  then have "encode (enc_batch crc32c R 0) b vec_sink = EOk (put_slice (wire_batch crc32c w b) vec_sink)"
    using batch_writes [OF assms, of 0 crc32c] by (simp add: writes_def)
  then show thesis using that by (simp add: put_slice_def vec_sink_def)
qed

lemma fr_write_batch_ok:
  assumes b: "ok_batch w p b" "\<not> has_schema (header b)" and base: "sint (fr_base log) \<le> sint (base_offset b)"
    and len: "fr_len log = word_of_nat (length (fr_file log))"
    and room: "length (fr_file log) + length (wire_batch crc32c w b) < 2 ^ 32"
  shows "fr_write_batch crc32c R b log =
     (let n = length (wire_batch crc32c w b)
      in if length (fr_file log) + n \<le> unat (fr_max log) then
           (Inr (True, n, word_of_nat (length (fr_file log) + n)),
            log\<lparr>fr_file := fr_file log @ wire_batch crc32c w b, fr_len := word_of_nat (length (fr_file log) + n),
                fr_write_count := (if fr_write_count log = - 1 then - 1 else fr_write_count log + 1),
                fr_flush_count := fr_flush_count log + 1\<rparr>)
         else (Inr (False, n, fr_len log), log))"
proof -
  let ?n = "length (wire_batch crc32c w b)"
  have "(word_of_nat ?n + fr_len log > fr_max log) \<longleftrightarrow> \<not> length (fr_file log) + ?n \<le> unat (fr_max log)"
  proof -
    have "word_of_nat ?n + fr_len log = word_of_nat (length (fr_file log) + ?n)" by (simp add: len add.commute)
    moreover have "unat (word_of_nat (length (fr_file log) + ?n) :: u32) = length (fr_file log) + ?n"
      using room by (simp add: unat_of_nat del: of_nat_add)
    ultimately show ?thesis by (simp only: word_less_nat_alt not_le)
  qed
  moreover obtain buffer where "encode (enc_batch crc32c R 0) b vec_sink = EOk buffer"
      "written buffer = wire_batch crc32c w b"
    using b(1) by (rule encode_to_vec)
  ultimately show ?thesis
    using base size_without_schema [OF b, of crc32c] len
    by (simp add: fr_write_batch_def fr_flush_def Let_def add.commute)
qed

lemma append_batch_ok:
  assumes seg: "seg_holds crc32c w p seg bs"
    and b: "ok_batch w p b" "\<not> has_schema (header b)" "records_len b > 0"
    and room: "length (fr_file (sg_log seg)) + length (wire_batch crc32c w b) < 2 ^ 32"
    and offsets: "sint (sg_end seg) + int (records_len b) < 2 ^ 63"
      "sint (sg_end seg) + int (records_len b) - sint (sg_base seg) < 2 ^ 32"
  defines "b' \<equiv> set_base_offset (sg_end seg) b"
  shows "if length (fr_file (sg_log seg)) + length (wire_batch crc32c w b) \<le> unat (fr_max (sg_log seg))
         then \<exists>seg'. append_batch crc32c R b seg = (Inr True, b', seg') \<and> seg_holds crc32c w p seg' (bs @ [b']) \<and>
                sg_base seg' = sg_base seg \<and> sint (sg_end seg') = sint (sg_end seg) + int (records_len b) \<and>
                fr_max (sg_log seg') = fr_max (sg_log seg)
         else append_batch crc32c R b seg = (Inr False, b', seg)"
proof -
  let ?log = "sg_log seg" and ?base = "sg_base seg" and ?fin = "sg_end seg"
  let ?n = "length (wire_batch crc32c w b')"
  have log: "log_ok crc32c w p ?base ?fin (fr_file ?log) bs" "fr_len ?log = word_of_nat (length (fr_file ?log))"
      "fr_base ?log = ?base" "idx_ok (sg_index seg) (nat (sint ?fin - sint ?base))"
      "set (entries (sg_index seg)) \<subseteq> set (marks crc32c w ?base 0 bs)"
    using seg by (simp_all add: seg_holds_def)
  have le: "sint ?base \<le> sint ?fin"
    using log(1) chain_end_ge [of "sint ?base" bs] by (simp add: log_ok_def)
  have n: "?n = length (wire_batch crc32c w b)" by (simp add: b'_def)
  have wrote: "fr_write_batch crc32c R b' ?log =
     (if length (fr_file ?log) + ?n \<le> unat (fr_max ?log) then
        (Inr (True, ?n, word_of_nat (length (fr_file ?log) + ?n)),
         ?log\<lparr>fr_file := fr_file ?log @ wire_batch crc32c w b', fr_len := word_of_nat (length (fr_file ?log) + ?n),
              fr_write_count := (if fr_write_count ?log = - 1 then - 1 else fr_write_count ?log + 1),
              fr_flush_count := fr_flush_count ?log + 1\<rparr>)
      else (Inr (False, ?n, fr_len ?log), ?log))"
    using fr_write_batch_ok [of b' ?log crc32c] b le log(2,3) room n by (simp add: b'_def Let_def)
  show ?thesis
  proof (cases "length (fr_file ?log) + ?n \<le> unat (fr_max ?log)")
    case False
    then show ?thesis using wrote b(3) n by (simp add: append_batch_def Let_def b'_def)
  next
    case True
    let ?d = "ucast (?fin - ?base) :: u32"
    have d: "int (unat ?d) = sint ?fin - sint ?base"
      using le log(1) by (intro rel_offset) (simp_all add: log_ok_def)
    then have "nat (sint ?fin - sint ?base) \<le> unat ?d" by linarith
    with log(4) obtain idx' where idx': "write_index ?d (fr_len ?log) (word_of_nat ?n) (sg_index seg) = Inr idx'"
        "idx_ok idx' (unat ?d + 1)"
        "entries idx' = entries (sg_index seg) \<or> entries idx' = entries (sg_index seg) @ [(?d, fr_len ?log)]"
      by (rule write_index_ok)
    let ?seg = "seg\<lparr>sg_log := snd (fr_write_batch crc32c R b' ?log), sg_index := idx', sg_end := get_last_offset b' + 1\<rparr>"
    have last: "sint (get_last_offset b') = sint ?fin + int (records_len b) - 1"
      using last_offset_eq [of b'] b(3) offsets(1) by (simp add: b'_def)
    have new_end: "sint (get_last_offset b' + 1) = sint ?fin + int (records_len b)"
      using sint_plus [of 1 "get_last_offset b'"] last offsets(1) by simp
    have append: "append_batch crc32c R b seg = (Inr True, b', ?seg)"
      using wrote True idx'(1) b(3) by (simp add: append_batch_def Let_def b'_def)
    have "set (entries idx') \<subseteq> set (marks crc32c w ?base 0 (bs @ [b']))"
      using idx'(3) log(1,2,5) by (auto simp: marks_append log_ok_def b'_def)
    moreover have "idx_ok idx' (nat (sint ?fin + int (records_len b) - sint ?base))"
      using idx'(2) by (rule idx_ok_mono) (use d le b(3) in linarith)
    moreover have "log_ok crc32c w p ?base (get_last_offset b' + 1) (fr_file ?log @ wire_batch crc32c w b') (bs @ [b'])"
      using log(1) b(1,3) new_end offsets(2) room n by (simp add: log_ok_def b'_def)
    ultimately have "seg_holds crc32c w p ?seg (bs @ [b'])"
      using wrote True new_end log(3) by (simp add: seg_holds_def)
    then show ?thesis using append True n wrote new_end by auto
  qed
qed

end

section \<open>Validating a log\<close>

lemma chain_same_batch:
  assumes "chain o0 (pre @ b # post)" "pre @ b # post = pre' @ b' # post'" "sint (base_offset b) = sint (base_offset b')"
  shows "pre' = pre"
proof -
  have below: "sint (base_offset c) < sint (base_offset d)"
    if "chain o0 (us @ d # vs)" "c \<in> set us" for us d vs and c :: "'a Batch"
  proof -
    have "records_len c > 0" using that by (auto simp: in_set_conv_decomp)
    then show ?thesis using chain_before [of o0 us c] that by auto
  qed
  from assms(2) consider (same) "pre' = pre" | (long) "b \<in> set pre'" | (short) "b' \<in> set pre"
    by (auto simp: append_eq_append_conv2 append_eq_Cons_conv Cons_eq_append_conv)
  then show ?thesis
  proof cases
    case long
    then show ?thesis using below [of pre' b' post' b] assms by simp
  next
    case short
    then show ?thesis using below [of pre b post b'] assms by simp
  qed
qed

lemma mark_position:
  assumes log: "log_ok crc32c w p base end_offset file_bytes (pre @ b # post)"
    and e: "e \<in> set (marks crc32c w base 0 (pre @ b # post))" "fst e = ucast (base_offset b - base)"
  shows "snd e = word_of_nat (length (log_bytes crc32c w pre))"
proof -
  let ?bs = "pre @ b # post"
  have chain: "chain (sint base) ?bs" and small: "chain_end (sint base) ?bs - sint base < 2 ^ 32"
    using log by (auto simp: log_ok_def)
  obtain pre' b' post' where e': "?bs = pre' @ b' # post'" "fst e = ucast (base_offset b' - base)"
      "snd e = word_of_nat (0 + length (log_bytes crc32c w pre'))"
    using e(1) by (rule marks_split)
  have rel: "int (unat (ucast (base_offset c - base) :: u32)) = sint (base_offset c) - sint base" if "c \<in> set ?bs" for c
    using chain_from [OF chain that] chain_before [OF chain that] small by (intro rel_offset) auto
  have "b' \<in> set ?bs" unfolding e'(1) by simp
  with rel [of b'] rel [of b] have "sint (base_offset b) = sint (base_offset b')" using e(2) e'(2) by simp
  from chain_same_batch [OF chain e'(1) this] show ?thesis using e'(3) by simp
qed

text \<open>The state of the validator after the batches \<open>bs\<close>, the first of them at \<open>pos\<close>.\<close>

fun advance :: "(bytes \<Rightarrow> u32) \<Rightarrow> ('r \<Rightarrow> bytes) \<Rightarrow> nat \<Rightarrow> 'r Batch list \<Rightarrow> LogValidator \<Rightarrow> LogValidator" where
  "advance crc32c w pos [] val = val"
| "advance crc32c w pos (b # bs) val = advance crc32c w (pos + length (wire_batch crc32c w b)) bs
     (val\<lparr>lv_last_offset := get_last_offset b, lv_batch_pos := word_of_nat pos,
          lv_file_pos := word_of_nat (pos + length (wire_batch crc32c w b)), lv_batches := lv_batches val + 1\<rparr>)"

lemma advance_simps:
  "lv_base (advance crc32c w pos bs val) = lv_base val"
  "lv_error (advance crc32c w pos bs val) = lv_error val"
  "lv_index_error (advance crc32c w pos bs val) = lv_index_error val"
  "lv_last_offset (advance crc32c w pos bs val) = (if bs = [] then lv_last_offset val else get_last_offset (last bs))"
  "lv_file_pos (advance crc32c w pos bs val) =
     (if bs = [] then lv_file_pos val else word_of_nat (pos + length (log_bytes crc32c w bs)))"
  by (induction bs arbitrary: pos val) (simp_all add: add.assoc)

lemma validate_stream_step:
  assumes log: "log_ok crc32c w p base end_offset (log_bytes crc32c w (pre @ b # post)) (pre @ b # post)"
    and find: "\<And>d. \<exists>entry. find_offset d = Inr entry \<and>
       (\<forall>e. entry = Some e \<longrightarrow> e \<in> set (marks crc32c w base 0 (pre @ b # post)))"
    and val: "lv_base val = base" "lv_index_error val = None"
  shows "validate_with_stream short (log_bytes crc32c w (pre @ b # post) @ torn) find_offset
           (word_of_nat (length (log_bytes crc32c w pre))) val =
         validate_with_stream short (log_bytes crc32c w (pre @ b # post) @ torn) find_offset
           (word_of_nat (length (log_bytes crc32c w (pre @ [b]))))
           (advance crc32c w (length (log_bytes crc32c w pre)) [b] val)"
proof -
  let ?pos = "word_of_nat (length (log_bytes crc32c w pre)) :: u32"
  let ?val = "advance crc32c w (length (log_bytes crc32c w pre)) [b] val"
  have chain: "chain (sint base) (pre @ b # post)" and ok: "ok_batch w p b"
      and small: "length (log_bytes crc32c w (pre @ b # post)) < 2 ^ 32"
    using log by (auto simp: log_ok_def)
  have read: "read_from short dec_empty
        (log_bytes crc32c w pre @ wire_batch crc32c w b @ log_bytes crc32c w post @ torn) ?pos =
     (Inr (Some (file_header crc32c w b, ?pos)),
      word_of_nat (length (log_bytes crc32c w pre) + length (wire_batch crc32c w b)))"
    using ok small by (intro read_from_wire) (simp_all add: ok_batch_def)
  from find obtain entry where entry: "find_offset (ucast (base_offset b - base)) = Inr entry"
      "\<And>e. entry = Some e \<Longrightarrow> e \<in> set (marks crc32c w base 0 (pre @ b # post))" by blast
  have "snd e = ?pos" if "entry = Some e" "fst e = ucast (base_offset b - base)" for e
    using mark_position [OF log entry(2) [OF that(1)] that(2)] .
  then have "check_index find_offset (base_offset b) ?pos ?val = Inr ?val"
    using entry(1) val by (auto simp: check_index_def Let_def split: option.splits)
  moreover have "sint base \<le> sint (base_offset b)" using chain_from [OF chain, of b] by simp
  ultimately show ?thesis
    by (subst validate_with_stream.simps) (simp add: read val Let_def get_last_offset_def)
qed

lemma validate_stream_log:
  assumes log: "log_ok crc32c w p base end_offset (log_bytes crc32c w bs) bs"
    and find: "\<And>d. \<exists>entry. find_offset d = Inr entry \<and> (\<forall>e. entry = Some e \<longrightarrow> e \<in> set (marks crc32c w base 0 bs))"
    and val: "lv_base val = base" "lv_index_error val = None"
    and "bs = pre @ post"
  shows "validate_with_stream short (log_bytes crc32c w bs @ torn) find_offset
           (word_of_nat (length (log_bytes crc32c w pre))) val =
         validate_with_stream short (log_bytes crc32c w bs @ torn) find_offset
           (word_of_nat (length (log_bytes crc32c w bs)))
           (advance crc32c w (length (log_bytes crc32c w pre)) post val)"
  using val assms(5)
proof (induction post arbitrary: pre val)
  case (Cons b post)
  have "validate_with_stream short (log_bytes crc32c w bs @ torn) find_offset
           (word_of_nat (length (log_bytes crc32c w pre))) val =
        validate_with_stream short (log_bytes crc32c w bs @ torn) find_offset
           (word_of_nat (length (log_bytes crc32c w (pre @ [b]))))
           (advance crc32c w (length (log_bytes crc32c w pre)) [b] val)"
    using validate_stream_step [of crc32c w p base end_offset pre b post find_offset val short torn]
      log find Cons.prems by simp
  then show ?case
    using Cons.IH [of "advance crc32c w (length (log_bytes crc32c w pre)) [b] val" "pre @ [b]"] Cons.prems
    by (simp add: advance_simps)
qed simp

lemma read_from_torn:
  assumes len: "length (w (records b)) < 2 ^ 31 - 49" and n: "0 < n" "n < length (wire_batch crc32c w b)"
    and room: "length pre + length (wire_batch crc32c w b) < 2 ^ 32"
  obtains e pos where "read_from short dec_empty (pre @ take n (wire_batch crc32c w b)) (word_of_nat (length pre)) =
     (Inl (HeaderError e), pos)"
proof -
  let ?front = "be_bytes 8 (base_offset b) @ be_bytes 4 (batch_len (seal_batch crc32c w b)) @
      wire_batch_header (header (seal_batch crc32c w b))"
  let ?content = "wire_schema b @ w (records b)" and ?pos = "word_of_nat (length pre) :: u32"
  let ?file = "pre @ take n (wire_batch crc32c w b)"
  have front: "length ?front = 57" by simp
  have total: "length (wire_batch crc32c w b) = 57 + length ?content"
    unfolding wire_batch_split by simp
  have pos: "unat ?pos = length pre" and pos1: "unat (?pos + 57) = length pre + 57"
    using room total by (simp_all add: unat_of_nat unat_word_ariths)
  have content: "unat (word_of_nat (length ?content) :: u32) = length ?content"
    using room total by (simp add: unat_of_nat del: length_append)
  have size57: "BATCH_FILE_HEADER_SIZE = 57"
    by (simp add: BATCH_FILE_HEADER_SIZE_def BATCH_PREAMBLE_SIZE_def BATCH_HEADER_SIZE_def)
  have read1: "read_bytes short ?file ?pos 57 = (Some (take 57 (take n (wire_batch crc32c w b))), ?pos + 57)"
    unfolding read_bytes_eq pos using n by simp
  show thesis
  proof (cases "n < 57")
    case True
    then show thesis
      using that n read1 by (simp add: read_from_def size57)
  next
    case False
    have split: "take n (wire_batch crc32c w b) = ?front @ take (n - 57) ?content"
      unfolding wire_batch_split take_append front using False by simp
    then have read1: "read_bytes short ?file ?pos 57 = (Some ?front, ?pos + 57)"
      using read1 by simp
    have read2: "read_bytes short ?file (?pos + 57) (word_of_nat (length ?content)) =
        (if n = 57 then (None, ?pos + 57)
         else (Some (take (n - 57) ?content), ?pos + 57 + word_of_nat (length ?content)))"
    proof -
      have "length ?file = length pre + n" using n by simp
      moreover have "(word_of_nat (length ?content) :: u32) \<noteq> 0" using content n False total by auto
      moreover have "take (length ?content) (drop (length pre + 57) ?file) = take (n - 57) ?content"
        unfolding split using n total by simp
      ultimately show ?thesis unfolding read_bytes_eq pos1 content using False by auto
    qed
    have "length ?content = length (wire_schema b) + length (w (records b))" by simp
    then have content_len: "unat (scast (batch_len (file_header crc32c w b)) - word_of_nat BATCH_HEADER_SIZE :: u64) =
        length ?content"
      using content_len_eq [of w b, OF len] by (simp add: file_header_def Let_def)
    have "length (take (n - 57) ?content) < length ?content" using n(2) total False by simp
    then show thesis
      using that read1 read2 front decode_front [of b crc32c w] content_len
      unfolding read_from_def size57 dec_empty_simps
      by (simp add: Let_def del: length_append length_take split: if_splits)
  qed
qed

text \<open>
  What a crash leaves behind the last whole batch of a log: nothing or the
  beginning of one more batch.
\<close>

definition torn_tail :: "(bytes \<Rightarrow> u32) \<Rightarrow> ('r \<Rightarrow> bytes) \<Rightarrow> ('r \<Rightarrow> bool) \<Rightarrow> 'r Batch list \<Rightarrow> bytes \<Rightarrow> bool" where
  "torn_tail crc32c w p bs t =
     (t = [] \<or> (\<exists>b n. ok_batch w p b \<and> 0 < n \<and> n < length (wire_batch crc32c w b) \<and> t = take n (wire_batch crc32c w b) \<and>
        length (log_bytes crc32c w bs) + length (wire_batch crc32c w b) < 2 ^ 32))"

lemma torn_tail_take:
  assumes "ok_batch w p b" "n < length (wire_batch crc32c w b)"
    and "length (log_bytes crc32c w bs) + length (wire_batch crc32c w b) < 2 ^ 32"
  shows "torn_tail crc32c w p bs (take n (wire_batch crc32c w b))"
  using assms by (cases "n = 0") (auto simp: torn_tail_def)

lemma validated_leo:
  assumes chain: "chain (sint base) bs" "sint end_offset = chain_end (sint base) bs" and base: "0 \<le> sint base"
  shows "lv_leo (advance crc32c w 0 bs (new_validator base)) = end_offset"
proof (cases bs rule: rev_cases)
  case Nil
  then show ?thesis using chain(2) by (simp add: lv_leo_def new_validator_def word_eq_iff_signed [symmetric])
next
  case (snoc cs c)
  have end_c: "sint (base_offset c) + int (records_len c) = sint end_offset" "records_len c > 0"
    using chain snoc by auto
  then have "sint (get_last_offset c) = sint end_offset - 1"
    using last_offset_eq [of c] sint_less_power(1) [of end_offset] by simp
  moreover have "sint base \<le> sint (base_offset c)" using chain_from [OF chain(1), of c] snoc by simp
  ultimately have "get_last_offset c \<noteq> - 1" "sint (get_last_offset c + 1) = sint end_offset"
    using base end_c sint_plus [of 1 "get_last_offset c"] sint_less_power(1) [of end_offset] by auto
  then show ?thesis using snoc by (simp add: lv_leo_def advance_simps word_eq_iff_signed [symmetric])
qed

lemma validate_recovers:
  assumes log: "log_ok crc32c w p base end_offset (log_bytes crc32c w bs) bs" and base: "0 \<le> sint base"
    and find: "\<And>d. \<exists>entry. find_offset d = Inr entry \<and> (\<forall>e. entry = Some e \<longrightarrow> e \<in> set (marks crc32c w base 0 bs))"
    and t: "torn_tail crc32c w p bs t"
  obtains val where
    "validate_core short base (log_bytes crc32c w bs @ t) find_offset = Some (Inr val)"
    "lv_leo val = end_offset" "lv_index_error val = None"
    "if t = [] then lv_error val = None
     else (\<exists>e. lv_error val = Some (BatchDecoding e)) \<and> lv_file_pos val = word_of_nat (length (log_bytes crc32c w bs))"
proof -
  let ?pos = "word_of_nat (length (log_bytes crc32c w bs)) :: u32" and ?file = "log_bytes crc32c w bs @ t"
  let ?val = "advance crc32c w 0 bs (new_validator base)"
  have stream: "validate_with_stream short ?file find_offset 0 (new_validator base) =
      validate_with_stream short ?file find_offset ?pos ?val"
    using validate_stream_log [of crc32c w p base end_offset bs find_offset "new_validator base" "[]" bs short t]
      log find by (simp add: new_validator_def)
  have leo: "lv_leo ?val = end_offset" using log base by (intro validated_leo) (auto simp: log_ok_def)
  show thesis
  proof (cases "t = []")
    case True
    have "length ?file \<le> unat ?pos" using True log by (simp add: unat_of_nat log_ok_def)
    then have "validate_with_stream short ?file find_offset ?pos ?val = Some (None, ?val)"
      by (subst validate_with_stream.simps) (simp add: read_from_eof)
    then show thesis
      using that [of ?val] stream True leo by (simp add: validate_core_def advance_simps new_validator_def)
  next
    case False
    then obtain b n where b: "ok_batch w p b" "0 < n" "n < length (wire_batch crc32c w b)" "t = take n (wire_batch crc32c w b)"
        "length (log_bytes crc32c w bs) + length (wire_batch crc32c w b) < 2 ^ 32"
      using t by (auto simp: torn_tail_def)
    obtain e pos' where "read_from short dec_empty ?file ?pos = (Inl (HeaderError e), pos')"
      using b by (auto simp: ok_batch_def elim!: read_from_torn [rotated -1])
    then have "validate_with_stream short ?file find_offset ?pos ?val = Some (Some (HeaderError e), ?val)"
      by (subst validate_with_stream.simps) simp
    then have core: "validate_core short base ?file find_offset = Some (Inr (?val\<lparr>lv_error := Some (BatchDecoding e)\<rparr>))"
      using stream by (simp add: validate_core_def)
    show thesis
    proof (rule that [OF core])
      show "lv_leo (?val\<lparr>lv_error := Some (BatchDecoding e)\<rparr>) = end_offset" using leo by (simp add: lv_leo_def split: if_splits)
    qed (use False in \<open>auto simp: advance_simps new_validator_def\<close>)
  qed
qed

section \<open>Properties of segments\<close>

text \<open>An empty segment and one-record batches, for the examples below.\<close>

definition seg0 :: MutableSegment where
  "seg0 = \<lparr>sg_log = fr_create 10 200 [], sg_index = empty_index, sg_base = 10, sg_end = 10\<rparr>"

definition one_record :: "RawRecords Batch" where
  "one_record = set_offset_delta 0 (default_batch [1, 2, 3, 4])"

lemma seg0_holds: "seg_holds (\<lambda>_. 0) (\<lambda>v. v) (\<lambda>_. True) seg0 []"
  by (simp add: seg_holds_def seg0_def log_ok_def fr_create_def empty_index_ok)
    (simp add: empty_index_def entries_def)

lemma one_record_simps:
  "ok_batch (\<lambda>v. v) (\<lambda>_. True) one_record" "\<not> has_schema (header one_record)" "records_len one_record = 1"
  "length (wire_batch crc32c (\<lambda>v. v) one_record) = 61"
  by (simp_all add: one_record_def ok_batch_def has_schema_def records_len_def set_offset_delta_def default_batch_def
      default_batch_header_def length_wire_batch length_wire_schema BATCH_FILE_HEADER_SIZE_def
      BATCH_PREAMBLE_SIZE_def BATCH_HEADER_SIZE_def)

text \<open>
  C12. Appending extends the log by exactly one batch: the batch gets the end
  offset of the segment as its base offset, its encoding is added to the file,
  the index stays consistent with the file and the end offset moves by the
  number of records. When the file would exceed its maximal size nothing
  changes and the result is \<open>false\<close>.
\<close>

theorem append_batch_extends_log:
  fixes b :: "RawRecords Batch"
  assumes "seg_holds crc32c (\<lambda>v. v) (\<lambda>_. True) seg bs"
    and "ok_batch (\<lambda>v. v) (\<lambda>_. True) b" "\<not> has_schema (header b)" "records_len b > 0"
    and "length (fr_file (sg_log seg)) + length (wire_batch crc32c (\<lambda>v. v) b) < 2 ^ 32"
    and "sint (sg_end seg) + int (records_len b) < 2 ^ 63"
      "sint (sg_end seg) + int (records_len b) - sint (sg_base seg) < 2 ^ 32"
  shows "if length (fr_file (sg_log seg)) + length (wire_batch crc32c (\<lambda>v. v) b) \<le> unat (fr_max (sg_log seg))
         then \<exists>seg'. append_batch crc32c enc_raw b seg = (Inr True, set_base_offset (sg_end seg) b, seg') \<and>
                seg_holds crc32c (\<lambda>v. v) (\<lambda>_. True) seg' (bs @ [set_base_offset (sg_end seg) b]) \<and>
                sg_base seg' = sg_base seg \<and> sint (sg_end seg') = sint (sg_end seg) + int (records_len b) \<and>
                fr_max (sg_log seg') = fr_max (sg_log seg)
         else append_batch crc32c enc_raw b seg = (Inr False, set_base_offset (sg_end seg) b, seg)"
  using raw.append_batch_ok [OF assms] .

theorem append_batch_extends_log_witness:
  "\<exists>seg'. append_batch (\<lambda>_. 0) enc_raw one_record seg0 = (Inr True, set_base_offset 10 one_record, seg') \<and>
     seg_holds (\<lambda>_. 0) (\<lambda>v. v) (\<lambda>_. True) seg' [set_base_offset 10 one_record] \<and> sint (sg_end seg') = 11"
  using append_batch_extends_log [OF seg0_holds, of one_record]
  by (auto simp: one_record_simps seg0_def fr_create_def)

text \<open>
  C16. A slice of a segment holds exactly the requested batches: it starts with
  the batch that contains the start offset, found through the index and a
  scan, and ends with the last batch all of whose records are below the
  maximal offset. This holds for the active segment and for closed ones,
  however the operating system splits the reads.
\<close>

theorem records_slice_exact:
  fixes bs :: "RawRecords Batch list"
  assumes "v = active_view seg \<and> seg_holds crc32c (\<lambda>v. v) (\<lambda>_. True) seg bs \<or>
           v = closed_view rs \<and> rs_holds crc32c (\<lambda>v. v) (\<lambda>_. True) rs bs"
    and "sint (sv_base v) \<le> sint start" "sint start < sint (sv_end v)" "sint start \<le> read_limit v max_offset"
  shows "\<exists>pos len. records_slice short v start max_offset = Some (Inr (Some (pos, len))) \<and>
           take len (drop pos (sv_file v)) =
             log_bytes crc32c (\<lambda>v. v) (batches_between bs (sint start) (read_limit v max_offset))"
  using assms(1)
proof
  assume v: "v = active_view seg \<and> seg_holds crc32c (\<lambda>v. v) (\<lambda>_. True) seg bs"
  with active.slice_exact [of crc32c "\<lambda>v. v" "\<lambda>_. True" seg bs start max_offset short]
    active.log_law [of crc32c "\<lambda>v. v" "\<lambda>_. True" seg bs] assms(2-4)
  show ?thesis by (auto simp: log_ok_def slice_content)
next
  assume v: "v = closed_view rs \<and> rs_holds crc32c (\<lambda>v. v) (\<lambda>_. True) rs bs"
  with closed.slice_exact [of crc32c "\<lambda>v. v" "\<lambda>_. True" rs bs start max_offset short]
    closed.log_law [of crc32c "\<lambda>v. v" "\<lambda>_. True" rs bs] assms(2-4)
  show ?thesis by (auto simp: log_ok_def slice_content)
qed

lemma seg1_exists:
  obtains seg1 where "append_batch (\<lambda>_. 0) enc_raw one_record seg0 = (Inr True, set_base_offset 10 one_record, seg1)"
    "seg_holds (\<lambda>_. 0) (\<lambda>v. v) (\<lambda>_. True) seg1 [set_base_offset 10 one_record]" "sg_base seg1 = 10" "sint (sg_end seg1) = 11"
  using raw.append_batch_ok [OF seg0_holds, of one_record]
  by (auto simp: one_record_simps seg0_def fr_create_def)

theorem records_slice_exact_witness:
  "\<exists>seg pos len. records_slice (\<lambda>_. 1) (active_view seg) 10 None = Some (Inr (Some (pos, len))) \<and>
     take len (drop pos (sv_file (active_view seg))) = wire_batch (\<lambda>_. 0) (\<lambda>v. v) (set_base_offset 10 one_record)"
proof -
  obtain seg1 where seg1: "seg_holds (\<lambda>_. 0) (\<lambda>v. v) (\<lambda>_. True) seg1 [set_base_offset 10 one_record]"
      "sg_base seg1 = 10" "sint (sg_end seg1) = 11"
    by (rule seg1_exists)
  have "batches_between [set_base_offset 10 one_record] 10 11 = [set_base_offset 10 one_record]"
    by (simp add: batches_between_def batch_end_def one_record_simps)
  then show ?thesis
    using records_slice_exact [of "active_view seg1" seg1 "\<lambda>_. 0" "[set_base_offset 10 one_record]" undefined 10 None "\<lambda>_. 1"]
      seg1 by (auto simp: read_limit_def)
qed

lemma reopen_index:
  assumes idx: "idx_ok idx n" "\<forall>e \<in> set (entries idx). snd e \<noteq> 0" and "max_bytes \<noteq> 0"
    and k: "unat (mi_first_empty idx) + Suc k < 2 ^ 32"
  obtains idx' where "mi_open max_bytes interval (mi_shrink idx @ replicate (Suc k) (0, 0)) = Inr idx'"
    "entries idx' = entries idx" "idx_ok idx' n"
proof -
  let ?slots = "mi_shrink idx @ replicate (Suc k) (0, 0)"
  let ?idx = "\<lparr>mi_slots = ?slots, mi_accumulated = 0, mi_last_delta = 0,
           mi_first_empty = mi_first_empty idx, mi_interval = interval\<rparr>"
  have len: "length (mi_shrink idx) = unat (mi_first_empty idx)"
    using idx(1) by (simp add: idx_ok_def mi_shrink_def)
  show thesis
  proof (rule that)
    show "mi_open max_bytes interval ?slots = Inr ?idx"
      using assms(3) find_first_empty_skip [OF positions_shrink [OF idx(2)], of 0 "replicate k (0, 0)"] len
      by (simp add: mi_open_def find_first_empty_index_def)
    show "entries ?idx = entries idx" using len entries_shrink [of idx] by (simp add: entries_def)
    then show "idx_ok ?idx n"
      using idx(1) len k by (auto simp: idx_ok_def mi_shrink_def)
  qed
qed

lemma set_len_exact:
  assumes "length (fr_file log) < 2 ^ 32" "k \<le> length (fr_file log)"
  shows "fr_set_len (word_of_nat k) log = log\<lparr>fr_file := take k (fr_file log), fr_len := word_of_nat k\<rparr>"
  using assms by (simp add: fr_set_len_def unat_of_nat)

lemma reopen_segment:
  assumes seg: "seg_holds crc32c w p seg bs" and base: "0 \<le> sint (sg_base seg)"
    and idx: "\<forall>e \<in> set (entries (sg_index seg)). snd e \<noteq> 0" "index_max_bytes cfg \<noteq> 0"
      "unat (mi_first_empty (sg_index seg)) + Suc k < 2 ^ 32"
    and t: "torn_tail crc32c w p bs t"
  obtains seg1 seg2 where "open_for_write cfg (fr_file (sg_log seg) @ t)
        (mi_shrink (sg_index seg) @ replicate (Suc k) (0, 0)) (sg_base seg) = Inr seg1"
    "validate_and_repair short mmap cfg seg1 = Some (Inr (sg_end seg, seg2))"
    "seg_holds crc32c w p seg2 bs" "sg_base seg2 = sg_base seg" "sg_end seg2 = sg_end seg"
    "fr_max (sg_log seg2) = segment_max_bytes cfg"
proof -
  let ?base = "sg_base seg" and ?max = "segment_max_bytes cfg" and ?file = "log_bytes crc32c w bs"
  have log: "log_ok crc32c w p ?base (sg_end seg) ?file bs" "fr_file (sg_log seg) = ?file"
    using seg by (auto simp: seg_holds_def log_ok_def)
  have sidx: "idx_ok (sg_index seg) (nat (sint (sg_end seg) - sint ?base))"
      "set (entries (sg_index seg)) \<subseteq> set (marks crc32c w ?base 0 bs)"
    using seg by (simp_all add: seg_holds_def)
  from sidx(1) idx obtain idx' where idx': "mi_open (index_max_bytes cfg) (index_max_interval_bytes cfg)
      (mi_shrink (sg_index seg) @ replicate (Suc k) (0, 0)) = Inr idx'" "entries idx' = entries (sg_index seg)"
      "idx_ok idx' (nat (sint (sg_end seg) - sint ?base))"
    by (rule reopen_index)
  let ?seg1 = "\<lparr>sg_log = fr_create ?base ?max (?file @ t), sg_index = idx', sg_base = ?base, sg_end = ?base\<rparr>"
  have find: "\<exists>entry. mi_find_offset idx' d = Inr entry \<and> (\<forall>e. entry = Some e \<longrightarrow> e \<in> set (marks crc32c w ?base 0 bs))" for d
    using mi_find_offset_reference [OF idx'(3), of d] index_lookup_SomeD(1) [of "entries idx'" d] sidx(2) idx'(2) by auto
  obtain val where val: "validate_core short ?base (?file @ t) (mi_find_offset idx') = Some (Inr val)"
    "lv_leo val = sg_end seg" "lv_index_error val = None"
    "if t = [] then lv_error val = None
     else (\<exists>e. lv_error val = Some (BatchDecoding e)) \<and> lv_file_pos val = word_of_nat (length ?file)"
    by (rule validate_recovers [OF log(1) base find t])
  let ?log2 = "(fr_create ?base ?max (?file @ t))\<lparr>fr_file := ?file, fr_len := word_of_nat (length ?file)\<rparr>"
  let ?seg2 = "?seg1\<lparr>sg_log := ?log2, sg_end := sg_end seg\<rparr>"
  have "recover_log val (fr_create ?base ?max (?file @ t)) = Inr ?log2"
  proof (cases "t = []")
    case False
    then have "lv_file_pos val = word_of_nat (length ?file)" "\<exists>e. lv_error val = Some (BatchDecoding e)"
      using val(4) by auto
    moreover have "length (?file @ t) < 2 ^ 32" using t log(1) by (auto simp: torn_tail_def log_ok_def)
    ultimately show ?thesis by (auto simp: recover_log_def set_len_exact fr_create_def)
  qed (use val(4) in \<open>simp add: recover_log_def fr_create_def\<close>)
  then have valid: "validate_and_repair short mmap cfg ?seg1 = Some (Inr (sg_end seg, ?seg2))"
    using val(1-3) by (simp add: validate_and_repair_def fr_create_def)
  have opened: "open_for_write cfg (fr_file (sg_log seg) @ t) (mi_shrink (sg_index seg) @ replicate (Suc k) (0, 0)) ?base = Inr ?seg1"
    using idx'(1) by (simp add: open_for_write_def fr_create_def log(2))
  have "seg_holds crc32c w p ?seg2 bs"
    using log(1) idx'(2,3) sidx(2) by (simp add: seg_holds_def fr_create_def)
  then show thesis by (rule that [OF opened valid]) (simp_all add: fr_create_def)
qed

text \<open>
  C13. Opening the active segment after a restart recovers it, also when a
  crash cut the last batch short: with the file holding the batches and the
  first \<open>n\<close> bytes of another one, validation truncates the file behind the last
  whole batch and finds the old end offset; the index entries are kept.
\<close>

theorem segment_reopen_recovers:
  fixes b :: "RawRecords Batch"
  assumes seg: "seg_holds crc32c (\<lambda>v. v) (\<lambda>_. True) seg bs" and base: "0 \<le> sint (sg_base seg)"
    and idx: "\<forall>e \<in> set (entries (sg_index seg)). snd e \<noteq> 0" "index_max_bytes cfg \<noteq> 0"
      "unat (mi_first_empty (sg_index seg)) + Suc k < 2 ^ 32"
    and torn: "ok_batch (\<lambda>v. v) (\<lambda>_. True) b" "n < length (wire_batch crc32c (\<lambda>v. v) b)"
      "length (fr_file (sg_log seg)) + length (wire_batch crc32c (\<lambda>v. v) b) < 2 ^ 32"
  shows "\<exists>seg1 seg2. open_for_write cfg (fr_file (sg_log seg) @ take n (wire_batch crc32c (\<lambda>v. v) b))
             (mi_shrink (sg_index seg) @ replicate (Suc k) (0, 0)) (sg_base seg) = Inr seg1 \<and>
           validate_and_repair short mmap cfg seg1 = Some (Inr (sg_end seg, seg2)) \<and>
           seg_holds crc32c (\<lambda>v. v) (\<lambda>_. True) seg2 bs \<and> sg_base seg2 = sg_base seg \<and> sg_end seg2 = sg_end seg"
proof -
  have "fr_file (sg_log seg) = log_bytes crc32c (\<lambda>v. v) bs" using seg by (simp add: seg_holds_def log_ok_def)
  then have "torn_tail crc32c (\<lambda>v. v) (\<lambda>_. True) bs (take n (wire_batch crc32c (\<lambda>v. v) b))"
    using torn by (intro torn_tail_take) simp_all
  from reopen_segment [OF seg base idx this, of short mmap] show ?thesis by metis
qed

theorem segment_reopen_recovers_witness:
  "\<exists>seg1 seg2. open_for_write \<lparr>segment_max_bytes = 200, index_max_bytes = 32, index_max_interval_bytes = 1\<rparr>
       (take 30 (wire_batch (\<lambda>_. 0) (\<lambda>v. v) one_record)) (replicate 4 (0, 0)) 10 = Inr seg1 \<and>
     validate_and_repair (\<lambda>_. 7) id \<lparr>segment_max_bytes = 200, index_max_bytes = 32, index_max_interval_bytes = 1\<rparr> seg1
       = Some (Inr (10, seg2)) \<and>
     seg_holds (\<lambda>_. 0) (\<lambda>v. v) (\<lambda>_. True) seg2 []"
proof -
  have idx: "sg_index seg0 = empty_index" "entries empty_index = []" "mi_shrink empty_index = []"
      "mi_first_empty empty_index = 0"
    by (simp_all add: seg0_def empty_index_def entries_def mi_shrink_def)
  have "replicate 4 (0, 0) = replicate (Suc 3) (0 :: u32, 0 :: u32)" by simp
  then show ?thesis
    using segment_reopen_recovers [OF seg0_holds, of "\<lparr>segment_max_bytes = 200, index_max_bytes = 32, index_max_interval_bytes = 1\<rparr>"
        3 one_record 30 "\<lambda>_. 7" id] idx
    by (auto simp: one_record_simps seg0_def fr_create_def simp del: replicate.simps replicate_Suc)
qed

text \<open>
  A batch that carries a schema id can never be stored: the announced
  size leaves the four bytes of the id out, so the assertion that compares it
  with the encoded length fails and the append panics instead of returning an
  error. Only a log without room for the announced size escapes.
\<close>

theorem schema_batch_append_panics:
  fixes b :: "RawRecords Batch"
  assumes "ok_batch (\<lambda>v. v) (\<lambda>_. True) b" "has_schema (header b)" "records_len b > 0"
    and "sint (fr_base (sg_log seg)) \<le> sint (sg_end seg)"
    and "word_of_nat (BATCH_FILE_HEADER_SIZE + length (records b)) + fr_len (sg_log seg) \<le> fr_max (sg_log seg)"
  shows "append_batch crc32c enc_raw b seg =
    (Inl (StorageFault Panic), set_base_offset (sg_end seg) b, seg)"
proof -
  let ?b = "set_base_offset (sg_end seg) b"
  have sz: "write_size (enc_batch crc32c enc_raw 0) ?b = Some (BATCH_FILE_HEADER_SIZE + length (records b))"
    by (simp add: enc_batch_def enc_raw_def)
  obtain buffer where "encode (enc_batch crc32c enc_raw 0) ?b vec_sink = EOk buffer"
      "written buffer = wire_batch crc32c (\<lambda>v. v) ?b"
    using assms(1) raw.encode_to_vec [of ?b crc32c] by auto
  then have "fr_write_batch crc32c enc_raw ?b (sg_log seg) = (Inl (StorageFault Panic), sg_log seg)"
    using assms(2,4,5) sz
    by (simp add: fr_write_batch_def not_less length_wire_batch length_wire_schema del: of_nat_add)
  then show ?thesis using assms(3) by (simp add: append_batch_def Let_def)
qed

theorem schema_batch_append_panics_witness:
  "\<exists>b :: RawRecords Batch. append_batch (\<lambda>_. 0) enc_raw b seg0 = (Inl (StorageFault Panic), set_base_offset 10 b, seg0)"
proof
  let ?b = "set_schema_id 42 one_record"
  show "append_batch (\<lambda>_. 0) enc_raw ?b seg0 = (Inl (StorageFault Panic), set_base_offset 10 ?b, seg0)"
    using schema_batch_append_panics [of ?b seg0 "\<lambda>_. 0"]
    by (simp add: one_record_def ok_batch_def set_schema_id_def header_set_schema_id_def has_schema_def
        ATTR_SCHEMA_PRESENT_def records_len_def set_offset_delta_def default_batch_def default_batch_header_def
        seg0_def fr_create_def BATCH_FILE_HEADER_SIZE_def BATCH_PREAMBLE_SIZE_def BATCH_HEADER_SIZE_def)
qed

end
