(* ===== verification/Replica_Log.thy ===== *)
theory Replica_Log
  imports Log_Segment
begin

text \<open>
  A replica's log: the list of closed segments (\<open>fluvio-storage/src/segments.rs\<close>),
  the replica with its active segment and high watermark (\<open>replica.rs\<close>,
  \<open>checkpoint.rs\<close>) and the cleaner (\<open>cleaner.rs\<close>). Offsets are 64-bit words;
  the ordered map of segments is keyed by their signed value. A directory is
  the list of its segment files, a log and an index each.
\<close>

section \<open>The closed segments\<close>

record SegmentList =
  sl_segments :: "(int \<times> ReadSegment) list"
  sl_min :: i64
  sl_max :: i64

definition sl_new :: SegmentList where
  "sl_new = \<lparr>sl_segments = [], sl_min = - 1, sl_max = 0\<rparr>"

definition sl_occupied :: "SegmentList \<Rightarrow> nat" where
  "sl_occupied sl = sum_list (map (rs_occupied \<circ> snd) (sl_segments sl))"

definition min_max_step :: "i64 \<times> i64 \<Rightarrow> int \<times> ReadSegment \<Rightarrow> i64 \<times> i64" where
  "min_max_step acc e =
     (let (max_offset, min_offset) = acc; segment = snd e
      in (if sint (rs_end segment) > sint max_offset then rs_end segment else max_offset,
          if sint min_offset < 0 \<or> sint (rs_base segment) < sint min_offset then rs_base segment else min_offset))"

definition update_min_max :: "SegmentList \<Rightarrow> SegmentList" where
  "update_min_max sl =
     (let (max_offset, min_offset) = foldl min_max_step (0, - 1) (sl_segments sl)
      in sl\<lparr>sl_max := max_offset, sl_min := min_offset\<rparr>)"

definition sl_add_segment :: "ReadSegment \<Rightarrow> SegmentList \<Rightarrow> i64 \<times> SegmentList" where
  "sl_add_segment segment sl =
     (let sl' = update_min_max (sl\<lparr>sl_segments := bt_insert (sint (rs_base segment)) segment (sl_segments sl)\<rparr>)
      in (sl_min sl', sl'))"

definition drain_all :: "SegmentList \<Rightarrow> ReadSegment list \<times> SegmentList" where
  "drain_all sl = (map snd (sl_segments sl), \<lparr>sl_segments = [], sl_min = - 1, sl_max = 0\<rparr>)"

definition sl_remove_segment :: "i64 \<Rightarrow> SegmentList \<Rightarrow> (ReadSegment \<times> i64) option \<times> SegmentList" where
  "sl_remove_segment offset sl =
     (case map_of (sl_segments sl) (sint offset) of
        None \<Rightarrow> (None, sl)
      | Some segment \<Rightarrow>
          (let sl' = update_min_max (sl\<lparr>sl_segments := bt_remove (sint offset) (sl_segments sl)\<rparr>)
           in (Some (segment, sl_min sl'), sl')))"

text \<open>\<open>BTreeMap::range(lo..=hi).next_back()\<close>, which panics when the range is empty backwards.\<close>

definition range_last :: "int \<Rightarrow> int \<Rightarrow> (int \<times> 'v) list \<Rightarrow> fault + (int \<times> 'v) option" where
  "range_last lo hi m =
     (if lo > hi then Inl Panic
      else (let inside = filter (\<lambda>e. lo \<le> fst e \<and> fst e \<le> hi) m
            in Inr (if inside = [] then None else Some (last inside))))"

definition find_segment :: "i64 \<Rightarrow> SegmentList \<Rightarrow> fault + (int \<times> ReadSegment) option" where
  "find_segment offset sl =
     (if sint offset < sint (sl_min sl) then Inr None
      else if offset = sl_min sl then range_last (sint offset) (sint offset) (sl_segments sl)
      else if sint offset \<ge> sint (sl_max sl) then Inr None
      else range_last (sint (offset - sl_max sl + sl_min sl + 1)) (sint offset) (sl_segments sl))"

text \<open>\<open>expired\<close>: whether the last modification of a segment's log file is longer ago than the retention time.\<close>

definition find_expired_segments :: "(ReadSegment \<Rightarrow> bool) \<Rightarrow> SegmentList \<Rightarrow> int list" where
  "find_expired_segments expired sl = map fst (filter (\<lambda>e. expired (snd e)) (sl_segments sl))"

definition find_first :: "nat \<Rightarrow> SegmentList \<Rightarrow> int list" where
  "find_first count sl = take count (map fst (sl_segments sl))"

record SharedSegments =
  ss_list :: SegmentList
  ss_min :: i64

definition shared_from :: "SegmentList \<Rightarrow> SharedSegments" where
  "shared_from sl = \<lparr>ss_list = sl, ss_min = sl_min sl\<rparr>"

definition ss_add_segment :: "ReadSegment \<Rightarrow> SharedSegments \<Rightarrow> SharedSegments" where
  "ss_add_segment segment ss =
     (case sl_add_segment segment (ss_list ss) of (min_offset, sl) \<Rightarrow> \<lparr>ss_list = sl, ss_min = min_offset\<rparr>)"

definition ss_remove_segment :: "i64 \<Rightarrow> SharedSegments \<Rightarrow> SharedSegments" where
  "ss_remove_segment base ss =
     (case sl_remove_segment base (ss_list ss) of
        (None, sl) \<Rightarrow> ss\<lparr>ss_list := sl\<rparr>
      | (Some (_, min_offset), sl) \<Rightarrow> \<lparr>ss_list = sl, ss_min = min_offset\<rparr>)"

definition ss_remove_segments :: "int list \<Rightarrow> SharedSegments \<Rightarrow> SharedSegments" where
  "ss_remove_segments base_offsets ss = fold (\<lambda>o0. ss_remove_segment (word_of_int o0)) base_offsets ss"

definition remove_all_segments :: "SharedSegments \<Rightarrow> nat \<times> SharedSegments" where
  "remove_all_segments ss =
     (case drain_all (ss_list ss) of (segments, sl) \<Rightarrow> (length segments, \<lparr>ss_list = sl, ss_min = - 1\<rparr>))"

text \<open>A slice of a log file: the segment it belongs to, position and length.\<close>

type_synonym log_slice = "int \<times> file_slice"

definition find_slice ::
  "(nat \<Rightarrow> nat) \<Rightarrow> i64 \<Rightarrow> i64 option \<Rightarrow> SharedSegments \<Rightarrow> (ErrorCode + log_slice option) option" where
  "find_slice short start_offset max_offset ss =
     (case find_segment start_offset (ss_list ss) of
        Inl _ \<Rightarrow> Some (Inl ErrPanic)
      | Inr None \<Rightarrow> Some (Inr None)
      | Inr (Some (k, segment)) \<Rightarrow>
          (case records_slice short (closed_view segment) start_offset max_offset of
             None \<Rightarrow> None
           | Some (Inl e) \<Rightarrow> Some (Inl e)
           | Some (Inr None) \<Rightarrow> Some (Inl ErrOther)
           | Some (Inr (Some s)) \<Rightarrow> Some (Inr (Some (k, s)))))"

section \<open>The replica\<close>

record FileReplica =
  rp_cfg :: SegmentConfig
  rp_active :: MutableSegment
  rp_prev :: SharedSegments
  rp_hw :: i64
  rp_size_active :: u64
  rp_size_prev :: u64
  rp_short_circuit :: bool
  rp_max_request :: nat
  rp_max_segment :: nat
  rp_left :: "(int \<times> bytes \<times> Entry list) list"

text \<open>
  \<open>rp_left\<close> are the files in the directory of the replica that no segment of it
  uses. Together with the files of the segments they are the directory.
\<close>

definition dir_with :: "Entry list \<Rightarrow> FileReplica \<Rightarrow> (int \<times> bytes \<times> Entry list) list" where
  "dir_with active_index rep =
     map (\<lambda>(k, s). (k, rs_file s, rs_index s)) (sl_segments (ss_list (rp_prev rep))) @
     (sint (sg_base (rp_active rep)), fr_file (sg_log (rp_active rep)), active_index) # rp_left rep"

definition dir_files :: "FileReplica \<Rightarrow> (int \<times> bytes \<times> Entry list) list" where
  "dir_files rep = dir_with (mi_slots (sg_index (rp_active rep))) rep"

definition existing :: "int \<Rightarrow> (int \<times> bytes \<times> Entry list) list \<Rightarrow> bytes \<times> Entry list" where
  "existing base files = (case map_of files base of None \<Rightarrow> ([], []) | Some f \<Rightarrow> f)"

text \<open>
  What the memory mappings of the index files show, from what the files hold:
  \<open>mm_create\<close> for \<open>MemoryMappedMutFile::create\<close>, which extends the file to the
  configured size, and \<open>mm_open\<close> for \<open>MemoryMappedFile::open\<close>.
\<close>

record mapping =
  mm_create :: "Entry list \<Rightarrow> Entry list"
  mm_open :: "Entry list \<Rightarrow> Entry list"

definition get_leo :: "FileReplica \<Rightarrow> i64" where
  "get_leo rep = sg_end (rp_active rep)"

definition get_log_start_offset :: "FileReplica \<Rightarrow> i64" where
  "get_log_start_offset rep =
     (let min_base_offset = ss_min (rp_prev rep)
      in if sint min_base_offset < 0 then sg_base (rp_active rep) else min_base_offset)"

definition get_partition_size :: "FileReplica \<Rightarrow> u64" where
  "get_partition_size rep = rp_size_prev rep + rp_size_active rep"

definition update_high_watermark :: "i64 \<Rightarrow> FileReplica \<Rightarrow> bool \<times> FileReplica" where
  "update_high_watermark offset rep =
     (if rp_hw rep = offset then (False, rep) else (True, rep\<lparr>rp_hw := offset\<rparr>))"

definition update_high_watermark_to_end :: "FileReplica \<Rightarrow> bool \<times> FileReplica" where
  "update_high_watermark_to_end rep = update_high_watermark (get_leo rep) rep"

definition roll_over :: "mapping \<Rightarrow> FileReplica \<Rightarrow> (storage_error + unit) \<times> FileReplica" where
  "roll_over mm rep =
     (let active = rp_active rep; last_offset = sg_end active;
          (content, index_file) = existing (sint last_offset) (dir_with (mi_shrink (sg_index active)) rep)
      in case segment_create (rp_cfg rep) content (mm_create mm index_file) last_offset of
           Inl e \<Rightarrow> (Inl e, rep)
         | Inr new_segment \<Rightarrow>
             (let old_segment = as_segment (mm_open mm) active
              in (Inr (), rep\<lparr>rp_active := new_segment,
                              rp_size_prev := rp_size_prev rep + word_of_nat (rs_occupied old_segment),
                              rp_prev := ss_add_segment old_segment (rp_prev rep),
                              rp_left := filter (\<lambda>f. fst f \<noteq> sint last_offset) (rp_left rep)\<rparr>)))"

text \<open>\<open>write_batch\<close>, with the batch as its caller sees it afterwards.\<close>

definition rp_write_batch ::
  "(bytes \<Rightarrow> u32) \<Rightarrow> (i16 \<Rightarrow> 'r encoder) \<Rightarrow> mapping \<Rightarrow> 'r Batch \<Rightarrow> FileReplica
    \<Rightarrow> (storage_error + unit) \<times> 'r Batch \<times> FileReplica" where
  "rp_write_batch crc32c R mm item rep =
     (if rp_short_circuit rep then (Inl ShortCircuited, item, rep)
      else (let stored = (\<lambda>item rep. (Inr (), item, rep\<lparr>rp_size_active := word_of_nat (seg_occupied (rp_active rep))\<rparr>));
                failed = (\<lambda>e item rep. (Inl e, item, rep\<lparr>rp_short_circuit := True\<rparr>))
            in case append_batch crc32c R item (rp_active rep) of
                 (Inl e, item, active) \<Rightarrow> failed e item (rep\<lparr>rp_active := active\<rparr>)
               | (Inr True, item, active) \<Rightarrow> stored item (rep\<lparr>rp_active := active\<rparr>)
               | (Inr False, item, active) \<Rightarrow>
                   (case roll_over mm (rep\<lparr>rp_active := active\<rparr>) of
                      (Inl e, rep) \<Rightarrow> failed e item rep
                    | (Inr _, rep) \<Rightarrow>
                        (case append_batch crc32c R item (rp_active rep) of
                           (Inl e, item, active) \<Rightarrow> failed e item (rep\<lparr>rp_active := active\<rparr>)
                         | (Inr True, item, active) \<Rightarrow> stored item (rep\<lparr>rp_active := active\<rparr>)
                         | (Inr False, item, active) \<Rightarrow> failed StorageOther item (rep\<lparr>rp_active := active\<rparr>)))))"

text \<open>The check of the batch sizes before anything is written: the total, or the first error.\<close>

fun check_sizes ::
  "(bytes \<Rightarrow> u32) \<Rightarrow> (i16 \<Rightarrow> 'r encoder) \<Rightarrow> FileReplica \<Rightarrow> nat \<Rightarrow> 'r Batch list \<Rightarrow> storage_error + nat" where
  "check_sizes crc32c R rep total_size [] = Inr total_size"
| "check_sizes crc32c R rep total_size (batch # rest) =
     (case write_size (enc_batch crc32c R 0) batch of
        None \<Rightarrow> Inl (StorageFault Diverge)
      | Some batch_size \<Rightarrow>
          if batch_size > rp_max_segment rep then Inl (BatchExceededSegment batch_size (rp_max_segment rep))
          else if batch_size > rp_max_request rep then Inl (BatchTooBig (rp_max_request rep))
          else check_sizes crc32c R rep (total_size + batch_size) rest)"

fun write_batches ::
  "(bytes \<Rightarrow> u32) \<Rightarrow> (i16 \<Rightarrow> 'r encoder) \<Rightarrow> mapping \<Rightarrow> 'r Batch list \<Rightarrow> FileReplica
    \<Rightarrow> (storage_error + unit) \<times> 'r Batch list \<times> FileReplica" where
  "write_batches crc32c R mm [] rep = (Inr (), [], rep)"
| "write_batches crc32c R mm (batch # rest) rep =
     (case rp_write_batch crc32c R mm batch rep of
        (Inl e, batch, rep) \<Rightarrow> (Inl e, batch # rest, rep)
      | (Inr _, batch, rep) \<Rightarrow>
          (case write_batches crc32c R mm rest rep of
             (r, rest, rep) \<Rightarrow> (r, batch # rest, rep)))"

definition write_recordset ::
  "(bytes \<Rightarrow> u32) \<Rightarrow> (i16 \<Rightarrow> 'r encoder) \<Rightarrow> mapping \<Rightarrow> 'r RecordSet \<Rightarrow> bool \<Rightarrow> FileReplica
    \<Rightarrow> (storage_error + nat) \<times> 'r RecordSet \<times> FileReplica" where
  "write_recordset crc32c R mm rs update_highwatermark rep =
     (case check_sizes crc32c R rep 0 (batches rs) of
        Inl e \<Rightarrow> (Inl e, rs, rep)
      | Inr total_size \<Rightarrow>
          (case write_batches crc32c R mm (batches rs) rep of
             (Inl e, bs, rep) \<Rightarrow> (Inl e, rs\<lparr>batches := bs\<rparr>, rep)
           | (Inr _, bs, rep) \<Rightarrow>
               (Inr total_size, rs\<lparr>batches := bs\<rparr>,
                if update_highwatermark then snd (update_high_watermark_to_end rep) else rep)))"

text \<open>
  \<open>clear_data\<close>: the closed segments and their files go. The old active segment
  is replaced; its files stay where they are, unless the new one has their name.
\<close>

definition clear_data :: "mapping \<Rightarrow> bool \<Rightarrow> FileReplica \<Rightarrow> (storage_error + i64) \<times> FileReplica" where
  "clear_data mm reset_hw rep =
     (let rep = rep\<lparr>rp_prev := snd (remove_all_segments (rp_prev rep))\<rparr>;
          current_leo = get_leo rep; active = rp_active rep;
          files = dir_with (mi_shrink (sg_index active)) rep;
          (content, index_file) = existing (sint current_leo) files
      in case segment_create (rp_cfg rep) content (mm_create mm index_file) current_leo of
           Inl e \<Rightarrow> (Inl e, rep)
         | Inr new_segment \<Rightarrow>
             (Inr current_leo, rep\<lparr>rp_active := new_segment,
                rp_left := filter (\<lambda>f. fst f \<noteq> sint current_leo) files,
                rp_hw := (if reset_hw then current_leo else rp_hw rep),
                rp_size_prev := 0, rp_size_active := word_of_nat (seg_occupied new_segment)\<rparr>))"

section \<open>Reading\<close>

datatype Isolation = ReadCommitted | ReadUncommitted

record ReplicaSlice =
  rsl_hw :: i64
  rsl_leo :: i64
  rsl_start :: i64
  rsl_slice :: "log_slice option"

definition limit_slice :: "u32 \<Rightarrow> log_slice \<Rightarrow> log_slice" where
  "limit_slice max_len s = (fst s, fst (snd s), min (snd (snd s)) (unat max_len))"

definition read_records ::
  "(nat \<Rightarrow> nat) \<Rightarrow> i64 \<Rightarrow> i64 option \<Rightarrow> u32 \<Rightarrow> FileReplica \<Rightarrow> (ErrorCode + ReplicaSlice) option" where
  "read_records short start_offset max_offset max_len rep =
     (let result = \<lparr>rsl_hw = rp_hw rep, rsl_leo = get_leo rep, rsl_start = get_log_start_offset rep, rsl_slice = None\<rparr>;
          active = rp_active rep;
          found = (\<lambda>s. Some (Inr (result\<lparr>rsl_slice := Some (limit_slice max_len s)\<rparr>)))
      in if sint start_offset \<ge> sint (sg_base active) then
           if start_offset = get_leo rep then Some (Inr result)
           else if sint start_offset > sint (get_leo rep) then Some (Inl ErrOther)
           else (case records_slice short (active_view active) start_offset max_offset of
               None \<Rightarrow> None
             | Some (Inl e) \<Rightarrow> Some (Inl e)
             | Some (Inr None) \<Rightarrow> Some (Inl ErrOther)
             | Some (Inr (Some s)) \<Rightarrow> found (sint (sg_base active), s))
         else (case find_slice short start_offset max_offset (rp_prev rep) of
             None \<Rightarrow> None
           | Some (Inl e) \<Rightarrow> Some (Inl e)
           | Some (Inr None) \<Rightarrow> Some (Inl (OffsetEvicted start_offset (get_log_start_offset rep)))
           | Some (Inr (Some s)) \<Rightarrow> found s))"

definition read_partition_slice ::
  "(nat \<Rightarrow> nat) \<Rightarrow> i64 \<Rightarrow> u32 \<Rightarrow> Isolation \<Rightarrow> FileReplica \<Rightarrow> (ErrorCode + ReplicaSlice) option" where
  "read_partition_slice short offset max_len isolation rep =
     (case isolation of
        ReadCommitted \<Rightarrow> read_records short offset (Some (rp_hw rep)) max_len rep
      | ReadUncommitted \<Rightarrow> read_records short offset None max_len rep)"

text \<open>The bytes a slice stands for.\<close>

definition slice_bytes :: "FileReplica \<Rightarrow> log_slice \<Rightarrow> bytes" where
  "slice_bytes rep s = take (snd (snd s)) (drop (fst (snd s)) (fst (existing (fst s) (dir_files rep))))"

section \<open>Checkpoint, loading and cleaning\<close>

text \<open>
  The checkpoint file: \<open>None\<close> when it does not exist. A file that does not hold
  eight bytes counts as offset 0.
\<close>

definition checkpoint_create :: "i64 \<Rightarrow> bytes option \<Rightarrow> i64" where
  "checkpoint_create initial_offset chk =
     (case chk of
        None \<Rightarrow> initial_offset
      | Some contents \<Rightarrow> if length contents \<noteq> 8 then 0 else be_word contents)"

text \<open>
  One turn of the loop that writes the file. \<open>at_start\<close> is the writer's own offset:
  what it read when the replica was opened, 0 when there was nothing to read. The
  loop never changes it.
\<close>

definition checkpoint_write :: "i64 \<Rightarrow> i64 \<Rightarrow> bytes \<Rightarrow> bytes" where
  "checkpoint_write at_start offset contents =
     (if offset = at_start then contents else be_bytes 8 offset @ drop 8 contents)"

fun open_all ::
  "(nat \<Rightarrow> nat) \<Rightarrow> mapping \<Rightarrow> (int \<times> bytes \<times> Entry list) list \<Rightarrow> SegmentList
    \<Rightarrow> (storage_error + SegmentList) option" where
  "open_all short mm [] sl = Some (Inr sl)"
| "open_all short mm ((offset, content, index_file) # files) sl =
     (case open_unknown short (mm_open mm) (word_of_int offset) content index_file of
        None \<Rightarrow> None
      | Some (Inl e) \<Rightarrow> Some (Inl e)
      | Some (Inr segment) \<Rightarrow> open_all short mm files (snd (sl_add_segment segment sl)))"

text \<open>\<open>SharedSegments::from_dir\<close>: all segments but the last one are opened; the last one is returned.\<close>

definition from_dir ::
  "(nat \<Rightarrow> nat) \<Rightarrow> mapping \<Rightarrow> (int \<times> bytes \<times> Entry list) list
    \<Rightarrow> (storage_error + SharedSegments \<times> (int \<times> bytes \<times> Entry list) option) option" where
  "from_dir short mm files =
     (let offsets = sort_key fst files
      in case open_all short mm (butlast offsets) sl_new of
           None \<Rightarrow> None
         | Some (Inl e) \<Rightarrow> Some (Inl e)
         | Some (Inr sl) \<Rightarrow> Some (Inr (shared_from sl, if offsets = [] then None else Some (last offsets))))"

definition load_active ::
  "(nat \<Rightarrow> nat) \<Rightarrow> mapping \<Rightarrow> SegmentConfig \<Rightarrow> i64 \<Rightarrow> (int \<times> bytes \<times> Entry list) option
    \<Rightarrow> (storage_error + MutableSegment) option" where
  "load_active short mm cfg base last_file =
     (case last_file of
        None \<Rightarrow> Some (segment_create cfg [] (mm_create mm []) base)
      | Some (offset, content, index_file) \<Rightarrow>
          (case open_for_write cfg content (mm_create mm index_file) (word_of_int offset) of
             Inl e \<Rightarrow> Some (Inl e)
           | Inr segment \<Rightarrow>
               (case validate_and_repair short (mm_create mm) cfg segment of
                  None \<Rightarrow> None
                | Some (Inl e) \<Rightarrow> Some (Inl e)
                | Some (Inr (_, segment)) \<Rightarrow> Some (Inr segment))))"

definition create_or_load_inner ::
  "(nat \<Rightarrow> nat) \<Rightarrow> mapping \<Rightarrow> SegmentConfig \<Rightarrow> nat \<Rightarrow> i64 \<Rightarrow> (int \<times> bytes \<times> Entry list) list \<Rightarrow> bytes option
    \<Rightarrow> (storage_error + FileReplica) option" where
  "create_or_load_inner short mm cfg max_request base files chk =
     (case from_dir short mm files of
        None \<Rightarrow> None
      | Some (Inl e) \<Rightarrow> Some (Inl e)
      | Some (Inr (segments, last_file)) \<Rightarrow>
          (case load_active short mm cfg base last_file of
             None \<Rightarrow> None
           | Some (Inl e) \<Rightarrow> Some (Inl e)
           | Some (Inr active) \<Rightarrow>
               (let hw = checkpoint_create (sg_base active) chk
                in Some (Inr \<lparr>rp_cfg = cfg, rp_active = active, rp_prev = segments,
                     rp_hw = (if sint hw > sint (sg_end active) then sg_end active else hw),
                     rp_size_active = word_of_nat (seg_occupied active), rp_size_prev = 0,
                     rp_short_circuit = False, rp_max_request = max_request,
                     rp_max_segment = unat (segment_max_bytes cfg), rp_left = []\<rparr>))))"

definition enforce_size :: "u64 \<Rightarrow> FileReplica \<Rightarrow> fault + FileReplica" where
  "enforce_size max_partition_size rep =
     (let replica_size = rp_size_active rep + rp_size_prev rep;
          excess = unat replica_size - unat max_partition_size
      in if excess > 0 then
           (let segment_size = unat (segment_max_bytes (rp_cfg rep))
            in if segment_size = 0 then Inl Panic
               else (let count_to_remove = excess div segment_size + (if excess mod segment_size > 0 then 1 else 0);
                         prev = ss_remove_segments (find_first count_to_remove (ss_list (rp_prev rep))) (rp_prev rep)
                     in Inr (rep\<lparr>rp_prev := prev, rp_size_prev := word_of_nat (sl_occupied (ss_list prev))\<rparr>)))
         else Inr rep)"

definition enforce_ttl :: "(ReadSegment \<Rightarrow> bool) \<Rightarrow> FileReplica \<Rightarrow> FileReplica" where
  "enforce_ttl expired rep =
     (let expired_segments = find_expired_segments expired (ss_list (rp_prev rep))
      in if expired_segments \<noteq> [] then
           (let prev = ss_remove_segments expired_segments (rp_prev rep)
            in rep\<lparr>rp_prev := prev, rp_size_prev := word_of_nat (sl_occupied (ss_list prev))\<rparr>)
         else rep)"

section \<open>Contiguous segments\<close>

text \<open>
  Closed segments that follow each other without a gap from offset \<open>o0\<close> on,
  with the batches each of them holds.
\<close>

fun segs_hold ::
  "(bytes \<Rightarrow> u32) \<Rightarrow> ('r \<Rightarrow> bytes) \<Rightarrow> ('r \<Rightarrow> bool) \<Rightarrow> int \<Rightarrow> (int \<times> ReadSegment) list \<Rightarrow> 'r Batch list list \<Rightarrow> bool" where
  "segs_hold crc32c w p o0 [] bss = (bss = [])"
| "segs_hold crc32c w p o0 ((k, s) # ss) bss =
     (\<exists>bs bss'. bss = bs # bss' \<and> k = o0 \<and> sint (rs_base s) = o0 \<and> rs_holds crc32c w p s bs \<and> bs \<noteq> [] \<and>
        segs_hold crc32c w p (sint (rs_end s)) ss bss')"

fun segs_end :: "int \<Rightarrow> (int \<times> ReadSegment) list \<Rightarrow> int" where
  "segs_end o0 [] = o0"
| "segs_end o0 ((k, s) # ss) = segs_end (sint (rs_end s)) ss"

lemma rs_holds_grows:
  assumes "rs_holds crc32c w p s bs" "bs \<noteq> []"
  shows "sint (rs_base s) < sint (rs_end s)"
proof -
  obtain b cs where bs: "bs = b # cs" using assms(2) by (cases bs) auto
  have chain: "chain (sint (rs_base s)) bs" "sint (rs_end s) = chain_end (sint (rs_base s)) bs"
    using assms(1) by (auto simp: rs_holds_def log_ok_def)
  then show ?thesis using bs chain_before [OF chain(1), of b] by auto
qed

lemma segs_end_ge: "segs_hold crc32c w p o0 ss bss \<Longrightarrow> o0 \<le> segs_end o0 ss"
proof (induction ss arbitrary: o0 bss)
  case (Cons e ss)
  obtain k s where e: "e = (k, s)" by (cases e)
  with Cons.prems obtain bs bss' where h: "rs_holds crc32c w p s bs" "bs \<noteq> []" "sint (rs_base s) = o0"
      "segs_hold crc32c w p (sint (rs_end s)) ss bss'" by auto
  then show ?case using Cons.IH [OF h(4)] rs_holds_grows [OF h(1,2)] e by simp
qed simp

lemma segs_end_append [simp]: "segs_end o0 (ss @ ts) = segs_end (segs_end o0 ss) ts"
  by (induction o0 ss rule: segs_end.induct) simp_all

lemma segs_hold_append:
  "segs_hold crc32c w p o0 (ss @ ts) bss \<longleftrightarrow>
     (\<exists>bss1 bss2. bss = bss1 @ bss2 \<and> segs_hold crc32c w p o0 ss bss1 \<and> segs_hold crc32c w p (segs_end o0 ss) ts bss2)"
proof (induction ss arbitrary: o0 bss)
  case (Cons e ss)
  obtain k s where e: "e = (k, s)" by (cases e)
  show ?case
  proof
    assume "segs_hold crc32c w p o0 ((e # ss) @ ts) bss"
    then obtain bs bss1 bss2 where "bss = bs # bss1 @ bss2" "segs_hold crc32c w p o0 (e # ss) (bs # bss1)"
        "segs_hold crc32c w p (segs_end o0 (e # ss)) ts bss2"
      by (auto simp: e Cons.IH)
    then show "\<exists>bss1 bss2. bss = bss1 @ bss2 \<and> segs_hold crc32c w p o0 (e # ss) bss1 \<and>
        segs_hold crc32c w p (segs_end o0 (e # ss)) ts bss2"
      by (intro exI [of _ "bs # bss1"] exI [of _ bss2]) simp
  qed (auto simp: e Cons.IH, blast)
qed simp

lemma segs_hold_keys:
  assumes "segs_hold crc32c w p o0 ss bss" "(k, s) \<in> set ss"
  shows "o0 \<le> k" "k < sint (rs_end s)" "sint (rs_end s) \<le> segs_end o0 ss" "sint (rs_base s) = k"
proof -
  obtain ss1 ss2 where ss: "ss = ss1 @ (k, s) # ss2" using assms(2) by (auto simp: in_set_conv_decomp)
  then obtain bss1 bs bss2 where h: "segs_hold crc32c w p o0 ss1 bss1" "k = segs_end o0 ss1" "sint (rs_base s) = k"
      "rs_holds crc32c w p s bs" "bs \<noteq> []" "segs_hold crc32c w p (sint (rs_end s)) ss2 bss2"
    using assms(1) by (auto simp: segs_hold_append)
  show "o0 \<le> k" using segs_end_ge [OF h(1)] h(2) by simp
  show "k < sint (rs_end s)" using rs_holds_grows [OF h(4,5)] h(3) by simp
  show "sint (rs_end s) \<le> segs_end o0 ss" using segs_end_ge [OF h(6)] ss h(2) by simp
  show "sint (rs_base s) = k" by (rule h(3))
qed

lemma segs_hold_sorted: "segs_hold crc32c w p o0 ss bss \<Longrightarrow> bt_wf ss"
proof (induction ss arbitrary: o0 bss)
  case (Cons e ss)
  obtain k s where e: "e = (k, s)" by (cases e)
  with Cons.prems obtain bs bss' where h: "rs_holds crc32c w p s bs" "bs \<noteq> []" "sint (rs_base s) = k"
      "segs_hold crc32c w p (sint (rs_end s)) ss bss'" by auto
  have "k < k'" if "(k', s') \<in> set ss" for k' s'
    using segs_hold_keys(1) [OF h(4) that] rs_holds_grows [OF h(1,2)] h(3) by simp
  then show ?case using Cons.IH [OF h(4)] by (auto simp: e bt_wf_Cons)
qed simp

lemma segs_hold_split:
  assumes "segs_hold crc32c w p o0 ss bss" "o0 \<le> x" "x < segs_end o0 ss"
  obtains ss1 k s ss2 bss1 bs bss2 where "ss = ss1 @ (k, s) # ss2" "bss = bss1 @ bs # bss2"
    "segs_hold crc32c w p o0 ss1 bss1" "rs_holds crc32c w p s bs" "bs \<noteq> []"
    "segs_hold crc32c w p (sint (rs_end s)) ss2 bss2" "k = segs_end o0 ss1" "sint (rs_base s) = k"
    "k \<le> x" "x < sint (rs_end s)"
proof -
  have "\<exists>ss1 k s ss2. ss = ss1 @ (k, s) # ss2 \<and> k \<le> x \<and> x < sint (rs_end s)"
    using assms
  proof (induction ss arbitrary: o0 bss)
    case (Cons e ss)
    obtain k s where e: "e = (k, s)" by (cases e)
    with Cons.prems(1) obtain bss' where h: "k = o0" "segs_hold crc32c w p (sint (rs_end s)) ss bss'" by auto
    show ?case
    proof (cases "x < sint (rs_end s)")
      case True
      then show ?thesis using Cons.prems(2) e h(1) by (intro exI [of _ "[]"]) auto
    next
      case False
      then obtain ss1 k' s' ss2 where "ss = ss1 @ (k', s') # ss2 \<and> k' \<le> x \<and> x < sint (rs_end s')"
        using Cons.IH [OF h(2)] Cons.prems(3) e by auto
      then show ?thesis by (intro exI [of _ "e # ss1"]) auto
    qed
  qed simp
  then obtain ss1 k s ss2 where ss: "ss = ss1 @ (k, s) # ss2" "k \<le> x" "x < sint (rs_end s)" by blast
  then show thesis using assms(1) that by (auto simp: segs_hold_append)
qed

section \<open>The state of a replica\<close>

definition rp_segs :: "FileReplica \<Rightarrow> (int \<times> ReadSegment) list" where
  "rp_segs rep = sl_segments (ss_list (rp_prev rep))"

definition first_offset :: "FileReplica \<Rightarrow> int" where
  "first_offset rep = (case rp_segs rep of [] \<Rightarrow> sint (sg_base (rp_active rep)) | e # _ \<Rightarrow> fst e)"

text \<open>The offsets \<open>update_min_max\<close> keeps for contiguous segments.\<close>

definition sl_ok :: "int \<Rightarrow> SegmentList \<Rightarrow> bool" where
  "sl_ok o0 sl = (sl_min sl = (if sl_segments sl = [] then - 1 else word_of_int o0) \<and>
                  sl_max sl = (if sl_segments sl = [] then 0 else word_of_int (segs_end o0 (sl_segments sl))))"

text \<open>
  \<open>rep_holds rep bss act\<close>: the closed segments hold the batches \<open>bss\<close> and the
  active one holds \<open>act\<close>, all in one contiguous run of offsets.
\<close>

definition rep_holds ::
  "(bytes \<Rightarrow> u32) \<Rightarrow> ('r \<Rightarrow> bytes) \<Rightarrow> ('r \<Rightarrow> bool) \<Rightarrow> FileReplica \<Rightarrow> 'r Batch list list \<Rightarrow> 'r Batch list \<Rightarrow> bool" where
  "rep_holds crc32c w p rep bss act =
     (segs_hold crc32c w p (first_offset rep) (rp_segs rep) bss \<and>
      segs_end (first_offset rep) (rp_segs rep) = sint (sg_base (rp_active rep)) \<and>
      seg_holds crc32c w p (rp_active rep) act \<and> 0 \<le> first_offset rep \<and>
      sl_ok (first_offset rep) (ss_list (rp_prev rep)) \<and> ss_min (rp_prev rep) = sl_min (ss_list (rp_prev rep)) \<and>
      fr_max (sg_log (rp_active rep)) = segment_max_bytes (rp_cfg rep) \<and>
      length (fr_file (sg_log (rp_active rep))) \<le> unat (segment_max_bytes (rp_cfg rep)) \<and>
      (\<forall>f \<in> set (rp_left rep). fst f < first_offset rep))"

lemma hw_update_simps [simp]:
  "first_offset (rep\<lparr>rp_hw := h\<rparr>) = first_offset rep" "rp_segs (rep\<lparr>rp_hw := h\<rparr>) = rp_segs rep"
  "get_leo (rep\<lparr>rp_hw := h\<rparr>) = get_leo rep"
  by (simp_all add: first_offset_def rp_segs_def get_leo_def split: list.splits)

lemma sint_word_of_int:
  "- (2 ^ 63) \<le> k \<Longrightarrow> k < 2 ^ 63 \<Longrightarrow> sint (word_of_int k :: i64) = k"
  using signed_take_bit_int_eq_self [of 63 k] by (simp only: sint_sbintrunc' len64)

lemma sint_eqI: "sint (v :: i64) = sint v' \<Longrightarrow> v = v'"
  by (rule signed_word_eqI)

lemma word_of_sint [simp]: "word_of_int (sint (x :: i64)) = x"
  by simp

lemma min_max_fold:
  assumes "segs_hold crc32c w p o0 ss bss" "0 \<le> o0" "0 \<le> sint mn" "sint mn \<le> o0" "sint mx \<le> o0"
  shows "foldl min_max_step (mx, mn) ss = (if ss = [] then mx else word_of_int (segs_end o0 ss), mn)"
  using assms
proof (induction ss arbitrary: o0 bss mx)
  case (Cons e ss)
  obtain k s where e: "e = (k, s)" by (cases e)
  with Cons.prems(1) obtain bs bss' where h: "k = o0" "sint (rs_base s) = o0" "rs_holds crc32c w p s bs" "bs \<noteq> []"
      "segs_hold crc32c w p (sint (rs_end s)) ss bss'" by auto
  have grow: "o0 < sint (rs_end s)" using rs_holds_grows [OF h(3,4)] h(2) by simp
  then have step: "min_max_step (mx, mn) (k, s) = (rs_end s, mn)"
    using Cons.prems h(2) by (simp add: min_max_step_def)
  have "foldl min_max_step (rs_end s, mn) ss = (if ss = [] then rs_end s else word_of_int (segs_end (sint (rs_end s)) ss), mn)"
    using Cons.IH [OF h(5)] Cons.prems grow by simp
  then show ?case by (cases ss) (simp_all add: step e)
qed simp

lemma update_min_max_ok:
  assumes "segs_hold crc32c w p o0 (sl_segments sl) bss" "0 \<le> o0"
  shows "sl_ok o0 (update_min_max sl)" "sl_segments (update_min_max sl) = sl_segments sl"
proof -
  show segs: "sl_segments (update_min_max sl) = sl_segments sl"
    by (simp add: update_min_max_def case_prod_beta Let_def)
  show "sl_ok o0 (update_min_max sl)"
  proof (cases "sl_segments sl")
    case Nil
    then show ?thesis by (simp add: sl_ok_def update_min_max_def)
  next
    case (Cons e ss)
    obtain k s where e: "e = (k, s)" by (cases e)
    with assms(1) Cons obtain bs bss' where h: "k = o0" "sint (rs_base s) = o0" "rs_holds crc32c w p s bs" "bs \<noteq> []"
      "segs_hold crc32c w p (sint (rs_end s)) ss bss'" by auto
    have grow: "o0 < sint (rs_end s)" using rs_holds_grows [OF h(3,4)] h(2) by simp
    then have "min_max_step (0, - 1) e = (rs_end s, rs_base s)"
      using assms(2) by (simp add: min_max_step_def e)
    moreover have "foldl min_max_step (rs_end s, rs_base s) ss =
        (if ss = [] then rs_end s else word_of_int (segs_end (sint (rs_end s)) ss), rs_base s)"
      using min_max_fold [OF h(5)] assms(2) h(2) grow by simp
    moreover have "rs_base s = word_of_int o0" using h(2) word_of_sint [of "rs_base s"] by simp
    ultimately show ?thesis
      by (cases ss) (simp_all add: sl_ok_def update_min_max_def Cons e)
  qed
qed

lemma sl_add_segment_ok:
  assumes "segs_hold crc32c w p o0 (sl_segments sl) bss" "0 \<le> o0"
    and "rs_holds crc32c w p s bs" "bs \<noteq> []" "sint (rs_base s) = segs_end o0 (sl_segments sl)"
  obtains sl' where "sl_add_segment s sl = (sl_min sl', sl')" "sl_ok o0 sl'"
    "sl_segments sl' = sl_segments sl @ [(sint (rs_base s), s)]"
    "segs_hold crc32c w p o0 (sl_segments sl') (bss @ [bs])"
proof -
  let ?new = "sl_segments sl @ [(sint (rs_base s), s)]"
  have "k < sint (rs_base s)" if "(k, s') \<in> set (sl_segments sl)" for k s'
    using segs_hold_keys [OF assms(1) that] assms(5) by simp
  then have ins: "bt_insert (sint (rs_base s)) s (sl_segments sl) = ?new"
    by (intro bt_insert_last) auto
  have "segs_hold crc32c w p o0 ?new (bss @ [bs])"
    using assms by (auto simp: segs_hold_append)
  then show thesis
    using that [of "update_min_max (sl\<lparr>sl_segments := ?new\<rparr>)"]
      update_min_max_ok [of crc32c w p o0 "sl\<lparr>sl_segments := ?new\<rparr>" "bss @ [bs]"] assms(2) ins
    by (simp add: sl_add_segment_def Let_def)
qed

section \<open>Rolling over\<close>

text \<open>
  What the code relies on of the memory mappings: a mapped index file for
  writing is not larger than 32-bit indexes reach, and a mapping for reading
  shows the file, an empty file having been extended to one entry.
\<close>

definition mapping_ok :: "mapping \<Rightarrow> bool" where
  "mapping_ok mm = ((\<forall>es. length (mm_create mm es) < 2 ^ 32) \<and>
                    (\<forall>es. mm_open mm es = (if es = [] then [(0, 0)] else es)))"

lemma as_segment_holds:
  assumes "seg_holds crc32c w p seg bs" "mapping_ok mm"
  shows "rs_holds crc32c w p (as_segment (mm_open mm) seg) bs"
proof -
  let ?es = "mi_shrink (sg_index seg)"
  have idx: "keys_sorted ?es" "set (map entry_to_be ?es) \<subseteq> set (marks crc32c w (sg_base seg) 0 bs)"
    using assms(1) entries_shrink [of "sg_index seg"] by (auto simp: seg_holds_def idx_ok_def mi_shrink_def)
  have "entry_to_be (0, 0) = (0, 0)" by (simp add: entry_to_be_def)
  then show ?thesis
    using assms idx by (auto simp: rs_holds_def as_segment_def seg_holds_def mapping_ok_def keys_sorted_def)
qed

lemma existing_fresh: "k \<notin> fst ` set files \<Longrightarrow> existing k files = ([], [])"
  by (simp add: existing_def map_of_eq_None_iff [THEN iffD2])

lemma dir_keys:
  "fst ` set (dir_with es rep) = fst ` set (rp_segs rep) \<union> {sint (sg_base (rp_active rep))} \<union> fst ` set (rp_left rep)"
  by (force simp: dir_with_def rp_segs_def)

lemma seg_holds_grows:
  assumes "seg_holds crc32c w p seg bs"
  shows "sint (sg_base seg) \<le> sint (sg_end seg)" "bs \<noteq> [] \<Longrightarrow> sint (sg_base seg) < sint (sg_end seg)"
proof -
  have chain: "chain (sint (sg_base seg)) bs" "sint (sg_end seg) = chain_end (sint (sg_base seg)) bs"
    using assms by (auto simp: seg_holds_def log_ok_def)
  then show "sint (sg_base seg) \<le> sint (sg_end seg)" using chain_end_ge [of "sint (sg_base seg)" bs] by simp
  show "sint (sg_base seg) < sint (sg_end seg)" if "bs \<noteq> []"
    using chain that chain_before [OF chain(1), of "hd bs"] by (cases bs) auto
qed

lemma rep_keys_below:
  assumes "rep_holds crc32c w p rep bss act" "k \<in> fst ` set (dir_with es rep)"
  shows "k \<le> sint (sg_base (rp_active rep))"
proof -
  have segs: "segs_hold crc32c w p (first_offset rep) (rp_segs rep) bss"
      "segs_end (first_offset rep) (rp_segs rep) = sint (sg_base (rp_active rep))"
    using assms(1) by (simp_all add: rep_holds_def)
  have "fst f \<le> sint (sg_base (rp_active rep))" if "f \<in> set (rp_left rep)" for f
    using assms(1) that segs_end_ge [OF segs(1)] segs(2) by (fastforce simp: rep_holds_def)
  moreover have "k' \<le> sint (sg_base (rp_active rep))" if "(k', s) \<in> set (rp_segs rep)" for k' s
    using segs_hold_keys [OF segs(1) that] segs(2) by simp
  ultimately show ?thesis using assms(2) unfolding dir_keys by auto
qed

lemma new_segment_holds:
  assumes "index_max_bytes cfg \<noteq> 0" "length mapped < 2 ^ 32"
  obtains seg where "segment_create cfg [] mapped base = Inr seg" "seg_holds crc32c w p seg []"
    "sg_base seg = base" "sg_end seg = base" "fr_max (sg_log seg) = segment_max_bytes cfg" "fr_file (sg_log seg) = []"
    "mi_slots (sg_index seg) = mapped" "mi_first_empty (sg_index seg) = 0"
  using assms
  by (auto simp: segment_create_def mi_create_def seg_holds_def log_ok_def fr_create_def idx_ok_def entries_def
      keys_sorted_def)

text \<open>The parts of a replica that writing never changes.\<close>

definition same_setup :: "FileReplica \<Rightarrow> FileReplica \<Rightarrow> bool" where
  "same_setup rep rep' = (rp_cfg rep' = rp_cfg rep \<and> rp_max_request rep' = rp_max_request rep \<and>
     rp_max_segment rep' = rp_max_segment rep \<and> first_offset rep' = first_offset rep)"

lemma roll_over_ok:
  assumes rep: "rep_holds crc32c w p rep bss act" and "act \<noteq> []"
    and mm: "mapping_ok mm" "index_max_bytes (rp_cfg rep) \<noteq> 0"
  obtains rep' where "roll_over mm rep = (Inr (), rep')" "rep_holds crc32c w p rep' (bss @ [act]) []"
    "same_setup rep rep'" "rp_hw rep' = rp_hw rep" "rp_short_circuit rep' = rp_short_circuit rep"
    "sg_base (rp_active rep') = sg_end (rp_active rep)" "get_leo rep' = get_leo rep"
    "fr_file (sg_log (rp_active rep')) = []"
proof -
  let ?active = "rp_active rep" and ?es = "mi_shrink (sg_index (rp_active rep))"
  let ?old = "as_segment (mm_open mm) ?active"
  have act: "seg_holds crc32c w p ?active act" using rep by (simp add: rep_holds_def)
  note grow = seg_holds_grows(2) [OF act assms(2)]
  have "sint (sg_end ?active) \<notin> fst ` set (dir_with ?es rep)"
    using rep_keys_below [OF rep, of "sint (sg_end ?active)" ?es] grow by auto
  then have fresh: "existing (sint (sg_end ?active)) (dir_with ?es rep) = ([], [])" by (rule existing_fresh)
  have "length (mm_create mm []) < 2 ^ 32" using mm(1) by (simp add: mapping_ok_def)
  with mm(2) obtain seg where seg: "segment_create (rp_cfg rep) [] (mm_create mm []) (sg_end ?active) = Inr seg"
      "seg_holds crc32c w p seg []" "sg_base seg = sg_end ?active" "sg_end seg = sg_end ?active"
      "fr_max (sg_log seg) = segment_max_bytes (rp_cfg rep)" "fr_file (sg_log seg) = []"
    by (rule new_segment_holds)
  have segs: "segs_hold crc32c w p (first_offset rep) (sl_segments (ss_list (rp_prev rep))) bss" "0 \<le> first_offset rep"
      "segs_end (first_offset rep) (sl_segments (ss_list (rp_prev rep))) = sint (sg_base ?active)"
    using rep by (simp_all add: rep_holds_def rp_segs_def)
  have old: "rs_base ?old = sg_base ?active" "rs_end ?old = sg_end ?active" by (simp_all add: as_segment_def)
  obtain sl' where sl': "sl_add_segment ?old (ss_list (rp_prev rep)) = (sl_min sl', sl')" "sl_ok (first_offset rep) sl'"
      "sl_segments sl' = rp_segs rep @ [(sint (sg_base ?active), ?old)]"
      "segs_hold crc32c w p (first_offset rep) (sl_segments sl') (bss @ [act])"
    using sl_add_segment_ok [OF segs(1,2) as_segment_holds [OF act mm(1)] assms(2)] segs(3) old
    unfolding rp_segs_def by metis
  define rep' where "rep' = rep\<lparr>rp_active := seg,
      rp_size_prev := rp_size_prev rep + word_of_nat (rs_occupied ?old),
      rp_prev := \<lparr>ss_list = sl', ss_min = sl_min sl'\<rparr>,
      rp_left := filter (\<lambda>f. fst f \<noteq> sint (sg_end ?active)) (rp_left rep)\<rparr>"
  have roll: "roll_over mm rep = (Inr (), rep')"
    using fresh seg(1) sl'(1) by (simp add: roll_over_def rep'_def ss_add_segment_def Let_def)
  have segs': "rp_segs rep' = rp_segs rep @ [(sint (sg_base ?active), ?old)]"
    using sl'(3) by (simp add: rp_segs_def rep'_def)
  have first: "first_offset rep' = first_offset rep"
    by (cases "rp_segs rep") (simp_all add: first_offset_def segs')
  have "rep_holds crc32c w p rep' (bss @ [act]) []"
    unfolding rep_holds_def first
    using rep seg sl'(2,3,4) segs' old(2) by (auto simp: rep_holds_def rep'_def rp_segs_def)
  then show thesis
    using that [OF roll] first seg by (simp add: rep'_def same_setup_def get_leo_def)
qed

section \<open>Writing\<close>

text \<open>A batch the replica accepts.\<close>

definition storable :: "('r \<Rightarrow> bytes) \<Rightarrow> ('r \<Rightarrow> bool) \<Rightarrow> FileReplica \<Rightarrow> 'r Batch \<Rightarrow> bool" where
  "storable w p rep b =
     (ok_batch w p b \<and> \<not> has_schema (header b) \<and> records_len b > 0 \<and>
      BATCH_FILE_HEADER_SIZE + length (w (records b)) \<le> rp_max_segment rep \<and>
      BATCH_FILE_HEADER_SIZE + length (w (records b)) \<le> rp_max_request rep)"

text \<open>A replica as it is set up, ready for writing.\<close>

definition ready :: "mapping \<Rightarrow> FileReplica \<Rightarrow> bool" where
  "ready mm rep =
     (mapping_ok mm \<and> index_max_bytes (rp_cfg rep) \<noteq> 0 \<and> \<not> rp_short_circuit rep \<and>
      rp_max_segment rep = unat (segment_max_bytes (rp_cfg rep)) \<and> unat (segment_max_bytes (rp_cfg rep)) < 2 ^ 31)"

lemma rep_holds_active:
  assumes "rep_holds crc32c w p rep bss act" "seg_holds crc32c w p seg act'" "sg_base seg = sg_base (rp_active rep)"
    and "fr_max (sg_log seg) = fr_max (sg_log (rp_active rep))"
      "length (fr_file (sg_log seg)) \<le> unat (segment_max_bytes (rp_cfg rep))"
  shows "rep_holds crc32c w p (rep\<lparr>rp_active := seg, rp_size_active := n\<rparr>) bss act'"
    "same_setup rep (rep\<lparr>rp_active := seg, rp_size_active := n\<rparr>)"
proof -
  have "first_offset (rep\<lparr>rp_active := seg, rp_size_active := n\<rparr>) = first_offset rep"
    "rp_segs (rep\<lparr>rp_active := seg, rp_size_active := n\<rparr>) = rp_segs rep"
    using assms(3) by (simp_all add: first_offset_def rp_segs_def split: list.splits)
  then show "rep_holds crc32c w p (rep\<lparr>rp_active := seg, rp_size_active := n\<rparr>) bss act'"
      "same_setup rep (rep\<lparr>rp_active := seg, rp_size_active := n\<rparr>)"
    using assms by (simp_all add: rep_holds_def same_setup_def)
qed

lemma same_setup_trans: "same_setup a b \<Longrightarrow> same_setup b c \<Longrightarrow> same_setup a c"
  by (simp add: same_setup_def)

lemma storable_length:
  "storable w p rep b \<Longrightarrow> length (wire_batch crc32c w b) = BATCH_FILE_HEADER_SIZE + length (w (records b))"
  by (simp add: storable_def length_wire_batch length_wire_schema)

text \<open>What a successful write of a batch leaves behind.\<close>

definition wrote_batch ::
  "(bytes \<Rightarrow> u32) \<Rightarrow> ('r \<Rightarrow> bytes) \<Rightarrow> ('r \<Rightarrow> bool) \<Rightarrow> mapping \<Rightarrow> FileReplica \<Rightarrow> 'r Batch list
    \<Rightarrow> 'r Batch list \<Rightarrow> FileReplica \<Rightarrow> bool" where
  "wrote_batch crc32c w p mm rep bs new rep' =
     (\<exists>bss act. rep_holds crc32c w p rep' bss act \<and> concat bss @ act = bs @ new \<and> ready mm rep' \<and>
        same_setup rep rep' \<and> rp_hw rep' = rp_hw rep \<and>
        sint (get_leo rep') = sint (get_leo rep) + int (sum_list (map records_len new)) \<and>
        sint (sg_base (rp_active rep)) \<le> sint (sg_base (rp_active rep')))"

context batch_records
begin

lemma append_to_active:
  assumes rep: "rep_holds crc32c w p rep bss act" "ready mm rep" and b: "storable w p rep b"
    and offsets: "sint (get_leo rep) + int (records_len b) < 2 ^ 63"
      "sint (get_leo rep) + int (records_len b) - sint (sg_base (rp_active rep)) < 2 ^ 32"
  defines "b' \<equiv> set_base_offset (get_leo rep) b"
  shows "if length (fr_file (sg_log (rp_active rep))) + length (wire_batch crc32c w b) \<le> rp_max_segment rep
         then \<exists>seg. append_batch crc32c R b (rp_active rep) = (Inr True, b', seg) \<and>
                (\<forall>n. wrote_batch crc32c w p mm rep (concat bss @ act) [b'] (rep\<lparr>rp_active := seg, rp_size_active := n\<rparr>))
         else append_batch crc32c R b (rp_active rep) = (Inr False, b', rp_active rep)"
proof -
  let ?seg = "rp_active rep"
  have seg: "seg_holds crc32c w p ?seg act" and max: "fr_max (sg_log ?seg) = segment_max_bytes (rp_cfg rep)"
      and len: "length (fr_file (sg_log ?seg)) \<le> unat (segment_max_bytes (rp_cfg rep))"
    using rep(1) by (simp_all add: rep_holds_def)
  have ok: "ok_batch w p b" "\<not> has_schema (header b)" "records_len b > 0"
      and size_b: "length (wire_batch crc32c w b) \<le> rp_max_segment rep"
    using b storable_length [OF b, of crc32c] by (simp_all add: storable_def)
  have room: "length (fr_file (sg_log ?seg)) + length (wire_batch crc32c w b) < 2 ^ 32"
    using len size_b rep(2) by (simp add: ready_def)
  note append = append_batch_ok [OF seg ok room offsets [unfolded get_leo_def]]
  show ?thesis
  proof (cases "length (fr_file (sg_log ?seg)) + length (wire_batch crc32c w b) \<le> rp_max_segment rep")
    case False
    then show ?thesis using append max rep(2) by (simp add: ready_def b'_def get_leo_def)
  next
    case True
    then obtain seg' where seg': "append_batch crc32c R b ?seg = (Inr True, b', seg')"
        "seg_holds crc32c w p seg' (act @ [b'])" "sg_base seg' = sg_base ?seg"
        "sint (sg_end seg') = sint (sg_end ?seg) + int (records_len b)" "fr_max (sg_log seg') = fr_max (sg_log ?seg)"
      using append max rep(2) by (auto simp: ready_def b'_def get_leo_def)
    have "fr_file (sg_log seg') = log_bytes crc32c w (act @ [b'])" "fr_file (sg_log ?seg) = log_bytes crc32c w act"
      using seg'(2) seg by (simp_all add: seg_holds_def log_ok_def)
    then have len': "length (fr_file (sg_log seg')) \<le> unat (segment_max_bytes (rp_cfg rep))"
      using True rep(2) by (simp add: ready_def b'_def)
    have rl: "records_len b' = records_len b" by (simp add: b'_def)
    note holds = rep_holds_active [OF rep(1) seg'(2,3,5) len']
    have "wrote_batch crc32c w p mm rep (concat bss @ act) [b'] (rep\<lparr>rp_active := seg', rp_size_active := n\<rparr>)" for n
      unfolding wrote_batch_def
      by (rule exI [of _ bss], rule exI [of _ "act @ [b']"])
        (use holds rep(2) seg'(3,4) rl in \<open>simp add: ready_def get_leo_def\<close>)
    then show ?thesis using seg'(1) True by auto
  qed
qed

lemma write_batch_ok:
  assumes rep: "rep_holds crc32c w p rep bss act" "ready mm rep" and b: "storable w p rep b"
    and offsets: "sint (get_leo rep) + int (records_len b) < 2 ^ 63"
      "sint (get_leo rep) + int (records_len b) - sint (sg_base (rp_active rep)) < 2 ^ 32"
  defines "b' \<equiv> set_base_offset (get_leo rep) b"
  obtains rep' where "rp_write_batch crc32c R mm b rep = (Inr (), b', rep')"
    "wrote_batch crc32c w p mm rep (concat bss @ act) [b'] rep'"
proof -
  note app = append_to_active [OF rep b offsets, folded b'_def]
  have short: "\<not> rp_short_circuit rep" using rep(2) by (simp add: ready_def)
  show thesis
  proof (cases "length (fr_file (sg_log (rp_active rep))) + length (wire_batch crc32c w b) \<le> rp_max_segment rep")
    case True
    then show thesis using app short that by (auto simp: rp_write_batch_def)
  next
    case False
    then have full: "append_batch crc32c R b (rp_active rep) = (Inr False, b', rp_active rep)" using app by simp
    have "act \<noteq> []"
    proof
      assume "act = []"
      then have "fr_file (sg_log (rp_active rep)) = []"
        using rep(1) by (simp add: rep_holds_def seg_holds_def log_ok_def)
      then show False using False b storable_length [OF b, of crc32c] by (simp add: storable_def)
    qed
    with rep obtain rep1 where rep1: "roll_over mm rep = (Inr (), rep1)" "rep_holds crc32c w p rep1 (bss @ [act]) []"
        "same_setup rep rep1" "rp_hw rep1 = rp_hw rep" "rp_short_circuit rep1 = rp_short_circuit rep"
        "sg_base (rp_active rep1) = sg_end (rp_active rep)" "get_leo rep1 = get_leo rep"
        "fr_file (sg_log (rp_active rep1)) = []"
      using roll_over_ok [OF rep(1)] by (auto simp: ready_def)
    have ready1: "ready mm rep1" and b1: "storable w p rep1 b'"
      using rep(2) rep1(3,5) b by (simp_all add: ready_def same_setup_def storable_def b'_def)
    have base: "sint (sg_base (rp_active rep)) \<le> sint (sg_end (rp_active rep))"
      using rep(1) seg_holds_grows(1) by (auto simp: rep_holds_def)
    have again: "set_base_offset (get_leo rep1) b' = b'" "records_len b' = records_len b"
      by (simp_all add: rep1(7) b'_def) (simp add: set_base_offset_def)
    have small: "int (records_len b) < 2 ^ 32" using offsets(2) base by (simp add: get_leo_def)
    have "length (wire_batch crc32c w b') \<le> rp_max_segment rep1"
      using b1 storable_length [OF b1, of crc32c] by (simp add: storable_def)
    moreover have "sint (get_leo rep1) + int (records_len b') < 2 ^ 63"
        "sint (get_leo rep1) + int (records_len b') - sint (sg_base (rp_active rep1)) < 2 ^ 32"
      using offsets(1) small by (simp_all add: again rep1(6,7)) (simp add: get_leo_def)
    ultimately obtain seg where seg: "append_batch crc32c R b' (rp_active rep1) = (Inr True, b', seg)"
        "\<And>n. wrote_batch crc32c w p mm rep1 (concat (bss @ [act])) [b'] (rep1\<lparr>rp_active := seg, rp_size_active := n\<rparr>)"
      using append_to_active [OF rep1(2) ready1 b1] rep1(8) again(1) by auto
    let ?rep' = "rep1\<lparr>rp_active := seg, rp_size_active := word_of_nat (seg_occupied seg)\<rparr>"
    have "rp_write_batch crc32c R mm b rep = (Inr (), b', ?rep')"
      using short full rep1(1) seg(1) by (simp add: rp_write_batch_def Let_def)
    moreover have "wrote_batch crc32c w p mm rep (concat bss @ act) [b'] ?rep'"
      using seg(2) [of "word_of_nat (seg_occupied seg)"] rep1 base same_setup_trans [OF rep1(3)]
      by (fastforce simp: wrote_batch_def get_leo_def)
    ultimately show thesis by (rule that)
  qed
qed

end

text \<open>The batches with the base offsets they get when they are stored from \<open>o0\<close> on.\<close>

fun renumber :: "i64 \<Rightarrow> 'r Batch list \<Rightarrow> 'r Batch list" where
  "renumber o0 [] = []"
| "renumber o0 (b # bs) = set_base_offset o0 b # renumber (o0 + word_of_nat (records_len b)) bs"

lemma sum_renumber [simp]: "map records_len (renumber o0 bs) = map records_len bs"
  by (induction bs arbitrary: o0) simp_all

lemma renumber_eq_Nil [simp]: "renumber o0 bs = [] \<longleftrightarrow> bs = []"
  by (cases bs) simp_all

lemma storable_setup: "same_setup rep rep' \<Longrightarrow> storable w p rep' b = storable w p rep b"
  by (simp add: same_setup_def storable_def)

lemma wrote_batch_append:
  assumes "wrote_batch crc32c w p mm rep bs new rep1" "wrote_batch crc32c w p mm rep1 (bs @ new) new' rep2"
  shows "wrote_batch crc32c w p mm rep bs (new @ new') rep2"
proof -
  from assms(2) obtain bss act where "rep_holds crc32c w p rep2 bss act" "concat bss @ act = (bs @ new) @ new'"
    by (auto simp: wrote_batch_def)
  moreover have "same_setup rep rep2" using assms same_setup_trans by (auto simp: wrote_batch_def)
  ultimately show ?thesis using assms unfolding wrote_batch_def
    by (intro exI [of _ bss] exI [of _ act]) auto
qed

context batch_records
begin

lemma check_sizes_ok:
  assumes "list_all (storable w p rep) bs"
  shows "check_sizes crc32c R rep n bs = Inr (n + length (log_bytes crc32c w bs))"
  using assms
proof (induction bs arbitrary: n)
  case (Cons b bs)
  then have b: "storable w p rep b" by simp
  have "write_size (enc_batch crc32c R 0) b = Some (length (wire_batch crc32c w b))"
    using b by (intro size_without_schema) (simp_all add: storable_def)
  then show ?case
    using Cons b storable_length [OF b, of crc32c] by (simp add: storable_def)
qed simp

lemma write_batches_ok:
  assumes "rep_holds crc32c w p rep bss act" "ready mm rep" "list_all (storable w p rep) bs"
    and "sint (get_leo rep) + int (sum_list (map records_len bs)) < 2 ^ 63"
      "sint (get_leo rep) + int (sum_list (map records_len bs)) - sint (sg_base (rp_active rep)) < 2 ^ 32"
  shows "\<exists>rep'. write_batches crc32c R mm bs rep = (Inr (), renumber (get_leo rep) bs, rep') \<and>
           wrote_batch crc32c w p mm rep (concat bss @ act) (renumber (get_leo rep) bs) rep'"
  using assms
proof (induction bs arbitrary: rep bss act)
  case Nil
  then show ?case by (auto simp: wrote_batch_def same_setup_def)
next
  case (Cons b bs)
  have b: "storable w p rep b" and bs: "list_all (storable w p rep) bs" using Cons.prems(3) by simp_all
  have "sint (get_leo rep) + int (records_len b) < 2 ^ 63"
      "sint (get_leo rep) + int (records_len b) - sint (sg_base (rp_active rep)) < 2 ^ 32"
    using Cons.prems(4,5) by simp_all
  with Cons.prems(1,2) b obtain rep1 where
    rep1: "rp_write_batch crc32c R mm b rep = (Inr (), set_base_offset (get_leo rep) b, rep1)"
      "wrote_batch crc32c w p mm rep (concat bss @ act) [set_base_offset (get_leo rep) b] rep1"
    by (rule write_batch_ok)
  then obtain bss1 act1 where holds1: "rep_holds crc32c w p rep1 bss1 act1"
      "concat bss1 @ act1 = (concat bss @ act) @ [set_base_offset (get_leo rep) b]" "ready mm rep1" "same_setup rep rep1"
      "sint (get_leo rep1) = sint (get_leo rep) + int (records_len b)"
      "sint (sg_base (rp_active rep)) \<le> sint (sg_base (rp_active rep1))"
    by (auto simp: wrote_batch_def)
  have "sint (get_leo rep + word_of_nat (records_len b)) = sint (get_leo rep) + int (records_len b)"
    using sint_plus [of "int (records_len b)" "get_leo rep"] Cons.prems(4) by simp
  then have leo1: "get_leo rep1 = get_leo rep + word_of_nat (records_len b)"
    using holds1(5) by (intro sint_eqI) simp
  have "list_all (storable w p rep1) bs" using bs storable_setup [OF holds1(4), of w p] by (simp add: list_all_iff)
  with Cons.IH [OF holds1(1,3) this] holds1(5,6) Cons.prems(4,5) obtain rep2 where
    "write_batches crc32c R mm bs rep1 = (Inr (), renumber (get_leo rep1) bs, rep2)"
    "wrote_batch crc32c w p mm rep1 (concat bss1 @ act1) (renumber (get_leo rep1) bs) rep2"
    by auto
  then show ?case
    using rep1 wrote_batch_append [OF rep1(2), of "renumber (get_leo rep1) bs" rep2] holds1(2)
    by (simp add: leo1)
qed

lemma write_recordset_ok:
  assumes "rep_holds crc32c w p rep bss act" "ready mm rep"
    and "list_all (storable w p rep) (batches rs)"
    and "sint (get_leo rep) + int (total_records rs) < 2 ^ 63"
      "sint (get_leo rep) + int (total_records rs) - sint (sg_base (rp_active rep)) < 2 ^ 32"
  shows "\<exists>rep' bss' act'. write_recordset crc32c R mm rs update_hw rep =
           (Inr (length (log_bytes crc32c w (batches rs))), rs\<lparr>batches := renumber (get_leo rep) (batches rs)\<rparr>, rep') \<and>
         rep_holds crc32c w p rep' bss' act' \<and> ready mm rep' \<and>
         concat bss' @ act' = concat bss @ act @ renumber (get_leo rep) (batches rs) \<and>
         sint (get_leo rep') = sint (get_leo rep) + int (total_records rs) \<and>
         first_offset rep' = first_offset rep \<and>
         rp_hw rep' = (if update_hw then get_leo rep' else rp_hw rep)"
proof -
  have total: "total_records rs = sum_list (map records_len (batches rs))"
    by (simp add: total_records_def)
  obtain rep1 where rep1: "write_batches crc32c R mm (batches rs) rep = (Inr (), renumber (get_leo rep) (batches rs), rep1)"
      "wrote_batch crc32c w p mm rep (concat bss @ act) (renumber (get_leo rep) (batches rs)) rep1"
    using write_batches_ok [OF assms(1-3)] assms(4,5) by (auto simp: total)
  then obtain bss1 act1 where holds1: "rep_holds crc32c w p rep1 bss1 act1" "ready mm rep1"
      "concat bss1 @ act1 = concat bss @ act @ renumber (get_leo rep) (batches rs)"
      "sint (get_leo rep1) = sint (get_leo rep) + int (total_records rs)" "first_offset rep1 = first_offset rep"
      "rp_hw rep1 = rp_hw rep"
    by (auto simp: wrote_batch_def same_setup_def total)
  have same: "rep_holds crc32c w p (rep1\<lparr>rp_hw := h\<rparr>) bss1 act1" "ready mm (rep1\<lparr>rp_hw := h\<rparr>)"
      "get_leo (rep1\<lparr>rp_hw := h\<rparr>) = get_leo rep1" "first_offset (rep1\<lparr>rp_hw := h\<rparr>) = first_offset rep1" for h
    using holds1(1,2) by (simp_all add: rep_holds_def ready_def)
  let ?rep' = "if update_hw then rep1\<lparr>rp_hw := get_leo rep1\<rparr> else rep1"
  have "write_recordset crc32c R mm rs update_hw rep =
      (Inr (length (log_bytes crc32c w (batches rs))), rs\<lparr>batches := renumber (get_leo rep) (batches rs)\<rparr>, ?rep')"
    using check_sizes_ok [OF assms(3), of crc32c 0] rep1(1)
    by (simp add: write_recordset_def update_high_watermark_to_end_def update_high_watermark_def)
  then show ?thesis using holds1 same by (cases update_hw) auto
qed

end

text \<open>
  C2. A record set is stored completely: when every batch is within the size
  limits, all batches are written in order behind the log, rolling over to new
  segments where necessary; they get consecutive offsets from the log end
  offset on, the log end offset moves by the number of records, and the high
  watermark moves to the end exactly when that was asked for. The number
  returned is the number of bytes written.
\<close>

theorem write_recordset_appends:
  fixes rs :: "RawRecords RecordSet"
  assumes "rep_holds crc32c (\<lambda>v. v) (\<lambda>_. True) rep bss act" "ready mm rep"
    and "list_all (storable (\<lambda>v. v) (\<lambda>_. True) rep) (batches rs)"
    and "sint (get_leo rep) + int (total_records rs) < 2 ^ 63"
      "sint (get_leo rep) + int (total_records rs) - sint (sg_base (rp_active rep)) < 2 ^ 32"
  shows "\<exists>rep' bss' act'. write_recordset crc32c enc_raw mm rs update_hw rep =
           (Inr (length (log_bytes crc32c (\<lambda>v. v) (batches rs))), rs\<lparr>batches := renumber (get_leo rep) (batches rs)\<rparr>, rep') \<and>
         rep_holds crc32c (\<lambda>v. v) (\<lambda>_. True) rep' bss' act' \<and> ready mm rep' \<and>
         concat bss' @ act' = concat bss @ act @ renumber (get_leo rep) (batches rs) \<and>
         sint (get_leo rep') = sint (get_leo rep) + int (total_records rs) \<and>
         first_offset rep' = first_offset rep \<and>
         rp_hw rep' = (if update_hw then get_leo rep' else rp_hw rep)"
  by (rule raw.write_recordset_ok [OF assms])

text \<open>A new replica that starts at offset 10, for the examples below.\<close>

definition mm0 :: mapping where
  "mm0 = \<lparr>mm_create = (\<lambda>es. take 4 (es @ replicate 4 (0, 0))), mm_open = (\<lambda>es. if es = [] then [(0, 0)] else es)\<rparr>"

definition rep0 :: FileReplica where
  "rep0 = \<lparr>rp_cfg = \<lparr>segment_max_bytes = 200, index_max_bytes = 32, index_max_interval_bytes = 1\<rparr>,
           rp_active = seg0, rp_prev = shared_from sl_new, rp_hw = 10, rp_size_active = 0, rp_size_prev = 0,
           rp_short_circuit = False, rp_max_request = 1000, rp_max_segment = 200, rp_left = []\<rparr>"

lemma mm0_ok: "mapping_ok mm0"
  by (auto simp: mapping_ok_def mm0_def min_def)

lemma rep0_simps:
  "first_offset rep0 = 10" "get_leo rep0 = 10" "sg_base (rp_active rep0) = 10" "rp_segs rep0 = []"
  by (simp_all add: rep0_def first_offset_def rp_segs_def shared_from_def sl_new_def seg0_def get_leo_def)

lemma rep0_holds: "rep_holds (\<lambda>_. 0) (\<lambda>v. v) (\<lambda>_. True) rep0 [] []"
  using seg0_holds
  by (simp add: rep_holds_def rep0_simps sl_ok_def)
    (simp add: rep0_def shared_from_def sl_new_def seg0_def fr_create_def)

lemma rep0_ready: "ready mm0 rep0"
  by (simp add: ready_def mm0_ok) (simp add: rep0_def)

lemma storable_one_record: "storable (\<lambda>v. v) (\<lambda>_. True) rep0 one_record"
  by (simp add: storable_def one_record_simps)
    (simp add: one_record_def set_offset_delta_def default_batch_def rep0_def BATCH_FILE_HEADER_SIZE_def
      BATCH_PREAMBLE_SIZE_def BATCH_HEADER_SIZE_def)

theorem write_recordset_appends_witness:
  "\<exists>rep' bss' act'. write_recordset (\<lambda>_. 0) enc_raw mm0 \<lparr>batches = [one_record, one_record, one_record, one_record]\<rparr> True rep0 =
       (Inr 244, \<lparr>batches = renumber 10 ([one_record, one_record, one_record, one_record])\<rparr>, rep') \<and>
     rep_holds (\<lambda>_. 0) (\<lambda>v. v) (\<lambda>_. True) rep' bss' act' \<and>
     concat bss' @ act' = renumber 10 ([one_record, one_record, one_record, one_record]) \<and> sint (get_leo rep') = 14 \<and> rp_hw rep' = get_leo rep'"
proof -
  have "list_all (storable (\<lambda>v. v) (\<lambda>_. True) rep0) (batches \<lparr>batches = [one_record, one_record, one_record, one_record]\<rparr>)"
    using storable_one_record by simp
  from write_recordset_appends [OF rep0_holds rep0_ready this, of True] show ?thesis
    by (auto simp: total_records_def one_record_simps rep0_simps log_bytes_def)
qed

section \<open>Finding the segment of an offset\<close>

lemma filter_upto_segment:
  assumes "segs_hold crc32c w p o0 (ss1 @ (k, s) # ss2) bss" "k \<le> x" "x < sint (rs_end s)" "lo \<le> o0"
  shows "filter (\<lambda>e. lo \<le> fst e \<and> fst e \<le> x) (ss1 @ (k, s) # ss2) = ss1 @ [(k, s)]"
proof -
  obtain bss1 bs bss2 where h: "segs_hold crc32c w p o0 ss1 bss1" "k = segs_end o0 ss1" "rs_holds crc32c w p s bs"
      "bs \<noteq> []" "sint (rs_base s) = k" "segs_hold crc32c w p (sint (rs_end s)) ss2 bss2"
    using assms(1) by (auto simp: segs_hold_append)
  have "lo \<le> k' \<and> k' \<le> x" if "(k', s') \<in> set ss1" for k' s'
    using segs_hold_keys [OF h(1) that] h(2) assms(2,4) by simp
  then have "filter (\<lambda>e. lo \<le> fst e \<and> fst e \<le> x) ss1 = ss1" by (auto simp: filter_id_conv)
  moreover have "\<not> k' \<le> x" if "(k', s') \<in> set ss2" for k' s'
    using segs_hold_keys [OF h(6) that] assms(3) by simp
  then have "filter (\<lambda>e. lo \<le> fst e \<and> fst e \<le> x) ss2 = []" by (auto simp: filter_empty_conv)
  moreover have "o0 \<le> k" using segs_end_ge [OF h(1)] h(2) by simp
  ultimately show ?thesis using assms(2,4) by simp
qed

lemma sint_range_lo:
  fixes x mx mn :: i64
  assumes "0 \<le> sint mn" "sint mn \<le> sint x" "sint x < sint mx"
  shows "sint (x - mx + mn + 1) = sint x - sint mx + sint mn + 1"
proof -
  have "x - mx + mn + 1 = word_of_int (sint x - sint mx + sint mn + 1)" by simp
  moreover have "- (2 ^ 63) \<le> sint x - sint mx + sint mn + 1" "sint x - sint mx + sint mn + 1 < 2 ^ 63"
    using assms sint_less_power [of x] sint_less_power [of mx] sint_less_power [of mn] by linarith+
  ultimately show ?thesis by (simp only: sint_word_of_int)
qed

lemma find_segment_ok:
  assumes segs: "segs_hold crc32c w p o0 (sl_segments sl) bss" and "0 \<le> o0" "sl_ok o0 sl"
    and off: "o0 \<le> sint offset" "sint offset < segs_end o0 (sl_segments sl)"
    and split: "sl_segments sl = ss1 @ (k, s) # ss2" "k \<le> sint offset" "sint offset < sint (rs_end s)"
  shows "find_segment offset sl = Inr (Some (k, s))"
proof -
  have ne: "sl_segments sl \<noteq> []" using split by simp
  have bound: "segs_end o0 (sl_segments sl) < 2 ^ 63"
  proof -
    have "segs_end o1 (ts @ [(k1, s1)]) < 2 ^ 63" for o1 ts k1 s1
      using sint_less_power(1) [of "rs_end s1"] by simp
    then show ?thesis using ne by (metis append_butlast_last_id prod.collapse)
  qed
  then have mn: "sint (sl_min sl) = o0" and mx: "sint (sl_max sl) = segs_end o0 (sl_segments sl)"
    using assms(2,3) ne off by (simp_all add: sl_ok_def sint_word_of_int)
  have inside: "filter (\<lambda>e. lo \<le> fst e \<and> fst e \<le> sint offset) (sl_segments sl) = ss1 @ [(k, s)]" if "lo \<le> o0" for lo
    using filter_upto_segment [of crc32c w p o0 ss1 k s ss2 bss "sint offset" lo] segs split that by simp
  show ?thesis
  proof (cases "offset = sl_min sl")
    case True
    then show ?thesis using mn inside [of "sint offset"] by (simp add: find_segment_def range_last_def)
  next
    case False
    have lo: "sint (offset - sl_max sl + sl_min sl + 1) = sint offset - sint (sl_max sl) + sint (sl_min sl) + 1"
      using assms(2) mn mx off by (intro sint_range_lo) simp_all
    then have "sint (offset - sl_max sl + sl_min sl + 1) \<le> o0" using mn mx off by simp
    from inside [OF this] show ?thesis
      using False mn mx off lo by (simp add: find_segment_def range_last_def)
  qed
qed

section \<open>What a read returns\<close>

lemma chain_last_end:
  assumes "chain o0 bs" "bs \<noteq> []"
  shows "batch_end (last bs) = chain_end o0 bs"
proof -
  obtain cs c where bs: "bs = cs @ [c]" using assms(2) by (cases bs rule: rev_cases) auto
  then show ?thesis using assms(1) by (simp add: batch_end_def)
qed

lemma segs_batches:
  assumes "segs_hold crc32c w p o0 ss bss" "b \<in> set (concat bss)"
  shows "batch_end b \<le> segs_end o0 ss"
  using assms
proof (induction ss arbitrary: o0 bss)
  case (Cons e ss)
  obtain k s where e: "e = (k, s)" by (cases e)
  with Cons.prems obtain bs bss' where h: "bss = bs # bss'" "rs_holds crc32c w p s bs"
      "segs_hold crc32c w p (sint (rs_end s)) ss bss'" by auto
  have "batch_end b \<le> sint (rs_end s)" if "b \<in> set bs"
    using h(2) chain_before [of _ bs b] that by (auto simp: rs_holds_def log_ok_def batch_end_def)
  then show ?case
    using Cons.IH [OF h(3)] Cons.prems(2) segs_end_ge [OF h(3)] by (auto simp: e h(1))
qed simp

text \<open>A read within the segment that holds \<open>start\<close> gives a beginning of what the whole log has to offer.\<close>

lemma between_in_segment:
  assumes pre: "\<And>b. b \<in> set pre \<Longrightarrow> batch_end b \<le> start" and seg: "chain o0 seg" "start < chain_end o0 seg" "o0 \<le> start"
  obtains rest where
    "batches_between (pre @ seg @ post) start limit = batches_between seg start (min limit (chain_end o0 seg)) @ rest"
    "batches_between seg start (min limit (chain_end o0 seg)) = [] \<Longrightarrow> rest = []"
    "post = [] \<Longrightarrow> rest = []"
proof -
  let ?from = "dropWhile (\<lambda>b. batch_end b \<le> start) seg"
  have "seg \<noteq> []" using seg(2,3) by auto
  then have "\<not> batch_end (last seg) \<le> start" "last seg \<in> set seg" using chain_last_end [OF seg(1)] seg(2) by simp_all
  then have drop: "dropWhile (\<lambda>b. batch_end b \<le> start) (pre @ seg @ post) = ?from @ post" and ne: "?from \<noteq> []"
    using pre by (auto simp: dropWhile_append2 dropWhile_append1 dropWhile_eq_Nil_conv)
  have "batch_end b \<le> chain_end o0 seg" if "b \<in> set ?from" for b
    using chain_before [OF seg(1), of b] set_dropWhileD [OF that] by (simp add: batch_end_def)
  then have same: "takeWhile (\<lambda>b. batch_end b \<le> min limit (chain_end o0 seg)) ?from =
      takeWhile (\<lambda>b. batch_end b \<le> limit) ?from"
    by (intro takeWhile_cong) auto
  let ?rest = "if \<forall>b \<in> set ?from. batch_end b \<le> limit then takeWhile (\<lambda>b. batch_end b \<le> limit) post else []"
  show thesis
  proof (rule that)
    show "batches_between (pre @ seg @ post) start limit =
        batches_between seg start (min limit (chain_end o0 seg)) @ ?rest"
      unfolding batches_between_def drop same
      by (auto simp: takeWhile_append2 takeWhile_append1 takeWhile_eq_all_conv [THEN iffD2])
    show "?rest = []" if "batches_between seg start (min limit (chain_end o0 seg)) = []"
      using that ne unfolding batches_between_def same by (cases ?from) (auto split: if_splits)
  qed simp
qed

lemma existing_active:
  assumes "rep_holds crc32c w p rep bss act"
  shows "fst (existing (sint (sg_base (rp_active rep))) (dir_files rep)) = fr_file (sg_log (rp_active rep))"
proof -
  have segs: "segs_hold crc32c w p (first_offset rep) (rp_segs rep) bss"
      "segs_end (first_offset rep) (rp_segs rep) = sint (sg_base (rp_active rep))"
    using assms by (simp_all add: rep_holds_def)
  let ?prev = "map (\<lambda>(k, s). (k, rs_file s, rs_index s)) (rp_segs rep)"
  have "sint (sg_base (rp_active rep)) \<notin> fst ` set ?prev"
    using segs_hold_keys [OF segs(1)] segs(2) by fastforce
  then have "map_of ?prev (sint (sg_base (rp_active rep))) = None" by (simp add: map_of_eq_None_iff)
  then show ?thesis
    by (simp add: existing_def dir_files_def dir_with_def rp_segs_def map_add_def)
qed

lemma existing_prev:
  assumes "rep_holds crc32c w p rep bss act" "(k, s) \<in> set (rp_segs rep)"
  shows "fst (existing k (dir_files rep)) = rs_file s"
proof -
  let ?prev = "map (\<lambda>(k, s). (k, rs_file s, rs_index s)) (rp_segs rep)"
  have "bt_wf (rp_segs rep)" using assms(1) segs_hold_sorted by (auto simp: rep_holds_def)
  then have "distinct (map fst ?prev)" using bt_wf_distinct by (auto simp: comp_def case_prod_beta)
  moreover have "(k, rs_file s, rs_index s) \<in> set ?prev" using assms(2) by force
  ultimately have "map_of ?prev k = Some (rs_file s, rs_index s)" by (rule map_of_is_SomeI)
  then show ?thesis
    by (simp add: existing_def dir_files_def dir_with_def rp_segs_def map_add_def map_of_append split: option.splits)
qed

definition log_limit :: "FileReplica \<Rightarrow> i64 option \<Rightarrow> int" where
  "log_limit rep max_offset = (case max_offset of None \<Rightarrow> sint (get_leo rep) | Some m \<Rightarrow> min (sint m) (sint (get_leo rep)))"

definition slice_header :: "FileReplica \<Rightarrow> log_slice \<Rightarrow> ReplicaSlice" where
  "slice_header rep s = \<lparr>rsl_hw = rp_hw rep, rsl_leo = get_leo rep, rsl_start = get_log_start_offset rep, rsl_slice = Some s\<rparr>"

lemma take_slice:
  "take len (drop pos f) = x \<Longrightarrow> existing k (dir_files rep) = (f, es) \<Longrightarrow>
     slice_bytes rep (limit_slice max_len (k, pos, len)) = take (unat max_len) x"
  by (auto simp: slice_bytes_def limit_slice_def min.commute)

lemma log_start_offset:
  assumes "rep_holds crc32c w p rep bss act"
  shows "sint (get_log_start_offset rep) = first_offset rep"
proof (cases "rp_segs rep")
  case Nil
  then show ?thesis using assms
    by (simp add: get_log_start_offset_def rep_holds_def sl_ok_def rp_segs_def first_offset_def)
next
  case (Cons e ss)
  then obtain k s where e: "e = (k, s)" "first_offset rep = sint (rs_base s)"
    using assms by (cases e) (auto simp: rep_holds_def)
  then have "ss_min (rp_prev rep) = rs_base s"
    using assms Cons by (simp add: rep_holds_def sl_ok_def rp_segs_def)
  then show ?thesis using assms e(2) by (auto simp: get_log_start_offset_def rep_holds_def)
qed

text \<open>
  The batches one read takes: those of the segment that holds the start offset,
  from the batch with that offset on, all below the limit.
\<close>

definition segment_read :: "'r Batch list list \<Rightarrow> int \<Rightarrow> int \<Rightarrow> 'r Batch list \<Rightarrow> bool" where
  "segment_read segs start limit part \<longleftrightarrow>
     (\<exists>pre seg post. segs = pre @ seg # post \<and> (\<forall>b \<in> set (concat pre). batch_end b \<le> start) \<and>
        (\<exists>b \<in> set seg. start < batch_end b) \<and> part = batches_between seg start limit)"

lemma chain_holds_offset:
  assumes "chain o0 bs" "o0 \<le> x" "x < chain_end o0 bs"
  shows "\<exists>b \<in> set bs. x < batch_end b"
proof -
  have "bs \<noteq> []" using assms(2,3) by auto
  then show ?thesis using chain_last_end [OF assms(1)] assms(3) by (intro bexI [of _ "last bs"]) auto
qed

lemma between_clip:
  assumes "chain o0 bs"
  shows "batches_between bs x (min l (chain_end o0 bs)) = batches_between bs x l"
proof -
  have "batch_end b \<le> chain_end o0 bs" if "b \<in> set bs" for b
    using chain_before [OF assms that] by (simp add: batch_end_def)
  then show ?thesis
    unfolding batches_between_def by (intro takeWhile_cong) (auto dest: set_dropWhileD)
qed

lemma read_active:
  assumes rep: "rep_holds crc32c w p rep bss act"
    and start: "sint (sg_base (rp_active rep)) \<le> sint start" "sint start < sint (get_leo rep)"
      "sint start \<le> log_limit rep max_offset"
  obtains s where "read_records short start max_offset max_len rep = Some (Inr (slice_header rep s))"
    "slice_bytes rep s = take (unat max_len)
       (log_bytes crc32c w (batches_between (concat bss @ act) (sint start) (log_limit rep max_offset)))"
    "segment_read (bss @ [act]) (sint start) (log_limit rep max_offset)
       (batches_between (concat bss @ act) (sint start) (log_limit rep max_offset))"
proof -
  let ?active = "rp_active rep" and ?lim = "log_limit rep max_offset"
  have holds: "seg_holds crc32c w p ?active act"
    and segs: "segs_hold crc32c w p (first_offset rep) (rp_segs rep) bss"
      "segs_end (first_offset rep) (rp_segs rep) = sint (sg_base ?active)"
    using rep by (simp_all add: rep_holds_def)
  have log: "fr_file (sg_log ?active) = log_bytes crc32c w act" "chain (sint (sg_base ?active)) act"
      "sint (sg_end ?active) = chain_end (sint (sg_base ?active)) act"
    using holds by (simp_all add: seg_holds_def log_ok_def)
  have lim: "read_limit (active_view ?active) max_offset = ?lim"
    by (simp add: read_limit_def log_limit_def get_leo_def split: option.splits)
  have lim_le: "?lim \<le> sint (sg_end ?active)"
    by (simp add: log_limit_def get_leo_def split: option.splits)
  let ?pos = "length (log_bytes crc32c w (takeWhile (\<lambda>b. batch_end b \<le> sint start) act))"
  let ?len = "length (log_bytes crc32c w (batches_between act (sint start) ?lim))"
  have slice: "records_slice short (active_view ?active) start max_offset = Some (Inr (Some (?pos, ?len)))"
    using active.slice_exact [OF holds, of start max_offset short] start lim by (simp add: get_leo_def)
  have before: "batch_end b \<le> sint start" if "b \<in> set (concat bss)" for b
    using segs_batches [OF segs(1) that] segs(2) start(1) by simp
  then obtain rest where "batches_between (concat bss @ act @ []) (sint start) ?lim =
      batches_between act (sint start) (min ?lim (chain_end (sint (sg_base ?active)) act)) @ rest" "rest = []"
    using between_in_segment [of "concat bss" "sint start" "sint (sg_base ?active)" act "[]" ?lim] log start
    by (auto simp: get_leo_def)
  then have between: "batches_between (concat bss @ act) (sint start) ?lim = batches_between act (sint start) ?lim"
    using lim_le log(3) by (simp add: min_absorb1)
  let ?s = "limit_slice max_len (sint (sg_base ?active), ?pos, ?len)"
  have "read_records short start max_offset max_len rep = Some (Inr (slice_header rep ?s))"
    using start slice by (auto simp: read_records_def Let_def slice_header_def)
  moreover have "slice_bytes rep ?s = take (unat max_len) (log_bytes crc32c w (batches_between act (sint start) ?lim))"
    using take_slice [OF slice_content, of "sint (sg_base ?active)" rep crc32c w act] existing_active [OF rep] log(1)
    by (metis prod.collapse)
  moreover have "segment_read (bss @ [act]) (sint start) ?lim (batches_between act (sint start) ?lim)"
    unfolding segment_read_def using before chain_holds_offset [OF log(2) start(1)] start(2) log(3)
    by (intro exI [of _ bss] exI [of _ act] exI [of _ "[]"]) (simp add: get_leo_def)
  ultimately show thesis using that between by simp
qed

lemma read_closed:
  assumes rep: "rep_holds crc32c w p rep bss act"
    and start: "first_offset rep \<le> sint start" "sint start < sint (sg_base (rp_active rep))"
      "sint start \<le> log_limit rep max_offset"
  obtains s part rest where "read_records short start max_offset max_len rep = Some (Inr (slice_header rep s))"
    "slice_bytes rep s = take (unat max_len) (log_bytes crc32c w part)"
    "batches_between (concat bss @ act) (sint start) (log_limit rep max_offset) = part @ rest" "part = [] \<longrightarrow> rest = []"
    "segment_read (bss @ [act]) (sint start) (log_limit rep max_offset) part"
proof -
  let ?lim = "log_limit rep max_offset"
  have segs: "segs_hold crc32c w p (first_offset rep) (rp_segs rep) bss"
      "segs_end (first_offset rep) (rp_segs rep) = sint (sg_base (rp_active rep))"
      "0 \<le> first_offset rep" "sl_ok (first_offset rep) (ss_list (rp_prev rep))"
    using rep by (simp_all add: rep_holds_def)
  from segs(1) start(1,2) [folded segs(2)] obtain ss1 k s ss2 bss1 bs bss2 where
    split: "rp_segs rep = ss1 @ (k, s) # ss2" "bss = bss1 @ bs # bss2"
      "segs_hold crc32c w p (first_offset rep) ss1 bss1" "rs_holds crc32c w p s bs" "bs \<noteq> []"
      "segs_hold crc32c w p (sint (rs_end s)) ss2 bss2" "k = segs_end (first_offset rep) ss1" "sint (rs_base s) = k"
      "k \<le> sint start" "sint start < sint (rs_end s)"
    by (rule segs_hold_split)
  have log: "rs_file s = log_bytes crc32c w bs" "chain (sint (rs_base s)) bs"
      "sint (rs_end s) = chain_end (sint (rs_base s)) bs"
    using split(4) by (simp_all add: rs_holds_def log_ok_def)
  have e_le: "sint (rs_end s) \<le> sint (get_leo rep)"
  proof -
    have "(k, s) \<in> set (rp_segs rep)" using split(1) by simp
    from segs_hold_keys(3) [OF segs(1) this] have "sint (rs_end s) \<le> sint (sg_base (rp_active rep))"
      using segs(2) by simp
    also have "\<dots> \<le> sint (get_leo rep)"
      using rep seg_holds_grows(1) by (auto simp: rep_holds_def get_leo_def)
    finally show ?thesis .
  qed
  then have lim: "read_limit (closed_view s) max_offset = min ?lim (sint (rs_end s))"
    by (auto simp: read_limit_def log_limit_def min_def split: option.splits)
  have found: "find_segment start (ss_list (rp_prev rep)) = Inr (Some (k, s))"
    using find_segment_ok [of crc32c w p "first_offset rep" "ss_list (rp_prev rep)" bss start ss1 k s ss2]
      segs start split(1,9,10) by (simp add: rp_segs_def)
  let ?part = "batches_between bs (sint start) (min ?lim (sint (rs_end s)))"
  let ?pos = "length (log_bytes crc32c w (takeWhile (\<lambda>b. batch_end b \<le> sint start) bs))"
  have slice: "records_slice short (closed_view s) start max_offset =
      Some (Inr (Some (?pos, length (log_bytes crc32c w ?part))))"
    using closed.slice_exact [OF split(4), of start max_offset short] split(8,9,10) start(3) lim by simp
  have before: "batch_end b \<le> sint start" if "b \<in> set (concat bss1)" for b
    using segs_batches [OF split(3) that] split(7,9) by simp
  moreover have inside: "sint start < chain_end (sint (rs_base s)) bs" "sint (rs_base s) \<le> sint start"
    using log(3) split(8,9,10) by simp_all
  ultimately obtain rest where rest: "batches_between (concat bss1 @ bs @ concat bss2 @ act) (sint start) ?lim =
      batches_between bs (sint start) (min ?lim (chain_end (sint (rs_base s)) bs)) @ rest"
      "batches_between bs (sint start) (min ?lim (chain_end (sint (rs_base s)) bs)) = [] \<Longrightarrow> rest = []"
    using between_in_segment [of "concat bss1" "sint start" "sint (rs_base s)" bs] log(2) by metis
  let ?s = "limit_slice max_len (k, ?pos, length (log_bytes crc32c w ?part))"
  have "read_records short start max_offset max_len rep = Some (Inr (slice_header rep ?s))"
    using start(2) slice found by (simp add: read_records_def Let_def slice_header_def find_slice_def)
  moreover have "slice_bytes rep ?s = take (unat max_len) (log_bytes crc32c w ?part)"
    using take_slice [OF slice_content, of k rep crc32c w bs] existing_prev [OF rep, of k s] split(1) log(1)
    by (metis in_set_conv_decomp prod.collapse)
  moreover have "segment_read (bss @ [act]) (sint start) ?lim ?part"
    unfolding segment_read_def log(3) between_clip [OF log(2)]
    using before chain_holds_offset [OF log(2) inside(2,1)] split(2)
    by (intro exI [of _ bss1] exI [of _ bs] exI [of _ "bss2 @ [act]"]) simp
  ultimately show thesis
    using that [of ?s ?part rest] rest log(3) split(2) by simp
qed

lemma chain_in_takeWhile:
  assumes "chain o0 bs" "b \<in> set bs" "batch_end b \<le> x"
  shows "b \<in> set (takeWhile (\<lambda>b. batch_end b \<le> x) bs)"
proof -
  obtain pre post where bs: "bs = pre @ b # post" using assms(2) by (auto simp: in_set_conv_decomp)
  have "batch_end c \<le> x" if "c \<in> set pre" for c
    using chain_before [of o0 pre c] assms(1,3) that by (auto simp: bs batch_end_def)
  then show ?thesis using assms(3) by (simp add: bs takeWhile_append2)
qed

definition isolation_limit :: "FileReplica \<Rightarrow> Isolation \<Rightarrow> int" where
  "isolation_limit rep isolation =
     (case isolation of ReadCommitted \<Rightarrow> min (sint (rp_hw rep)) (sint (get_leo rep)) | ReadUncommitted \<Rightarrow> sint (get_leo rep))"

lemma read_partition_limit:
  "read_partition_slice short start max_len isolation rep =
     read_records short start (case isolation of ReadCommitted \<Rightarrow> Some (rp_hw rep) | ReadUncommitted \<Rightarrow> None) max_len rep"
  "log_limit rep (case isolation of ReadCommitted \<Rightarrow> Some (rp_hw rep) | ReadUncommitted \<Rightarrow> None) = isolation_limit rep isolation"
  by (simp_all add: read_partition_slice_def log_limit_def isolation_limit_def split: Isolation.splits)

lemma read_partition_ok:
  assumes "rep_holds crc32c w p rep bss act"
    and "first_offset rep \<le> sint start" "sint start < sint (get_leo rep)" "sint start \<le> isolation_limit rep isolation"
  shows "\<exists>s part rest. read_partition_slice short start max_len isolation rep = Some (Inr (slice_header rep s)) \<and>
           slice_bytes rep s = take (unat max_len) (log_bytes crc32c w part) \<and>
           batches_between (concat bss @ act) (sint start) (isolation_limit rep isolation) = part @ rest \<and>
           (part = [] \<longrightarrow> rest = []) \<and> segment_read (bss @ [act]) (sint start) (isolation_limit rep isolation) part"
proof -
  define m where "m = (case isolation of ReadCommitted \<Rightarrow> Some (rp_hw rep) | ReadUncommitted \<Rightarrow> None)"
  have read: "read_partition_slice short start max_len isolation rep = read_records short start m max_len rep"
    unfolding m_def by (rule read_partition_limit(1))
  have lim: "log_limit rep m = isolation_limit rep isolation"
    unfolding m_def by (rule read_partition_limit(2))
  have below: "sint start \<le> log_limit rep m" using assms(4) lim by simp
  show ?thesis
  proof (cases "sint (sg_base (rp_active rep)) \<le> sint start")
    case True
    obtain s where "read_records short start m max_len rep = Some (Inr (slice_header rep s))"
      "slice_bytes rep s = take (unat max_len) (log_bytes crc32c w
         (batches_between (concat bss @ act) (sint start) (log_limit rep m)))"
      "segment_read (bss @ [act]) (sint start) (log_limit rep m) (batches_between (concat bss @ act) (sint start) (log_limit rep m))"
      by (rule read_active [OF assms(1) True assms(3) below])
    then show ?thesis unfolding read lim
      by (intro exI [of _ s] exI [of _ "batches_between (concat bss @ act) (sint start) (isolation_limit rep isolation)"]
          exI [of _ "[]"]) simp
  next
    case False
    then have less: "sint start < sint (sg_base (rp_active rep))" by simp
    obtain s part rest where "read_records short start m max_len rep = Some (Inr (slice_header rep s))"
      "slice_bytes rep s = take (unat max_len) (log_bytes crc32c w part)"
      "batches_between (concat bss @ act) (sint start) (log_limit rep m) = part @ rest" "part = [] \<longrightarrow> rest = []"
      "segment_read (bss @ [act]) (sint start) (log_limit rep m) part"
      by (rule read_closed [OF assms(1,2) less below, where short = short and max_len = max_len])
    then show ?thesis unfolding read lim
      by (intro exI [of _ s] exI [of _ part] exI [of _ rest]) simp
  qed
qed

text \<open>
  C3. A read returns what was written: for a start offset in the log that is
  not beyond the high watermark (committed reads) or the end (uncommitted
  ones), the slice holds the whole batches of the segment with the start offset,
  from the batch with that offset on and all below that limit, cut off at the
  length limit. They are the first of such batches in the whole log, so a read
  stops early only at a segment boundary, and it is empty only when the log has
  no such batch at all.
\<close>

theorem read_returns_log:
  fixes act :: "RawRecords Batch list"
  assumes "rep_holds crc32c (\<lambda>v. v) (\<lambda>_. True) rep bss act"
    and "first_offset rep \<le> sint start" "sint start < sint (get_leo rep)" "sint start \<le> isolation_limit rep isolation"
  shows "\<exists>s part rest. read_partition_slice short start max_len isolation rep = Some (Inr (slice_header rep s)) \<and>
           slice_bytes rep s = take (unat max_len) (log_bytes crc32c (\<lambda>v. v) part) \<and>
           batches_between (concat bss @ act) (sint start) (isolation_limit rep isolation) = part @ rest \<and>
           (part = [] \<longrightarrow> rest = []) \<and>
           segment_read (bss @ [act]) (sint start) (isolation_limit rep isolation) part"
  by (rule read_partition_ok [OF assms])

lemma four_records:
  obtains rep bss act where "rep_holds (\<lambda>_. 0) (\<lambda>v. v) (\<lambda>_. True) rep bss act" "first_offset rep = 10"
    "concat bss @ act = renumber 10 [one_record, one_record, one_record, one_record]" "get_leo rep = 14" "rp_hw rep = 10"
proof -
  let ?bs = "[one_record, one_record, one_record, one_record]"
  have "list_all (storable (\<lambda>v. v) (\<lambda>_. True) rep0) ?bs" using storable_one_record by simp
  from raw.write_batches_ok [OF rep0_holds rep0_ready this] obtain rep where
    "wrote_batch (\<lambda>_. 0) (\<lambda>v. v) (\<lambda>_. True) mm0 rep0 [] (renumber 10 ?bs) rep"
    by (auto simp: rep0_simps one_record_simps)
  then obtain bss act where holds: "rep_holds (\<lambda>_. 0) (\<lambda>v. v) (\<lambda>_. True) rep bss act" "first_offset rep = 10"
      "concat bss @ act = renumber 10 ?bs" "sint (get_leo rep) = 14" "rp_hw rep = 10"
    by (auto simp: wrote_batch_def same_setup_def rep0_simps one_record_simps) (auto simp: rep0_def)
  have "get_leo rep = 14" using holds(4) by (intro sint_eqI) simp
  then show thesis using that holds by blast
qed

theorem read_returns_log_witness:
  "\<exists>rep s part rest. read_partition_slice (\<lambda>_. 3) 11 50 ReadCommitted rep = Some (Inr (slice_header rep s)) \<and>
     slice_bytes rep s = take 50 (log_bytes (\<lambda>_. 0) (\<lambda>v. v) part) \<and>
     part @ rest = [set_base_offset 11 one_record, set_base_offset 12 one_record] \<and> part \<noteq> []"
proof -
  obtain rep bss and act :: "RawRecords Batch list" where
    rep: "rep_holds (\<lambda>_. 0) (\<lambda>v. v) (\<lambda>_. True) rep bss act" "first_offset rep = 10"
      "concat bss @ act = renumber 10 [one_record, one_record, one_record, one_record]" "get_leo rep = 14"
    by (rule four_records)
  let ?rep = "rep\<lparr>rp_hw := 13\<rparr>"
  have "rep_holds (\<lambda>_. 0) (\<lambda>v. v) (\<lambda>_. True) ?rep bss act" using rep(1) by (simp add: rep_holds_def)
  moreover have "isolation_limit ?rep ReadCommitted = 13" using rep(4) by (simp add: isolation_limit_def)
  moreover have "batches_between (concat bss @ act) 11 13 = [set_base_offset 11 one_record, set_base_offset 12 one_record]"
    unfolding rep(3) by (simp add: batches_between_def batch_end_def one_record_simps)
  ultimately obtain s part rest where
    "read_partition_slice (\<lambda>_. 3) 11 50 ReadCommitted ?rep = Some (Inr (slice_header ?rep s))"
    "slice_bytes ?rep s = take (unat (50 :: u32)) (log_bytes (\<lambda>_. 0) (\<lambda>v. v) part)"
    "[set_base_offset 11 one_record, set_base_offset 12 one_record] = part @ rest" "part = [] \<longrightarrow> rest = []"
    using read_returns_log [of "\<lambda>_. 0" ?rep bss act 11 ReadCommitted "\<lambda>_. 3" 50] rep(2,4) by auto
  then show ?thesis by (intro exI [of _ ?rep] exI [of _ s] exI [of _ part] exI [of _ rest]) auto
qed

text \<open>
  C38. A committed read from beyond the high watermark is not refused. When a
  batch boundary lies between the high watermark and the start offset, both in
  the active segment, the length of the slice is a negative difference that
  wraps around: the reader gets the log from its start offset to the end of the
  file, up to the length limit, and none of it is committed.
\<close>

theorem committed_read_beyond_hw:
  fixes act :: "RawRecords Batch list"
  assumes "rep_holds crc32c (\<lambda>v. v) (\<lambda>_. True) rep bss act"
    and "sint (sg_base (rp_active rep)) \<le> sint (rp_hw rep)" "sint (rp_hw rep) < sint start" "sint start < sint (get_leo rep)"
    and "b \<in> set act" "sint (rp_hw rep) < batch_end b" "batch_end b \<le> sint start"
  shows "\<exists>s. read_partition_slice short start max_len ReadCommitted rep = Some (Inr (slice_header rep s)) \<and>
           slice_bytes rep s = take (unat max_len) (log_bytes crc32c (\<lambda>v. v) (dropWhile (\<lambda>b. batch_end b \<le> sint start) act))"
proof -
  let ?active = "rp_active rep" and ?file = "log_bytes crc32c (\<lambda>v. v) act"
  let ?upto = "\<lambda>x. length (log_bytes crc32c (\<lambda>v. v) (takeWhile (\<lambda>b. batch_end b \<le> x) act))"
  let ?ps = "?upto (sint start)" and ?ph = "?upto (sint (rp_hw rep))"
  have holds: "seg_holds crc32c (\<lambda>v. v) (\<lambda>_. True) ?active act" using assms(1) by (simp add: rep_holds_def)
  have log: "fr_file (sg_log ?active) = ?file" "length ?file < 2 ^ 32"
    using holds by (auto simp: seg_holds_def log_ok_def)
  obtain h where fs: "find_offset_position short (active_view ?active) start = Some (Inr (Some (h, word_of_nat ?ps)))"
    using active.find_position [OF holds, of start short] assms(2-4) by (auto simp: get_leo_def)
  obtain h' where fh: "find_offset_position short (active_view ?active) (rp_hw rep) = Some (Inr (Some (h', word_of_nat ?ph)))"
    using active.find_position [OF holds, of "rp_hw rep" short] assms(2-4) by (auto simp: get_leo_def)
  have whole: "?file = log_bytes crc32c (\<lambda>v. v) (takeWhile (\<lambda>b. batch_end b \<le> sint start) act) @
      log_bytes crc32c (\<lambda>v. v) (dropWhile (\<lambda>b. batch_end b \<le> sint start) act)"
    by (simp only: log_bytes_simps(3) [symmetric] takeWhile_dropWhile_id)
  have below: "takeWhile (\<lambda>b. batch_end b \<le> sint start) act = takeWhile (\<lambda>b. batch_end b \<le> sint (rp_hw rep)) act @
      batches_between act (sint (rp_hw rep)) (sint start)"
    unfolding batches_between_def using assms(3) by (intro takeWhile_weaken) simp
  have "b \<in> set (takeWhile (\<lambda>b. batch_end b \<le> sint start) act)"
    using holds assms(5,7) chain_in_takeWhile by (auto simp: seg_holds_def log_ok_def)
  moreover have "b \<notin> set (takeWhile (\<lambda>b. batch_end b \<le> sint (rp_hw rep)) act)"
    using assms(6) set_takeWhileD by fastforce
  ultimately have "batches_between act (sint (rp_hw rep)) (sint start) \<noteq> []" unfolding below by auto
  then have less: "?ph < ?ps" unfolding below by (cases "batches_between act (sint (rp_hw rep)) (sint start)") auto
  have ps: "?ps \<le> length ?file" by (subst whole) simp
  let ?len = "word_of_nat ?ph - word_of_nat ?ps :: u32"
  have words: "unat (word_of_nat ?ps :: u32) = ?ps" "unat (word_of_nat ?ph :: u32) = ?ph"
    using less ps log(2) by (simp_all add: unat_of_nat)
  then have len: "unat ?len = ?ph + 2 ^ 32 - ?ps"
    using less by (simp add: unat_sub_if_size word_size)
  have slice: "records_slice short (active_view ?active) start (Some (rp_hw rep)) = Some (Inr (Some (?ps, unat ?len)))"
  proof -
    have "rp_hw rep \<noteq> sg_end ?active" "sint (rp_hw rep) \<le> sint (sg_end ?active)"
      using assms(3,4) by (auto simp: get_leo_def)
    then show ?thesis using fs fh words(1) by (simp add: records_slice_def Let_def) (simp add: active_view_def)
  qed
  let ?s = "limit_slice max_len (sint (sg_base ?active), ?ps, unat ?len)"
  have "read_partition_slice short start max_len ReadCommitted rep = Some (Inr (slice_header rep ?s))"
    using slice assms(2-4) by (auto simp: read_partition_slice_def read_records_def Let_def slice_header_def)
  moreover have "take (unat ?len) (drop ?ps ?file) = drop ?ps ?file"
    using ps log(2) len by simp
  then have "take (unat ?len) (drop ?ps ?file) =
      log_bytes crc32c (\<lambda>v. v) (dropWhile (\<lambda>b. batch_end b \<le> sint start) act)"
    by (simp only: whole) simp
  from take_slice [OF this, of "sint (sg_base ?active)" rep] existing_active [OF assms(1)] log(1)
  have "slice_bytes rep ?s = take (unat max_len)
      (log_bytes crc32c (\<lambda>v. v) (dropWhile (\<lambda>b. batch_end b \<le> sint start) act))"
    by (metis prod.collapse)
  ultimately show ?thesis by blast
qed

lemma two_records:
  obtains rep where "rep_holds (\<lambda>_. 0) (\<lambda>v. v) (\<lambda>_. True) rep [] (renumber 10 [one_record, one_record])"
    "sg_base (rp_active rep) = 10" "get_leo rep = 12" "rp_hw rep = 10" "first_offset rep = 10" "ready mm0 rep"
    "index_max_bytes (rp_cfg rep) = 32" "rp_left rep = []" "rp_segs rep = []"
proof -
  obtain seg1 where seg1: "append_batch (\<lambda>_. 0) enc_raw one_record seg0 = (Inr True, set_base_offset 10 one_record, seg1)"
      "seg_holds (\<lambda>_. 0) (\<lambda>v. v) (\<lambda>_. True) seg1 [set_base_offset 10 one_record]" "sg_base seg1 = 10" "sint (sg_end seg1) = 11"
      "fr_max (sg_log seg1) = 200"
    using raw.append_batch_ok [OF seg0_holds, of one_record] by (auto simp: one_record_simps seg0_def fr_create_def)
  have end1: "sg_end seg1 = 11" using seg1(4) by (intro sint_eqI) simp
  have len1: "length (fr_file (sg_log seg1)) = 61"
    using seg1(2) by (simp add: seg_holds_def log_ok_def one_record_simps)
  obtain seg2 where seg2: "seg_holds (\<lambda>_. 0) (\<lambda>v. v) (\<lambda>_. True) seg2 [set_base_offset 10 one_record, set_base_offset 11 one_record]"
      "sg_base seg2 = 10" "sint (sg_end seg2) = 12" "fr_max (sg_log seg2) = 200"
    using raw.append_batch_ok [OF seg1(2), of one_record] seg1(3-5) by (auto simp: one_record_simps len1 end1)
  have len2: "length (fr_file (sg_log seg2)) = 122"
    using seg2(1) by (simp add: seg_holds_def log_ok_def one_record_simps)
  let ?rep = "rep0\<lparr>rp_active := seg2, rp_size_active := 0\<rparr>"
  have "rep_holds (\<lambda>_. 0) (\<lambda>v. v) (\<lambda>_. True) ?rep [] [set_base_offset 10 one_record, set_base_offset 11 one_record]"
    using rep0_holds seg2 len2 by (intro rep_holds_active(1)) (simp_all add: rep0_def seg0_def fr_create_def)
  moreover have "sg_end seg2 = 12" using seg2(3) by (intro sint_eqI) simp
  moreover have "first_offset ?rep = 10" "rp_segs ?rep = []"
    using seg2(2) by (simp_all add: first_offset_def rep0_def rp_segs_def shared_from_def sl_new_def)
  ultimately show thesis
    using that [of ?rep] seg2(2) rep0_ready
    by (simp add: get_leo_def one_record_simps) (simp add: rep0_def ready_def)
qed

theorem committed_read_beyond_hw_witness:
  "\<exists>rep s. rp_hw rep = 10 \<and> read_partition_slice (\<lambda>_. 3) 11 1000 ReadCommitted rep = Some (Inr (slice_header rep s)) \<and>
     slice_bytes rep s = wire_batch (\<lambda>_. 0) (\<lambda>v. v) (set_base_offset 11 one_record)"
proof -
  obtain rep where rep: "rep_holds (\<lambda>_. 0) (\<lambda>v. v) (\<lambda>_. True) rep [] (renumber 10 [one_record, one_record])"
    "sg_base (rp_active rep) = 10" "get_leo rep = 12" "rp_hw rep = 10"
    by (rule two_records)
  have "length (wire_batch (\<lambda>_. 0) (\<lambda>v. v) (set_base_offset 11 one_record)) = 61" by (simp add: one_record_simps)
  then show ?thesis
    using committed_read_beyond_hw [OF rep(1), of 11 "set_base_offset 10 one_record" "\<lambda>_. 3" 1000] rep(2-4)
    by (auto simp: one_record_simps batch_end_def)
qed

end
