(* ===== verification/Replica_Load.thy ===== *)
theory Replica_Load
  imports Replica_Log
begin

text \<open>
  Loading a replica from its directory (\<open>create_or_load_inner\<close> of
  \<open>fluvio-storage/src/replica.rs\<close>) after a clean stop or a crash, and what
  clearing a replica (\<open>clear_data\<close>) leaves for the next load.
\<close>

section \<open>Opening the closed segments\<close>

lemma open_unknown_ok:
  assumes s: "rs_holds crc32c w p s bs" "bs \<noteq> []" "0 \<le> sint (rs_base s)" and idx: "remap index_file = rs_index s"
  shows "open_unknown short remap (rs_base s) (rs_file s) index_file = Some (Inr s)"
proof -
  have log: "log_ok crc32c w p (rs_base s) (rs_end s) (log_bytes crc32c w bs) bs" and content: "rs_file s = log_bytes crc32c w bs"
    using s(1) by (auto simp: rs_holds_def log_ok_def)
  have find: "\<exists>entry. li_find_offset (rs_index s) d = Inr entry \<and>
      (\<forall>e. entry = Some e \<longrightarrow> e \<in> set (marks crc32c w (rs_base s) 0 bs))" for d
    using closed.find_law [OF s(1,2), of d] by (auto simp: closed_view_def)
  have "torn_tail crc32c w p bs []" by (simp add: torn_tail_def)
  then obtain val where
    "validate_core short (rs_base s) (rs_file s) (li_find_offset (rs_index s)) = Some (Inr val)"
    "lv_leo val = rs_end s" "lv_error val = None"
    by (rule validate_recovers [OF log s(3) find]) (simp_all add: content)
  then show ?thesis using idx by (simp add: open_unknown_def)
qed

text \<open>The files of closed segments; an index file may need to be extended by the mapping.\<close>

definition files_of :: "mapping \<Rightarrow> (int \<times> ReadSegment) list \<Rightarrow> (int \<times> bytes \<times> Entry list) list \<Rightarrow> bool" where
  "files_of mm ss files =
     list_all2 (\<lambda>e f. fst f = fst e \<and> fst (snd f) = rs_file (snd e) \<and> mm_open mm (snd (snd f)) = rs_index (snd e)) ss files"

lemma open_all_ok:
  assumes "segs_hold crc32c w p o0 (sl_segments sl @ ss) bss" "0 \<le> o0" "files_of mm ss files" "sl_ok o0 sl"
  obtains sl' where "open_all short mm files sl = Some (Inr sl')" "sl_segments sl' = sl_segments sl @ ss" "sl_ok o0 sl'"
  using assms
proof (induction ss arbitrary: sl files thesis)
  case Nil
  then show ?case by (auto simp: files_of_def)
next
  case (Cons e ss)
  obtain k s where e: "e = (k, s)" by (cases e)
  from Cons.prems(4) obtain ix files' where files: "files = (k, rs_file s, ix) # files'"
      "mm_open mm ix = rs_index s" "files_of mm ss files'"
    by (auto simp: files_of_def e list_all2_Cons1)
  from Cons.prems(2) obtain bss1 bs where h: "segs_hold crc32c w p o0 (sl_segments sl) bss1" "rs_holds crc32c w p s bs"
      "bs \<noteq> []" "sint (rs_base s) = k" "k = segs_end o0 (sl_segments sl)"
    by (auto simp: segs_hold_append e)
  have base: "0 \<le> sint (rs_base s)" "word_of_int k = rs_base s"
    using segs_end_ge [OF h(1)] h(4,5) Cons.prems(3) word_of_sint [of "rs_base s"] by simp_all
  obtain sl1 where sl1: "sl_add_segment s sl = (sl_min sl1, sl1)" "sl_ok o0 sl1"
      "sl_segments sl1 = sl_segments sl @ [(sint (rs_base s), s)]"
    by (rule sl_add_segment_ok [OF h(1) Cons.prems(3) h(2,3)]) (use h(4,5) in simp_all)
  then have segs1: "sl_segments sl1 @ ss = sl_segments sl @ e # ss" by (simp add: e h(4))
  obtain sl' where "open_all short mm files' sl1 = Some (Inr sl')" "sl_segments sl' = sl_segments sl1 @ ss" "sl_ok o0 sl'"
    by (rule Cons.IH [where sl = sl1 and files = files']) (use Cons.prems(2,3) segs1 files(3) sl1(2) in auto)
  then show ?case
    using Cons.prems(1) [of sl'] open_unknown_ok [of crc32c w p s bs "mm_open mm" ix, OF h(2,3) base(1) files(2)] files(1) sl1(1) base(2) segs1 by simp
qed

section \<open>Loading a directory\<close>

text \<open>
  What a mapping of the index file of an active segment shows: its entries and at
  least one free slot. The code tells the two apart by the position 0, so no entry
  may have it.
\<close>

definition index_room :: "mapping \<Rightarrow> Entry list \<Rightarrow> MutLogIndex \<Rightarrow> bool" where
  "index_room mm index_file idx =
     ((\<exists>k. mm_create mm index_file = mi_shrink idx @ replicate (Suc k) (0, 0)) \<and> (\<forall>e \<in> set (entries idx). snd e \<noteq> 0))"

definition loaded ::
  "(bytes \<Rightarrow> u32) \<Rightarrow> ('r \<Rightarrow> bytes) \<Rightarrow> ('r \<Rightarrow> bool) \<Rightarrow> i64 \<Rightarrow> bytes option \<Rightarrow> FileReplica \<Rightarrow> 'r Batch list list
    \<Rightarrow> 'r Batch list \<Rightarrow> bool" where
  "loaded crc32c w p end_offset chk rep bss act =
     (rep_holds crc32c w p rep bss act \<and> get_leo rep = end_offset \<and> rp_size_prev rep = 0 \<and>
      rp_size_active rep = word_of_nat (seg_occupied (rp_active rep)) \<and>
      (let h = checkpoint_create (sg_base (rp_active rep)) chk
       in rp_hw rep = (if sint h > sint end_offset then end_offset else h)))"

lemma load_files:
  assumes segs: "segs_hold crc32c w p o0 ss bss" "segs_end o0 ss = sint (sg_base seg)" "0 \<le> o0"
    and seg: "seg_holds crc32c w p seg act" "length (fr_file (sg_log seg)) \<le> unat (segment_max_bytes cfg)"
    and mm: "mapping_ok mm" "index_max_bytes cfg \<noteq> 0" "index_room mm ix (sg_index seg)"
    and t: "torn_tail crc32c w p act t"
    and files: "sort_key fst files = cfiles @ [(sint (sg_base seg), fr_file (sg_log seg) @ t, ix)]" "files_of mm ss cfiles"
  shows "\<exists>rep. create_or_load_inner short mm cfg max_request base files chk = Some (Inr rep) \<and>
      loaded crc32c w p (sg_end seg) chk rep bss act \<and> first_offset rep = o0"
proof -
  have new: "segs_hold crc32c w p o0 (sl_segments sl_new @ ss) bss" "sl_ok o0 sl_new" "sl_segments sl_new = []"
    using segs(1) by (simp_all add: sl_new_def sl_ok_def)
  obtain sl where sl: "open_all short mm cfiles sl_new = Some (Inr sl)" "sl_segments sl = ss" "sl_ok o0 sl"
    by (rule open_all_ok [OF new(1) segs(3) files(2) new(2)]) (simp add: new(3))
  then have dir: "from_dir short mm files = Some (Inr (shared_from sl, Some (sint (sg_base seg), fr_file (sg_log seg) @ t, ix)))"
    by (simp add: from_dir_def files(1))
  obtain k where k: "mm_create mm ix = mi_shrink (sg_index seg) @ replicate (Suc k) (0, 0)"
      "\<forall>e \<in> set (entries (sg_index seg)). snd e \<noteq> 0"
    using mm(3) by (auto simp: index_room_def)
  have "length (mi_shrink (sg_index seg)) = unat (mi_first_empty (sg_index seg))"
    using seg(1) by (simp add: seg_holds_def idx_ok_def mi_shrink_def)
  moreover have "length (mm_create mm ix) < 2 ^ 32" using mm(1) by (simp add: mapping_ok_def)
  ultimately have "unat (mi_first_empty (sg_index seg)) + Suc k < 2 ^ 32" using k(1) by simp
  note reopen = reopen_segment [OF seg(1) _ k(2) mm(2) this t]
  have "0 \<le> sint (sg_base seg)" using segs_end_ge [OF segs(1)] segs(2,3) by simp
  then obtain seg1 seg2 where
    seg1: "open_for_write cfg (fr_file (sg_log seg) @ t) (mi_shrink (sg_index seg) @ replicate (Suc k) (0, 0)) (sg_base seg) = Inr seg1"
    and seg2: "validate_and_repair short (mm_create mm) cfg seg1 = Some (Inr (sg_end seg, seg2))"
      "seg_holds crc32c w p seg2 act" "sg_base seg2 = sg_base seg" "sg_end seg2 = sg_end seg"
      "fr_max (sg_log seg2) = segment_max_bytes cfg"
    by (rule reopen)
  have active: "load_active short mm cfg base (Some (sint (sg_base seg), fr_file (sg_log seg) @ t, ix)) = Some (Inr seg2)"
    using seg1 seg2(1) by (simp add: load_active_def k(1) del: replicate_Suc replicate.simps)
  have same_log: "fr_file (sg_log seg2) = fr_file (sg_log seg)" using seg(1) seg2(2) by (simp add: seg_holds_def log_ok_def)
  let ?rep = "\<lparr>rp_cfg = cfg, rp_active = seg2, rp_prev = shared_from sl,
      rp_hw = (let h = checkpoint_create (sg_base seg2) chk in if sint h > sint (sg_end seg2) then sg_end seg2 else h),
      rp_size_active = word_of_nat (seg_occupied seg2), rp_size_prev = 0, rp_short_circuit = False,
      rp_max_request = max_request, rp_max_segment = unat (segment_max_bytes cfg), rp_left = []\<rparr>"
  have first: "first_offset ?rep = o0"
    using segs(1,2) sl(2) seg2(3) by (cases ss) (auto simp: first_offset_def rp_segs_def shared_from_def)
  have "rep_holds crc32c w p ?rep bss act"
    using segs seg seg2 sl(2,3) same_log unfolding rep_holds_def first by (simp add: rp_segs_def shared_from_def)
  then have "loaded crc32c w p (sg_end seg) chk ?rep bss act"
    using seg2(4) by (simp add: loaded_def get_leo_def)
  moreover have "create_or_load_inner short mm cfg max_request base files chk = Some (Inr ?rep)"
    using dir active by (simp add: create_or_load_inner_def Let_def)
  ultimately show ?thesis using first by (intro exI [of _ ?rep] conjI)
qed

section \<open>Properties of loading\<close>

text \<open>The directory of a replica when the active log file was left with \<open>t\<close> behind its last batch.\<close>

definition torn_dir :: "bytes \<Rightarrow> FileReplica \<Rightarrow> (int \<times> bytes \<times> Entry list) list" where
  "torn_dir t rep =
     (let active = rp_active rep; log = sg_log active
      in dir_files (rep\<lparr>rp_active := active\<lparr>sg_log := log\<lparr>fr_file := fr_file log @ t\<rparr>\<rparr>\<rparr>))"

lemma files_of_segments:
  assumes "segs_hold crc32c w p o0 ss bss" "mapping_ok mm"
  shows "files_of mm ss (map (\<lambda>(k, s). (k, rs_file s, rs_index s)) ss)"
  using assms
proof (induction ss arbitrary: o0 bss)
  case (Cons e ss)
  obtain k s where e: "e = (k, s)" by (cases e)
  then obtain bss' where h: "rs_index s \<noteq> []" "segs_hold crc32c w p (sint (rs_end s)) ss bss'"
    using Cons.prems(1) by (auto simp: rs_holds_def)
  then have "mm_open mm (rs_index s) = rs_index s" using Cons.prems(2) by (simp add: mapping_ok_def)
  then show ?case using Cons.IH [OF h(2) Cons.prems(2)] by (simp add: files_of_def e)
qed (simp add: files_of_def)

lemma torn_dir_sorted:
  assumes "rep_holds crc32c w p rep bss act" "rp_left rep = []"
  shows "sort_key fst (torn_dir t rep) = map (\<lambda>(k, s). (k, rs_file s, rs_index s)) (rp_segs rep) @
      [(sint (sg_base (rp_active rep)), fr_file (sg_log (rp_active rep)) @ t, mi_slots (sg_index (rp_active rep)))]"
proof -
  have segs: "segs_hold crc32c w p (first_offset rep) (rp_segs rep) bss"
      "segs_end (first_offset rep) (rp_segs rep) = sint (sg_base (rp_active rep))"
    using assms(1) by (simp_all add: rep_holds_def)
  have "k \<le> sint (sg_base (rp_active rep))" if "(k, s) \<in> set (rp_segs rep)" for k s
    using segs_hold_keys [OF segs(1) that] segs(2) by simp
  moreover have "sorted (map fst (rp_segs rep))"
    using segs_hold_sorted [OF segs(1)] by (simp add: bt_wf_def strict_sorted_imp_sorted)
  moreover have "map fst (map (\<lambda>(k, s). (k, rs_file s, rs_index s)) (rp_segs rep)) = map fst (rp_segs rep)" by auto
  ultimately show ?thesis
    using assms(2) by (auto simp: torn_dir_def dir_files_def dir_with_def rp_segs_def [symmetric] Let_def sorted_append
        intro!: sort_key_id_if_sorted simp del: map_map)
qed

text \<open>
  C10. A replica survives a restart, also one after a crash that left the
  beginning of a further batch in the active log file. Loading its directory
  gives a replica with the same batches in the same segments and the same log
  end offset. The high watermark is the one in the checkpoint file, but not
  beyond the log end. The recorded size of the closed segments is 0, however
  many there are.
\<close>

theorem replica_reload:
  fixes b :: "RawRecords Batch"
  assumes rep: "rep_holds crc32c (\<lambda>v. v) (\<lambda>_. True) rep bss act" "rp_left rep = []"
    and mm: "mapping_ok mm" "index_max_bytes (rp_cfg rep) \<noteq> 0"
      "index_room mm (mi_slots (sg_index (rp_active rep))) (sg_index (rp_active rep))"
    and torn: "ok_batch (\<lambda>v. v) (\<lambda>_. True) b" "n < length (wire_batch crc32c (\<lambda>v. v) b)"
      "length (fr_file (sg_log (rp_active rep))) + length (wire_batch crc32c (\<lambda>v. v) b) < 2 ^ 32"
  shows "\<exists>rep'. create_or_load_inner short mm (rp_cfg rep) (rp_max_request rep) base
             (torn_dir (take n (wire_batch crc32c (\<lambda>v. v) b)) rep) (Some (be_bytes 8 h)) = Some (Inr rep') \<and>
           rep_holds crc32c (\<lambda>v. v) (\<lambda>_. True) rep' bss act \<and> first_offset rep' = first_offset rep \<and>
           get_leo rep' = get_leo rep \<and> rp_hw rep' = (if sint h > sint (get_leo rep) then get_leo rep else h) \<and>
           rp_size_prev rep' = 0"
proof -
  let ?seg = "rp_active rep"
  have segs: "segs_hold crc32c (\<lambda>v. v) (\<lambda>_. True) (first_offset rep) (rp_segs rep) bss"
      "segs_end (first_offset rep) (rp_segs rep) = sint (sg_base ?seg)" "0 \<le> first_offset rep"
    and seg: "seg_holds crc32c (\<lambda>v. v) (\<lambda>_. True) ?seg act"
      "length (fr_file (sg_log ?seg)) \<le> unat (segment_max_bytes (rp_cfg rep))"
    using rep(1) by (simp_all add: rep_holds_def)
  have "fr_file (sg_log ?seg) = log_bytes crc32c (\<lambda>v. v) act" using seg(1) by (simp add: seg_holds_def log_ok_def)
  then have t: "torn_tail crc32c (\<lambda>v. v) (\<lambda>_. True) act (take n (wire_batch crc32c (\<lambda>v. v) b))"
    using torn by (intro torn_tail_take) simp_all
  have h: "checkpoint_create o0 (Some (be_bytes 8 h)) = h" for o0
    by (simp add: checkpoint_create_def be_word_bytes)
  show ?thesis
    using load_files [OF segs seg mm t torn_dir_sorted [OF rep] files_of_segments [OF segs(1) mm(1)],
        of short "rp_max_request rep" base "Some (be_bytes 8 h)"]
    by (auto simp: loaded_def h get_leo_def)
qed

theorem replica_reload_witness:
  "\<exists>rep'. create_or_load_inner (\<lambda>_. 3) mm0 (rp_cfg rep0) 1000 0
       (torn_dir (take 30 (wire_batch (\<lambda>_. 0) (\<lambda>v. v) one_record)) rep0) (Some (be_bytes 8 (12 :: i64))) = Some (Inr rep') \<and>
     get_leo rep' = 10 \<and> rp_hw rep' = 10"
proof -
  have idx: "index_room mm0 (mi_slots (sg_index (rp_active rep0))) (sg_index (rp_active rep0))"
    by (auto simp: index_room_def rep0_def seg0_def empty_index_def mm0_def mi_shrink_def entries_def numeral_eq_Suc
        intro!: exI [of _ 3])
  have "index_max_bytes (rp_cfg rep0) \<noteq> 0" "rp_left rep0 = []" "rp_max_request rep0 = 1000"
      "fr_file (sg_log (rp_active rep0)) = []"
    by (simp_all add: rep0_def seg0_def fr_create_def)
  then show ?thesis
    using replica_reload [OF rep0_holds _ mm0_ok _ idx one_record_simps(1), of 30 "\<lambda>_. 3" 0 12]
    by (auto simp: one_record_simps rep0_simps)
qed

text \<open>What \<open>clear_data\<close> makes of a replica with batches in its active segment.\<close>

lemma clear_data_ok:
  assumes rep: "rep_holds crc32c w p rep bss act" "rp_left rep = []" "act \<noteq> []"
    and mm: "mapping_ok mm" "index_max_bytes (rp_cfg rep) \<noteq> 0"
  obtains rep1 where "clear_data mm reset_hw rep = (Inr (get_leo rep), rep1)" "rep_holds crc32c w p rep1 [] []"
    "first_offset rep1 = sint (get_leo rep)" "sg_end (rp_active rep1) = get_leo rep"
    "sg_base (rp_active rep1) = get_leo rep" "rp_segs rep1 = []"
    "rp_left rep1 = [(sint (sg_base (rp_active rep)), fr_file (sg_log (rp_active rep)), mi_shrink (sg_index (rp_active rep)))]"
    "mi_slots (sg_index (rp_active rep1)) = mm_create mm []" "mi_first_empty (sg_index (rp_active rep1)) = 0"
    "rp_cfg rep1 = rp_cfg rep"
proof -
  let ?seg = "rp_active rep"
  have act: "seg_holds crc32c w p ?seg act" and "0 \<le> first_offset rep"
      "segs_hold crc32c w p (first_offset rep) (rp_segs rep) bss"
      "segs_end (first_offset rep) (rp_segs rep) = sint (sg_base ?seg)"
    using rep(1) by (simp_all add: rep_holds_def)
  then have base: "0 \<le> sint (sg_base ?seg)" using segs_end_ge by fastforce
  note grow = seg_holds_grows(2) [OF act rep(3)]
  have "length (mm_create mm []) < 2 ^ 32" using mm(1) by (simp add: mapping_ok_def)
  with mm(2) obtain seg where seg: "segment_create (rp_cfg rep) [] (mm_create mm []) (sg_end ?seg) = Inr seg"
      "seg_holds crc32c w p seg []" "sg_base seg = sg_end ?seg" "sg_end seg = sg_end ?seg"
      "fr_max (sg_log seg) = segment_max_bytes (rp_cfg rep)" "fr_file (sg_log seg) = []"
      "mi_slots (sg_index seg) = mm_create mm []" "mi_first_empty (sg_index seg) = 0"
    by (rule new_segment_holds)
  define rep1 where "rep1 = rep\<lparr>rp_prev := \<lparr>ss_list = sl_new, ss_min = - 1\<rparr>, rp_active := seg,
      rp_left := [(sint (sg_base ?seg), fr_file (sg_log ?seg), mi_shrink (sg_index ?seg))],
      rp_hw := (if reset_hw then get_leo rep else rp_hw rep), rp_size_prev := 0,
      rp_size_active := word_of_nat (seg_occupied seg)\<rparr>"
  have clear: "clear_data mm reset_hw rep = (Inr (get_leo rep), rep1)"
    using grow seg(1) rep(2)
    by (simp add: clear_data_def remove_all_segments_def drain_all_def sl_new_def dir_with_def existing_def get_leo_def
        rep1_def Let_def)
  have first: "first_offset rep1 = sint (get_leo rep)" "rp_segs rep1 = []"
    using seg(3) by (simp_all add: rep1_def first_offset_def rp_segs_def sl_new_def get_leo_def)
  have "rep_holds crc32c w p rep1 [] []"
    unfolding rep_holds_def first using seg grow base by (simp add: rep1_def get_leo_def sl_new_def sl_ok_def)
  then show thesis using that [OF clear] seg first by (simp add: rep1_def get_leo_def)
qed

text \<open>
  Clearing a replica does not remove its active segment from the directory.
  Right after \<open>clear_data\<close> the log is empty and starts at the old log end, but
  when the directory is loaded the next time, the batches of the segment that
  was active are back.
\<close>

theorem cleared_data_returns:
  fixes act :: "RawRecords Batch list"
  assumes rep: "rep_holds crc32c (\<lambda>v. v) (\<lambda>_. True) rep bss act" "rp_left rep = []" "act \<noteq> []"
    and mm: "mapping_ok mm" "index_max_bytes (rp_cfg rep) \<noteq> 0"
      "mm_create mm [] = replicate (Suc k) (0, 0)" "mm_create mm (replicate (Suc k) (0, 0)) = replicate (Suc k) (0, 0)"
  shows "\<exists>rep1 rep2. clear_data mm reset_hw rep = (Inr (get_leo rep), rep1) \<and>
           rep_holds crc32c (\<lambda>v. v) (\<lambda>_. True) rep1 [] [] \<and> first_offset rep1 = sint (get_leo rep) \<and>
           create_or_load_inner short mm (rp_cfg rep) (rp_max_request rep) base (dir_files rep1) chk = Some (Inr rep2) \<and>
           rep_holds crc32c (\<lambda>v. v) (\<lambda>_. True) rep2 [act] [] \<and> first_offset rep2 = sint (sg_base (rp_active rep))"
proof -
  let ?seg = "rp_active rep" and ?old = "as_segment (mm_open mm) (rp_active rep)"
  let ?left = "(sint (sg_base ?seg), fr_file (sg_log ?seg), mi_shrink (sg_index ?seg))"
  have act: "seg_holds crc32c (\<lambda>v. v) (\<lambda>_. True) ?seg act" and "0 \<le> first_offset rep"
      "segs_hold crc32c (\<lambda>v. v) (\<lambda>_. True) (first_offset rep) (rp_segs rep) bss"
      "segs_end (first_offset rep) (rp_segs rep) = sint (sg_base ?seg)"
    using rep(1) by (simp_all add: rep_holds_def)
  then have base: "0 \<le> sint (sg_base ?seg)" using segs_end_ge by fastforce
  obtain rep1 where rep1: "clear_data mm reset_hw rep = (Inr (get_leo rep), rep1)"
      "rep_holds crc32c (\<lambda>v :: RawRecords. v) (\<lambda>_. True) rep1 [] []"
      "first_offset rep1 = sint (get_leo rep)" "sg_end (rp_active rep1) = get_leo rep"
      "sg_base (rp_active rep1) = get_leo rep" "rp_segs rep1 = []" "rp_left rep1 = [?left]"
      "mi_slots (sg_index (rp_active rep1)) = mm_create mm []" "mi_first_empty (sg_index (rp_active rep1)) = 0"
      "rp_cfg rep1 = rp_cfg rep"
    by (rule clear_data_ok [OF rep mm(1,2)])
  let ?new = "rp_active rep1"
  have new: "seg_holds crc32c (\<lambda>v :: RawRecords. v) (\<lambda>_. True) ?new []"
      "length (fr_file (sg_log ?new)) \<le> unat (segment_max_bytes (rp_cfg rep))"
    using rep1(2,10) by (simp_all add: rep_holds_def)
  have "rs_holds crc32c (\<lambda>v. v) (\<lambda>_. True) ?old act" by (rule as_segment_holds [OF act mm(1)])
  then have segs: "segs_hold crc32c (\<lambda>v. v) (\<lambda>_. True) (sint (sg_base ?seg)) [(sint (sg_base ?seg), ?old)] [act]"
      "segs_end (sint (sg_base ?seg)) [(sint (sg_base ?seg), ?old)] = sint (sg_base ?new)"
    using rep(3) rep1(5) by (simp_all add: as_segment_def get_leo_def)
  have room: "index_room mm (mm_create mm []) (sg_index ?new)"
    using mm(3,4) rep1(9) by (auto simp: index_room_def mi_shrink_def entries_def)
  have files: "sort_key fst (dir_files rep1) = [?left] @ [(sint (sg_base ?new), fr_file (sg_log ?new) @ [], mm_create mm [])]"
    using seg_holds_grows(2) [OF act rep(3)] rep1(5-8)
    by (simp add: dir_files_def dir_with_def rp_segs_def get_leo_def)
  have "files_of mm [(sint (sg_base ?seg), ?old)] [?left]" by (simp add: files_of_def as_segment_def)
  from load_files [OF segs base new mm(1,2) room _ files this, of short "rp_max_request rep" base chk]
  have "\<exists>rep2. create_or_load_inner short mm (rp_cfg rep) (rp_max_request rep) base (dir_files rep1) chk = Some (Inr rep2) \<and>
      rep_holds crc32c (\<lambda>v. v) (\<lambda>_. True) rep2 [act] [] \<and> first_offset rep2 = sint (sg_base ?seg)"
    by (auto simp: torn_tail_def loaded_def)
  then show ?thesis using rep1(1-3) by blast
qed

theorem cleared_data_returns_witness:
  "\<exists>rep rep1 rep2. clear_data mm0 True rep = (Inr 11, rep1) \<and> rep_holds (\<lambda>_. 0) (\<lambda>v :: RawRecords. v) (\<lambda>_. True) rep1 [] [] \<and>
     create_or_load_inner (\<lambda>_. 3) mm0 (rp_cfg rep) 1000 0 (dir_files rep1) None = Some (Inr rep2) \<and>
     rep_holds (\<lambda>_. 0) (\<lambda>v. v) (\<lambda>_. True) rep2 [[set_base_offset 10 one_record]] []"
proof -
  let ?b = "set_base_offset 10 one_record"
  have max: "rp_max_segment rep0 = 200" "fr_file (sg_log (rp_active rep0)) = []"
    by (simp_all add: rep0_def seg0_def fr_create_def)
  have "\<exists>seg. wrote_batch (\<lambda>_. 0) (\<lambda>v. v) (\<lambda>_. True) mm0 rep0 [] [?b] (rep0\<lparr>rp_active := seg, rp_size_active := 0\<rparr>)"
    using raw.append_to_active [OF rep0_holds rep0_ready storable_one_record] max
    by (auto simp: rep0_simps one_record_simps)
  then obtain seg bss act where rep: "rep_holds (\<lambda>_. 0) (\<lambda>v. v) (\<lambda>_. True) (rep0\<lparr>rp_active := seg, rp_size_active := 0\<rparr>) bss act"
      "concat bss @ act = [?b]" "sint (get_leo (rep0\<lparr>rp_active := seg, rp_size_active := 0\<rparr>)) = 11"
    by (auto simp: wrote_batch_def rep0_simps one_record_simps)
  let ?rep = "rep0\<lparr>rp_active := seg, rp_size_active := 0\<rparr>"
  have "rp_segs ?rep = []" by (simp add: rep0_def rp_segs_def shared_from_def sl_new_def)
  then have act: "act = [?b]" using rep(1,2) by (simp add: rep_holds_def)
  have leo: "get_leo ?rep = 11" using rep(3) by (intro sint_eqI) simp
  have facts: "rp_left ?rep = []" "act \<noteq> []" "index_max_bytes (rp_cfg ?rep) \<noteq> 0" "rp_max_request ?rep = 1000"
    by (simp_all add: rep0_def act)
  have mm: "mm_create mm0 [] = replicate (Suc 3) (0, 0)" "mm_create mm0 (replicate (Suc 3) (0, 0)) = replicate (Suc 3) (0, 0)"
    by (simp_all add: mm0_def numeral_eq_Suc)
  note returns = cleared_data_returns [OF rep(1) facts(1,2) mm0_ok facts(3) mm, of True "\<lambda>_. 3" 0 None]
  show ?thesis by (rule exI [of _ ?rep]) (use returns [unfolded act leo facts(4)] in blast)
qed

end
