(* ===== verification/Replication.thy ===== *)
theory Replication
  imports Replica_Load "HOL-Library.Multiset"
begin

text \<open>
  The replication layer of an SPU: offsets of a replica (\<open>OffsetInfo\<close> in
  \<open>fluvio-storage/src/lib.rs\<close>), the shared storage with its published offsets
  (\<open>fluvio-spu/src/storage/mod.rs\<close>), the leader with the high watermark
  computation (\<open>replication/leader/replica_state.rs\<close>), the notifications of
  followers (\<open>replication/leader/spu.rs\<close>), the status messages
  (\<open>control_plane/message_sink.rs\<close>) and the follower
  (\<open>replication/follower/state.rs\<close>).

  The SPU is generic in the trait \<open>ReplicaStorage\<close>: an implementation is a record
  of its operations, and what leader and follower rely on are the laws of the
  locale \<open>replica_storage\<close>. Offsets compare as signed numbers.
\<close>

section \<open>Offsets\<close>

record OffsetInfo =
  oi_hw :: i64
  oi_leo :: i64

definition default_offset_info :: OffsetInfo where
  "default_offset_info = \<lparr>oi_hw = - 1, oi_leo = - 1\<rparr>"

definition oi_new :: "i64 \<Rightarrow> i64 \<Rightarrow> fault + OffsetInfo" where
  "oi_new end_offset hw = (if sint end_offset \<ge> sint hw then Inr \<lparr>oi_hw = hw, oi_leo = end_offset\<rparr> else Inl Panic)"

definition oi_isolation :: "Isolation \<Rightarrow> OffsetInfo \<Rightarrow> i64" where
  "oi_isolation isolation info = (case isolation of ReadCommitted \<Rightarrow> oi_hw info | ReadUncommitted \<Rightarrow> oi_leo info)"

definition oi_is_valid :: "OffsetInfo \<Rightarrow> bool" where
  "oi_is_valid info = (\<not> (oi_hw info = - 1 \<or> oi_leo info = - 1) \<and> sint (oi_leo info) \<ge> sint (oi_hw info))"

definition oi_update :: "OffsetInfo \<Rightarrow> OffsetInfo \<Rightarrow> bool \<times> OffsetInfo" where
  "oi_update other info =
     (let hw_change = sint (oi_hw other) > sint (oi_hw info);
          info1 = (if hw_change then info\<lparr>oi_hw := oi_hw other\<rparr> else info);
          leo_change = sint (oi_leo other) > sint (oi_leo info1);
          info2 = (if leo_change then info1\<lparr>oi_leo := oi_leo other\<rparr> else info1)
      in (hw_change \<or> leo_change, info2))"

definition oi_newer :: "OffsetInfo \<Rightarrow> OffsetInfo \<Rightarrow> bool" where
  "oi_newer info other = (sint (oi_leo info) > sint (oi_leo other) \<or> sint (oi_hw info) > sint (oi_hw other))"

definition oi_is_same :: "OffsetInfo \<Rightarrow> OffsetInfo \<Rightarrow> bool" where
  "oi_is_same info other = (oi_hw info = oi_hw other \<and> oi_leo info = oi_leo other)"

definition oi_is_committed :: "OffsetInfo \<Rightarrow> bool" where
  "oi_is_committed info = (oi_leo info = oi_hw info)"

section \<open>The storage of a replica\<close>

text \<open>
  The operations of \<open>ReplicaStorage\<close>. \<open>st_bytes\<close> is what is sent for a slice of a
  log file.
\<close>

record 's storage =
  st_hw :: "'s \<Rightarrow> i64"
  st_leo :: "'s \<Rightarrow> i64"
  st_start :: "'s \<Rightarrow> i64"
  st_size :: "'s \<Rightarrow> u64"
  st_read :: "i64 \<Rightarrow> u32 \<Rightarrow> Isolation \<Rightarrow> 's \<Rightarrow> (ErrorCode + ReplicaSlice) option"
  st_write :: "RawRecords RecordSet \<Rightarrow> bool \<Rightarrow> 's \<Rightarrow> (storage_error + nat) \<times> RawRecords RecordSet \<times> 's"
  st_update_hw :: "i64 \<Rightarrow> 's \<Rightarrow> (storage_error + bool) \<times> 's"
  st_bytes :: "'s \<Rightarrow> log_slice \<Rightarrow> bytes"

definition file_storage :: "(bytes \<Rightarrow> u32) \<Rightarrow> mapping \<Rightarrow> (nat \<Rightarrow> nat) \<Rightarrow> FileReplica storage" where
  "file_storage crc32c mm short = \<lparr>
     st_hw = rp_hw, st_leo = get_leo, st_start = get_log_start_offset, st_size = get_partition_size,
     st_read = read_partition_slice short, st_write = write_recordset crc32c enc_raw mm,
     st_update_hw = (\<lambda>offset rep. case update_high_watermark offset rep of (change, rep) \<Rightarrow> (Inr change, rep)),
     st_bytes = slice_bytes\<rparr>"

definition REMOVAL_START :: i64 where
  "REMOVAL_START = - 1000"

definition REMOVAL_END :: i64 where
  "REMOVAL_END = - 1001"

text \<open>\<open>SharableReplicaStorage\<close>: the storage and the offsets published for listeners.\<close>

record 's SharableReplicaStorage =
  sh_inner :: 's
  sh_leo :: i64
  sh_hw :: i64

definition sh_create :: "'s storage \<Rightarrow> 's \<Rightarrow> 's SharableReplicaStorage" where
  "sh_create st s = \<lparr>sh_inner = s, sh_leo = st_leo st s, sh_hw = st_hw st s\<rparr>"

definition sh_as_offset :: "'s SharableReplicaStorage \<Rightarrow> OffsetInfo" where
  "sh_as_offset sh = \<lparr>oi_hw = sh_hw sh, oi_leo = sh_leo sh\<rparr>"

definition sh_start_offset_info :: "'s storage \<Rightarrow> 's SharableReplicaStorage \<Rightarrow> i64 \<times> i64" where
  "sh_start_offset_info st sh = (st_start st (sh_inner sh), st_hw st (sh_inner sh))"

definition sh_read_records ::
  "'s storage \<Rightarrow> i64 \<Rightarrow> u32 \<Rightarrow> Isolation \<Rightarrow> 's SharableReplicaStorage \<Rightarrow> (ErrorCode + ReplicaSlice) option" where
  "sh_read_records st offset max_len isolation sh = st_read st offset max_len isolation (sh_inner sh)"

definition sh_update_hw ::
  "'s storage \<Rightarrow> i64 \<Rightarrow> 's SharableReplicaStorage \<Rightarrow> (storage_error + bool) \<times> 's SharableReplicaStorage" where
  "sh_update_hw st hw sh =
     (case st_update_hw st hw (sh_inner sh) of
        (Inr True, s) \<Rightarrow> (Inr True, sh\<lparr>sh_inner := s, sh_hw := hw\<rparr>)
      | (r, s) \<Rightarrow> (r, sh\<lparr>sh_inner := s\<rparr>))"

definition sh_write_record_set ::
  "'s storage \<Rightarrow> RawRecords RecordSet \<Rightarrow> bool \<Rightarrow> 's SharableReplicaStorage
    \<Rightarrow> (storage_error + i64 \<times> i64 \<times> nat) \<times> RawRecords RecordSet \<times> 's SharableReplicaStorage" where
  "sh_write_record_set st rs hw_update sh =
     (let base = st_leo st (sh_inner sh)
      in case st_write st rs hw_update (sh_inner sh) of
           (Inl e, rs, s) \<Rightarrow> (Inl e, rs, sh\<lparr>sh_inner := s\<rparr>)
         | (Inr bytes_written, rs, s) \<Rightarrow>
             (let sh = sh\<lparr>sh_inner := s, sh_leo := st_leo st s\<rparr>;
                  sh = (if hw_update then sh\<lparr>sh_hw := st_hw st s\<rparr> else sh)
              in (Inr (base, st_leo st s, bytes_written), rs, sh)))"

text \<open>\<open>remove\<close>, with what removing the directory gives.\<close>

definition sh_remove :: "storage_error + unit \<Rightarrow> 's SharableReplicaStorage \<Rightarrow> (storage_error + unit) \<times> 's SharableReplicaStorage" where
  "sh_remove removed sh =
     (let sh = sh\<lparr>sh_leo := REMOVAL_START\<rparr>
      in case removed of Inl e \<Rightarrow> (Inl e, sh) | Inr _ \<Rightarrow> (Inr (), sh\<lparr>sh_leo := REMOVAL_END\<rparr>))"

section \<open>Notifying followers and the controller\<close>

type_synonym SpuId = int

record ReplicaKey =
  rk_topic :: string
  rk_partition :: u32

record FollowerSpuPendingUpdates =
  pu_event :: i64
  pu_replicas :: "ReplicaKey list"

type_synonym FollowerNotifier = "(SpuId \<times> FollowerSpuPendingUpdates) list"

definition pu_add :: "ReplicaKey \<Rightarrow> FollowerSpuPendingUpdates \<Rightarrow> FollowerSpuPendingUpdates" where
  "pu_add replica pu = \<lparr>pu_event = pu_event pu + 1, pu_replicas = List.insert replica (pu_replicas pu)\<rparr>"

definition drain_replicas :: "FollowerSpuPendingUpdates \<Rightarrow> ReplicaKey list \<times> FollowerSpuPendingUpdates" where
  "drain_replicas pu = (pu_replicas pu, pu\<lparr>pu_replicas := []\<rparr>)"

definition notify_follower :: "SpuId \<Rightarrow> ReplicaKey \<Rightarrow> FollowerNotifier \<Rightarrow> FollowerNotifier" where
  "notify_follower spu replica notifier =
     (case map_of notifier spu of
        None \<Rightarrow> notifier
      | Some pu \<Rightarrow> bt_insert spu (pu_add replica pu) notifier)"

definition sync_from_spus :: "SpuId list \<Rightarrow> SpuId \<Rightarrow> FollowerNotifier \<Rightarrow> FollowerNotifier" where
  "sync_from_spus spus local_spu notifier =
     fold (\<lambda>spu notifier. if spu \<noteq> local_spu \<and> map_of notifier spu = None
                          then bt_insert spu \<lparr>pu_event = 0, pu_replicas = []\<rparr> notifier else notifier)
       spus (filter (\<lambda>e. fst e \<in> set spus) notifier)"

record ReplicaStatus =
  rst_spu :: SpuId
  rst_hw :: i64
  rst_leo :: i64

record LrsRequest =
  lrs_id :: ReplicaKey
  lrs_leader :: ReplicaStatus
  lrs_replicas :: "ReplicaStatus list"
  lrs_size :: i64
  lrs_base_offset :: i64

text \<open>\<open>MessageSink::send\<close>: a later message about a replica replaces an earlier one.\<close>

definition sink_send :: "LrsRequest \<Rightarrow> LrsRequest list \<Rightarrow> LrsRequest list" where
  "sink_send request sink = filter (\<lambda>r. lrs_id r \<noteq> lrs_id request) sink @ [request]"

record Comms =
  cm_notifier :: FollowerNotifier
  cm_status :: "LrsRequest list"

section \<open>The leader\<close>

record 's LeaderReplicaState =
  ld_id :: ReplicaKey
  ld_leader :: SpuId
  ld_replicas :: "SpuId list"
  ld_in_sync_replica :: u16
  ld_storage :: "'s SharableReplicaStorage"
  ld_followers :: "(SpuId \<times> OffsetInfo) list"

definition ids_to_map :: "SpuId \<Rightarrow> SpuId list \<Rightarrow> (SpuId \<times> OffsetInfo) list" where
  "ids_to_map leader_id follower_ids =
     fold (\<lambda>i followers. bt_insert i default_offset_info followers) (filter (\<lambda>i. i \<noteq> leader_id) follower_ids) []"

definition leader_new ::
  "ReplicaKey \<Rightarrow> SpuId \<Rightarrow> SpuId list \<Rightarrow> 's SharableReplicaStorage \<Rightarrow> 's LeaderReplicaState" where
  "leader_new i leader replicas inner =
     \<lparr>ld_id = i, ld_leader = leader, ld_replicas = replicas, ld_in_sync_replica = word_of_nat (length replicas),
      ld_storage = inner, ld_followers = ids_to_map leader replicas\<rparr>"

text \<open>
  The binary heap of \<open>compute_hw\<close> with the least offset on top, as an ascending
  list: \<open>replace_min\<close> is the assignment through \<open>peek_mut\<close>, after which the heap is
  sifted again.
\<close>

definition replace_min :: "int list \<Rightarrow> int \<Rightarrow> int list" where
  "replace_min heap x = (case heap of [] \<Rightarrow> [] | m # rest \<Rightarrow> if m < x then insort x rest else heap)"

definition compute_hw :: "OffsetInfo \<Rightarrow> u16 \<Rightarrow> (SpuId \<times> OffsetInfo) list \<Rightarrow> i64 option" where
  "compute_hw leader min_replica followers =
     (let min_lrs = min (unat (min_replica - 1)) (length followers);
          qualified_leos = filter (\<lambda>x. x > sint (oi_hw leader)) (map (sint \<circ> oi_leo \<circ> snd) followers)
      in if min_lrs = 0
         then (if qualified_leos = [] then None else Some (word_of_int (Max (set qualified_leos))))
         else if length qualified_leos < min_lrs then None
         else (let sorted_leos = sort (take min_lrs qualified_leos)
               in case foldl replace_min sorted_leos (drop min_lrs qualified_leos) of
                    [] \<Rightarrow> None
                  | m # _ \<Rightarrow> Some (word_of_int m)))"

text \<open>The followers of a replica that are behind the leader.\<close>

definition wants_update :: "'s LeaderReplicaState \<Rightarrow> SpuId \<Rightarrow> bool" where
  "wants_update ld follower =
     (case map_of (ld_followers ld) follower of
        None \<Rightarrow> False
      | Some info \<Rightarrow> oi_is_valid info \<and> \<not> oi_is_same info (sh_as_offset (ld_storage ld)))"

definition notify_followers :: "'s LeaderReplicaState \<Rightarrow> FollowerNotifier \<Rightarrow> FollowerNotifier" where
  "notify_followers ld notifier =
     fold (\<lambda>follower. if wants_update ld follower then notify_follower follower (ld_id ld) else (\<lambda>n. n))
       (ld_replicas ld) notifier"

definition as_lrs_request :: "'s storage \<Rightarrow> 's LeaderReplicaState \<Rightarrow> LrsRequest" where
  "as_lrs_request st ld =
     (let s = sh_inner (ld_storage ld); n = unat (st_size st s)
      in \<lparr>lrs_id = ld_id ld,
          lrs_leader = \<lparr>rst_spu = ld_leader ld, rst_hw = sh_hw (ld_storage ld), rst_leo = sh_leo (ld_storage ld)\<rparr>,
          lrs_replicas = map (\<lambda>(i, info). \<lparr>rst_spu = i, rst_hw = oi_hw info, rst_leo = oi_leo info\<rparr>) (ld_followers ld),
          lrs_size = (if n < 2 ^ 63 then word_of_nat n else - 1),
          lrs_base_offset = st_start st s\<rparr>)"

definition update_status :: "'s storage \<Rightarrow> 's LeaderReplicaState \<Rightarrow> LrsRequest list \<Rightarrow> LrsRequest list" where
  "update_status st ld sink = sink_send (as_lrs_request st ld) sink"

definition update_states_from_followers ::
  "'s storage \<Rightarrow> SpuId \<Rightarrow> OffsetInfo \<Rightarrow> Comms \<Rightarrow> 's LeaderReplicaState \<Rightarrow> bool \<times> Comms \<times> 's LeaderReplicaState" where
  "update_states_from_followers st follower_id follower_pos comms ld =
     (let leader_pos = sh_as_offset (ld_storage ld)
      in if oi_newer follower_pos leader_pos then (False, comms, ld)
         else (let (update, ld) =
             (case map_of (ld_followers ld) follower_id of
                None \<Rightarrow> (False, ld)
              | Some current \<Rightarrow>
                  (case oi_update follower_pos current of
                     (False, _) \<Rightarrow> (False, ld)
                   | (True, info) \<Rightarrow>
                       (let ld = ld\<lparr>ld_followers := bt_insert follower_id info (ld_followers ld)\<rparr>
                        in (True,
                            if oi_is_committed leader_pos then ld
                            else (case compute_hw leader_pos (ld_in_sync_replica ld) (ld_followers ld) of
                                    None \<Rightarrow> ld
                                  | Some hw \<Rightarrow> ld\<lparr>ld_storage := snd (sh_update_hw st hw (ld_storage ld))\<rparr>)))));
               comms = comms\<lparr>cm_notifier := notify_followers ld (cm_notifier comms)\<rparr>;
               comms = (if update then comms\<lparr>cm_status := update_status st ld (cm_status comms)\<rparr> else comms)
             in (update, comms, ld)))"

text \<open>
  \<open>follower_updates\<close>: the answer to one follower with the bytes of its file slice.
  \<open>Some None\<close> is no answer; \<open>None\<close> is a storage that does not return.
\<close>

record PeerFetchablePartitionResponse =
  pr_partition :: u32
  pr_error :: "ErrorCode option"
  pr_hw :: i64
  pr_leo :: i64
  pr_records :: bytes

definition follower_updates ::
  "'s storage \<Rightarrow> SpuId \<Rightarrow> u32 \<Rightarrow> 's LeaderReplicaState \<Rightarrow> PeerFetchablePartitionResponse option option" where
  "follower_updates st follower_id max_bytes ld =
     (let leader_offset = sh_as_offset (ld_storage ld)
      in case map_of (ld_followers ld) follower_id of
           None \<Rightarrow> Some None
         | Some info \<Rightarrow>
             if oi_is_valid info \<and> \<not> oi_is_same info leader_offset then
               (let answer = (\<lambda>error records. Some (Some \<lparr>pr_partition = rk_partition (ld_id ld), pr_error = error, pr_hw = oi_hw leader_offset,
                                 pr_leo = oi_leo leader_offset, pr_records = records\<rparr>))
                in if sint (oi_leo info) < sint (oi_leo leader_offset) then
                     (case sh_read_records st (oi_leo info) max_bytes ReadUncommitted (ld_storage ld) of
                        None \<Rightarrow> None
                      | Some (Inl e) \<Rightarrow> answer (Some e) []
                      | Some (Inr s) \<Rightarrow>
                          answer None (case rsl_slice s of None \<Rightarrow> [] | Some sl \<Rightarrow> st_bytes st (sh_inner (ld_storage ld)) sl))
                   else answer None [])
             else Some None)"

text \<open>\<open>transform\<close>, with what the SmartModule chain of the replica makes of the records, if it has one.\<close>

definition leader_transform ::
  "(RawRecords RecordSet \<Rightarrow> storage_error + RawRecords RecordSet) option \<Rightarrow> RawRecords RecordSet
    \<Rightarrow> storage_error + RawRecords RecordSet" where
  "leader_transform sm_ctx rs = (case sm_ctx of None \<Rightarrow> Inr rs | Some process \<Rightarrow> process rs)"

definition leader_write_record_set ::
  "'s storage \<Rightarrow> (RawRecords RecordSet \<Rightarrow> storage_error + RawRecords RecordSet) option \<Rightarrow> RawRecords RecordSet \<Rightarrow> Comms
    \<Rightarrow> 's LeaderReplicaState \<Rightarrow> (storage_error + i64 \<times> i64 \<times> nat) \<times> Comms \<times> 's LeaderReplicaState" where
  "leader_write_record_set st sm_ctx rs comms ld =
     (case leader_transform sm_ctx rs of
        Inl e \<Rightarrow> (Inl e, comms, ld)
      | Inr rs \<Rightarrow>
          if total_records rs = 0 then (Inr (sh_hw (ld_storage ld), sh_leo (ld_storage ld), 0), comms, ld)
          else (case sh_write_record_set st rs (ld_in_sync_replica ld = 1) (ld_storage ld) of
                  (Inl e, _, sh) \<Rightarrow> (Inl e, comms, ld\<lparr>ld_storage := sh\<rparr>)
                | (Inr offsets, _, sh) \<Rightarrow>
                    (let ld = ld\<lparr>ld_storage := sh\<rparr>
                     in (Inr offsets, \<lparr>cm_notifier = notify_followers ld (cm_notifier comms),
                                       cm_status = update_status st ld (cm_status comms)\<rparr>, ld))))"

definition append_record_set ::
  "'s storage \<Rightarrow> (RawRecords RecordSet \<Rightarrow> storage_error + RawRecords RecordSet) option \<Rightarrow> RawRecords RecordSet \<Rightarrow> Comms
    \<Rightarrow> 's LeaderReplicaState \<Rightarrow> (storage_error + bool) \<times> Comms \<times> 's LeaderReplicaState" where
  "append_record_set st sm_ctx rs comms ld =
     (if total_records rs = 0 then (Inr False, comms, ld)
      else if set_base_offset_of rs \<noteq> sh_leo (ld_storage ld) then (Inr False, comms, ld)
      else (case leader_write_record_set st sm_ctx rs comms ld of
              (Inl e, comms, ld) \<Rightarrow> (Inl e, comms, ld)
            | (Inr _, comms, ld) \<Rightarrow> (Inr True, comms, ld)))"

section \<open>The follower\<close>

record 's FollowerReplicaState =
  fo_leader :: SpuId
  fo_inner :: "'s SharableReplicaStorage"

definition write_recordsets ::
  "'s storage \<Rightarrow> RawRecords RecordSet \<Rightarrow> 's FollowerReplicaState \<Rightarrow> (storage_error + bool) \<times> 's FollowerReplicaState" where
  "write_recordsets st rs fo =
     (if set_base_offset_of rs \<noteq> sh_leo (fo_inner fo) then (Inr False, fo)
      else (case sh_write_record_set st rs False (fo_inner fo) of
              (Inl e, _, sh) \<Rightarrow> (Inl e, fo\<lparr>fo_inner := sh\<rparr>)
            | (Inr _, _, sh) \<Rightarrow> (Inr True, fo\<lparr>fo_inner := sh\<rparr>)))"

text \<open>The second half of \<open>update_from_leader\<close>: the high watermark of the leader is taken over if it is in the log.\<close>

definition follow_hw ::
  "'s storage \<Rightarrow> i64 \<Rightarrow> bool \<Rightarrow> 's FollowerReplicaState \<Rightarrow> (storage_error + bool) \<times> 's FollowerReplicaState" where
  "follow_hw st leader_hw changes fo =
     (let f_offset = sh_as_offset (fo_inner fo)
      in if oi_hw f_offset \<noteq> leader_hw then
           if sint (oi_hw f_offset) > sint leader_hw then (Inr changes, fo)
           else if sint leader_hw > sint (oi_leo f_offset) then (Inr changes, fo)
           else (case sh_update_hw st leader_hw (fo_inner fo) of
                   (Inl e, sh) \<Rightarrow> (Inl e, fo\<lparr>fo_inner := sh\<rparr>)
                 | (Inr _, sh) \<Rightarrow> (Inr True, fo\<lparr>fo_inner := sh\<rparr>))
         else (Inr changes, fo))"

definition update_from_leader ::
  "'s storage \<Rightarrow> RawRecords RecordSet \<Rightarrow> i64 \<Rightarrow> 's FollowerReplicaState \<Rightarrow> (storage_error + bool) \<times> 's FollowerReplicaState" where
  "update_from_leader st rs leader_hw fo =
     (if total_records rs > 0 then
        (case write_recordsets st rs fo of
           (Inl e, fo) \<Rightarrow> (Inl e, fo)
         | (Inr _, fo) \<Rightarrow> follow_hw st leader_hw True fo)
      else follow_hw st leader_hw False fo)"

definition as_offset_request :: "'s FollowerReplicaState \<Rightarrow> OffsetInfo" where
  "as_offset_request fo = \<lparr>oi_hw = sh_hw (fo_inner fo), oi_leo = sh_leo (fo_inner fo)\<rparr>"

section \<open>The high watermark\<close>

text \<open>The greatest of some offsets that at least \<open>k\<close> of them have reached.\<close>

definition quorum_offset :: "nat \<Rightarrow> int list \<Rightarrow> int option" where
  "quorum_offset k xs = find (\<lambda>x. k \<le> length (filter (\<lambda>y. x \<le> y) xs)) (rev (sort xs))"

lemma insort_split:
  assumes "sorted (xs @ m # ys)"
  shows "insort x (xs @ m # ys) = (if m < x then xs @ m # insort x ys else insort x xs @ m # ys)"
  using assms by (induction xs) auto

lemma sort_snoc: "sort (xs @ [x]) = insort x (sort xs)"
  by (rule properties_for_sort) (simp_all add: sorted_insort)

lemma replace_min_top:
  assumes "0 < k" "k \<le> length xs"
  shows "replace_min (drop (length xs - k) (sort xs)) x = drop (Suc (length xs) - k) (sort (xs @ [x]))"
proof -
  let ?i = "length xs - k"
  have sort: "sort xs = take ?i (sort xs) @ sort xs ! ?i # drop (Suc ?i) (sort xs)"
    using assms by (intro id_take_nth_drop) simp
  then have "sorted (take ?i (sort xs) @ sort xs ! ?i # drop (Suc ?i) (sort xs))" by (metis sorted_sort)
  from insort_split [OF this, of x] have "insort x (sort xs) =
      (if sort xs ! ?i < x then take ?i (sort xs) @ sort xs ! ?i # insort x (drop (Suc ?i) (sort xs))
       else insort x (take ?i (sort xs)) @ sort xs ! ?i # drop (Suc ?i) (sort xs))"
    using sort by simp
  moreover have "drop ?i (sort xs) = sort xs ! ?i # drop (Suc ?i) (sort xs)"
    using assms by (intro Cons_nth_drop_Suc [symmetric]) simp
  ultimately show ?thesis using assms by (simp add: replace_min_def sort_snoc Suc_diff_le)
qed

lemma foldl_replace_min:
  assumes "0 < k" "k \<le> length xs"
  shows "foldl replace_min (drop (length xs - k) (sort xs)) ys = drop (length xs + length ys - k) (sort (xs @ ys))"
  using assms
proof (induction ys arbitrary: xs)
  case (Cons y ys)
  then show ?case
    using replace_min_top [OF Cons.prems, of y] Cons.IH [of "xs @ [y]"] by simp
qed simp

lemma count_reached:
  assumes "sorted xs" "0 < k" "k \<le> length xs"
  shows "k \<le> length (filter (\<lambda>y. x \<le> y) xs) \<longleftrightarrow> x \<le> xs ! (length xs - k)"
proof -
  let ?i = "length xs - k"
  have split: "length (filter (\<lambda>y. x \<le> y) xs) =
      length (filter (\<lambda>y. x \<le> y) (take n xs)) + length (filter (\<lambda>y. x \<le> y) (drop n xs))" for n
    by (metis append_take_drop_id filter_append length_append)
  show ?thesis
  proof
    assume "x \<le> xs ! ?i"
    moreover have "xs ! ?i \<le> y" if "y \<in> set (drop ?i xs)" for y
      using that assms by (auto simp: in_set_conv_nth intro!: sorted_nth_mono)
    ultimately have "filter (\<lambda>y. x \<le> y) (drop ?i xs) = drop ?i xs" by (intro filter_True) force
    then show "k \<le> length (filter (\<lambda>y. x \<le> y) xs)" using split [of ?i] assms by simp
  next
    assume *: "k \<le> length (filter (\<lambda>y. x \<le> y) xs)"
    show "x \<le> xs ! ?i"
    proof (rule ccontr)
      assume "\<not> x \<le> xs ! ?i"
      moreover have "y \<le> xs ! ?i" if "y \<in> set (take (Suc ?i) xs)" for y
        using that assms by (auto simp: in_set_conv_nth intro!: sorted_nth_mono)
      ultimately have "filter (\<lambda>y. x \<le> y) (take (Suc ?i) xs) = []" by (force simp: filter_empty_conv)
      then have "length (filter (\<lambda>y. x \<le> y) xs) = length (filter (\<lambda>y. x \<le> y) (drop (Suc ?i) xs))"
        using split [of "Suc ?i"] by simp
      also have "\<dots> \<le> length (drop (Suc ?i) xs)" by (rule length_filter_le)
      finally show False using * assms by simp
    qed
  qed
qed

lemma find_rev_sorted: "sorted xs \<Longrightarrow> c \<in> set xs \<Longrightarrow> find (\<lambda>x. x \<le> c) (rev xs) = Some c"
  by (induction xs rule: rev_induct) (auto simp: sorted_append intro: antisym)

lemma filter_sort_length: "length (filter P (sort xs)) = length (filter P xs)"
  by (metis mset_filter mset_sort size_mset)

lemma quorum_offset_eq:
  assumes "0 < k"
  shows "quorum_offset k xs = (if length xs < k then None else Some (sort xs ! (length xs - k)))"
proof (cases "length xs < k")
  case True
  then have "length (filter (\<lambda>y. x \<le> y) xs) < k" for x using length_filter_le le_less_trans by blast
  then show ?thesis using True by (simp add: quorum_offset_def find_None_iff not_le)
next
  case False
  let ?c = "sort xs ! (length xs - k)"
  have "(\<lambda>x. k \<le> length (filter (\<lambda>y. x \<le> y) xs)) = (\<lambda>x. x \<le> ?c)"
    using count_reached [of "sort xs" k] False assms by (auto simp: filter_sort_length)
  moreover have "?c \<in> set xs" using nth_mem [of "length xs - k" "sort xs"] False assms by simp
  ultimately show ?thesis using False find_rev_sorted [of "sort xs" ?c] by (simp add: quorum_offset_def)
qed

text \<open>The offsets of followers beyond the high watermark, and the number of followers that must have an offset.\<close>

definition leos_beyond :: "OffsetInfo \<Rightarrow> (SpuId \<times> OffsetInfo) list \<Rightarrow> int list" where
  "leos_beyond leader followers = filter (\<lambda>x. x > sint (oi_hw leader)) (map (\<lambda>f. sint (oi_leo (snd f))) followers)"

definition quorum :: "u16 \<Rightarrow> (SpuId \<times> OffsetInfo) list \<Rightarrow> nat" where
  "quorum min_replica followers = max 1 (min (unat (min_replica - 1)) (length followers))"

text \<open>
  C17. The high watermark that the leader computes with its bounded heap is the
  greatest log end offset beyond the current one that enough followers have
  reached: as many as in-sync replicas besides the leader are required, all of
  them if there are fewer, and at least one.
\<close>

theorem compute_hw_quorum:
  "compute_hw leader min_replica followers =
     map_option word_of_int (quorum_offset (quorum min_replica followers) (leos_beyond leader followers))"
proof -
  define q where "q = leos_beyond leader followers"
  define k where "k = min (unat (min_replica - 1)) (length followers)"
  have hw: "compute_hw leader min_replica followers =
      (if k = 0 then (if q = [] then None else Some (word_of_int (Max (set q))))
       else if length q < k then None
       else (case foldl replace_min (sort (take k q)) (drop k q) of [] \<Rightarrow> None | m # _ \<Rightarrow> Some (word_of_int m)))"
    by (simp only: compute_hw_def Let_def k_def q_def leos_beyond_def comp_def)
  have quorum: "quorum min_replica followers = max 1 k" by (simp add: quorum_def k_def)
  show ?thesis
  proof (cases "k = 0")
    case True
    have "Max (set (sort q)) = sort q ! (length q - 1)" if "q \<noteq> []"
      using that sorted_nth_mono [of "sort q" _ "length q - 1"] nth_mem [of "length q - 1" "sort q"]
      by (intro Max_eqI) (auto simp: in_set_conv_nth simp del: set_sort)
    then show ?thesis
      unfolding hw quorum q_def [symmetric] using True by (auto simp: quorum_offset_eq)
  next
    case False
    have "foldl replace_min (sort (take k q)) (drop k q) = sort q ! (length q - k) # drop (Suc (length q - k)) (sort q)"
      if "k \<le> length q"
      using that False foldl_replace_min [of k "take k q" "drop k q"] Cons_nth_drop_Suc [of "length q - k" "sort q"]
      by (simp add: min_absorb2)
    then show ?thesis
      unfolding hw quorum q_def [symmetric] using False by (auto simp: quorum_offset_eq max_def)
  qed
qed

section \<open>The contract of the storage\<close>

text \<open>
  What leader and follower rely on: \<open>holds s bs\<close> says that the storage holds the
  batches \<open>bs\<close>, contiguous from its start offset to its log end offset; batches
  it accepts are appended with the next offsets; the high watermark is a
  register; and a read from the beginning of a batch gives, up to the length
  limit, the bytes of at least one of the batches from there on.
\<close>

locale replica_storage =
  fixes crc32c :: "bytes \<Rightarrow> u32" and st :: "'s storage"
    and holds :: "'s \<Rightarrow> RawRecords Batch list \<Rightarrow> bool" and accepts :: "'s \<Rightarrow> RawRecords Batch list \<Rightarrow> bool"
  assumes offsets_law: "holds s bs \<Longrightarrow> 0 \<le> sint (st_start st s) \<and> chain (sint (st_start st s)) bs \<and>
      sint (st_leo st s) = chain_end (sint (st_start st s)) bs \<and> list_all (ok_batch (\<lambda>v. v) (\<lambda>_. True)) bs"
    and accepts_law: "accepts s (xs @ ys) \<Longrightarrow> accepts s xs"
    and write_law: "holds s bs \<Longrightarrow> accepts s (batches rs) \<Longrightarrow>
      \<exists>n s'. st_write st rs upd s = (Inr n, rs\<lparr>batches := renumber (st_leo st s) (batches rs)\<rparr>, s') \<and>
        holds s' (bs @ renumber (st_leo st s) (batches rs)) \<and>
        sint (st_leo st s') = sint (st_leo st s) + int (total_records rs) \<and> st_start st s' = st_start st s \<and>
        st_hw st s' = (if upd then st_leo st s' else st_hw st s)"
    and hw_law: "holds s bs \<Longrightarrow> \<exists>s'. st_update_hw st h s = (Inr (h \<noteq> st_hw st s), s') \<and> holds s' bs \<and>
        st_hw st s' = h \<and> st_leo st s' = st_leo st s \<and> st_start st s' = st_start st s"
    and read_law: "holds s (pre @ post) \<Longrightarrow> sint x = chain_end (sint (st_start st s)) pre \<Longrightarrow> post \<noteq> [] \<Longrightarrow>
      \<exists>r sl part rest. st_read st x max_len ReadUncommitted s = Some (Inr r) \<and> rsl_slice r = Some sl \<and>
        post = part @ rest \<and> part \<noteq> [] \<and> st_bytes st s sl = take (unat max_len) (log_bytes crc32c (\<lambda>v. v) part)"

text \<open>\<open>FileReplica\<close> keeps the contract.\<close>

definition file_holds :: "(bytes \<Rightarrow> u32) \<Rightarrow> mapping \<Rightarrow> FileReplica \<Rightarrow> RawRecords Batch list \<Rightarrow> bool" where
  "file_holds crc32c mm rep bs =
     (\<exists>bss act. rep_holds crc32c (\<lambda>v. v) (\<lambda>_. True) rep bss act \<and> bs = concat bss @ act \<and> ready mm rep)"

definition file_accepts :: "FileReplica \<Rightarrow> RawRecords Batch list \<Rightarrow> bool" where
  "file_accepts rep bs =
     (list_all (storable (\<lambda>v. v) (\<lambda>_. True) rep) bs \<and>
      sint (get_leo rep) + int (sum_list (map records_len bs)) < 2 ^ 63 \<and>
      sint (get_leo rep) + int (sum_list (map records_len bs)) - sint (sg_base (rp_active rep)) < 2 ^ 32)"

lemma segs_chain:
  assumes "segs_hold crc32c w p o0 ss bss"
  shows "chain o0 (concat bss) \<and> chain_end o0 (concat bss) = segs_end o0 ss \<and> list_all (ok_batch w p) (concat bss)"
  using assms
proof (induction ss arbitrary: o0 bss)
  case (Cons e ss)
  obtain k s where e: "e = (k, s)" by (cases e)
  with Cons.prems obtain bs bss' where h: "bss = bs # bss'" "sint (rs_base s) = o0" "rs_holds crc32c w p s bs"
      "segs_hold crc32c w p (sint (rs_end s)) ss bss'" by auto
  then have "chain o0 bs" "sint (rs_end s) = chain_end o0 bs" "list_all (ok_batch w p) bs"
    by (auto simp: rs_holds_def log_ok_def)
  then show ?case using Cons.IH [OF h(4)] by (simp add: e h(1) chain_end_def)
qed simp

lemma rep_chain:
  assumes "rep_holds crc32c w p rep bss act"
  shows "chain (first_offset rep) (concat bss @ act)" "chain_end (first_offset rep) (concat bss @ act) = sint (get_leo rep)"
    "list_all (ok_batch w p) (concat bss @ act)"
proof -
  have segs: "chain (first_offset rep) (concat bss)" "list_all (ok_batch w p) (concat bss)"
      "chain_end (first_offset rep) (concat bss) = sint (sg_base (rp_active rep))"
    using assms segs_chain [of crc32c w p "first_offset rep" "rp_segs rep" bss] by (auto simp: rep_holds_def)
  have "chain (sint (sg_base (rp_active rep))) act" "list_all (ok_batch w p) act"
      "sint (get_leo rep) = chain_end (sint (sg_base (rp_active rep))) act"
    using assms by (auto simp: rep_holds_def seg_holds_def log_ok_def get_leo_def)
  then show "chain (first_offset rep) (concat bss @ act)" "chain_end (first_offset rep) (concat bss @ act) = sint (get_leo rep)"
      "list_all (ok_batch w p) (concat bss @ act)"
    using segs by (simp_all add: chain_end_def)
qed

lemma between_from_boundary:
  assumes "chain o0 (pre @ post)"
  shows "batches_between (pre @ post) (chain_end o0 pre) (chain_end o0 (pre @ post)) = post"
proof -
  have "batch_end b \<le> chain_end o0 pre" if "b \<in> set pre" for b
    using chain_before [of o0 pre b] assms that by (simp add: batch_end_def)
  then have "dropWhile (\<lambda>b. batch_end b \<le> chain_end o0 pre) (pre @ post) =
      dropWhile (\<lambda>b. batch_end b \<le> chain_end o0 pre) post"
    by (simp add: dropWhile_append2)
  also have "\<dots> = post" using assms by (cases post) (auto simp: batch_end_def)
  finally have "dropWhile (\<lambda>b. batch_end b \<le> chain_end o0 pre) (pre @ post) = post" .
  moreover have "takeWhile (\<lambda>b. batch_end b \<le> chain_end o0 (pre @ post)) post = post"
    using chain_before [OF assms] by (auto simp: takeWhile_eq_all_conv batch_end_def)
  ultimately show ?thesis by (simp add: batches_between_def)
qed

interpretation fr: replica_storage crc32c "file_storage crc32c mm short" "file_holds crc32c mm" file_accepts
  for crc32c mm short
proof
  fix s :: FileReplica and bs
  assume h: "file_holds crc32c mm s bs"
  then obtain bss act where rep: "rep_holds crc32c (\<lambda>v. v) (\<lambda>_. True) s bss act" "bs = concat bss @ act" "ready mm s"
    by (auto simp: file_holds_def)
  let ?st = "file_storage crc32c mm short"
  note start = log_start_offset [OF rep(1)]
  have first: "0 \<le> first_offset s" using rep(1) by (simp add: rep_holds_def)
  show "0 \<le> sint (st_start ?st s) \<and> chain (sint (st_start ?st s)) bs \<and> sint (st_leo ?st s) = chain_end (sint (st_start ?st s)) bs \<and>
      list_all (ok_batch (\<lambda>v. v) (\<lambda>_. True)) bs"
    using rep_chain [OF rep(1)] start rep(2) first by (simp add: file_storage_def)
  fix h
  show "\<exists>s'. st_update_hw ?st h s = (Inr (h \<noteq> st_hw ?st s), s') \<and> file_holds crc32c mm s' bs \<and>
        st_hw ?st s' = h \<and> st_leo ?st s' = st_leo ?st s \<and> st_start ?st s' = st_start ?st s"
  proof (intro exI conjI)
    show "st_update_hw ?st h s = (Inr (h \<noteq> st_hw ?st s), s\<lparr>rp_hw := h\<rparr>)"
      by (auto simp: file_storage_def update_high_watermark_def)
    have "rep_holds crc32c (\<lambda>v. v) (\<lambda>_. True) (s\<lparr>rp_hw := h\<rparr>) bss act" "ready mm (s\<lparr>rp_hw := h\<rparr>)"
      using rep(1,3) by (simp_all add: rep_holds_def ready_def)
    then show "file_holds crc32c mm (s\<lparr>rp_hw := h\<rparr>) bs" using rep(2) by (auto simp: file_holds_def)
  qed (simp_all add: file_storage_def get_log_start_offset_def Let_def)
next
  fix s :: FileReplica and xs ys
  assume "file_accepts s (xs @ ys)"
  then show "file_accepts s xs" by (simp add: file_accepts_def)
next
  fix s :: FileReplica and bs upd and rs :: "RawRecords RecordSet"
  assume h: "file_holds crc32c mm s bs" "file_accepts s (batches rs)"
  let ?st = "file_storage crc32c mm short"
  show "\<exists>n s'. st_write ?st rs upd s = (Inr n, rs\<lparr>batches := renumber (st_leo ?st s) (batches rs)\<rparr>, s') \<and>
        file_holds crc32c mm s' (bs @ renumber (st_leo ?st s) (batches rs)) \<and>
        sint (st_leo ?st s') = sint (st_leo ?st s) + int (total_records rs) \<and> st_start ?st s' = st_start ?st s \<and>
        st_hw ?st s' = (if upd then st_leo ?st s' else st_hw ?st s)"
  proof -
    from h obtain bss act where rep: "rep_holds crc32c (\<lambda>v. v) (\<lambda>_. True) s bss act" "bs = concat bss @ act" "ready mm s"
      by (auto simp: file_holds_def)
    from h(2) have ok: "list_all (storable (\<lambda>v. v) (\<lambda>_. True) s) (batches rs)" "sint (get_leo s) + int (total_records rs) < 2 ^ 63"
        "sint (get_leo s) + int (total_records rs) - sint (sg_base (rp_active s)) < 2 ^ 32"
      by (simp_all add: file_accepts_def total_records_def)
    obtain s' bss' act' where s': "write_recordset crc32c enc_raw mm rs upd s = (Inr (length (log_bytes crc32c (\<lambda>v. v) (batches rs))),
          rs\<lparr>batches := renumber (get_leo s) (batches rs)\<rparr>, s')"
        "rep_holds crc32c (\<lambda>v. v) (\<lambda>_. True) s' bss' act'" "ready mm s'"
        "concat bss' @ act' = concat bss @ act @ renumber (get_leo s) (batches rs)"
        "sint (get_leo s') = sint (get_leo s) + int (total_records rs)" "first_offset s' = first_offset s"
        "rp_hw s' = (if upd then get_leo s' else rp_hw s)"
      using raw.write_recordset_ok [OF rep(1,3) ok, of upd] by metis
    have "get_log_start_offset s' = get_log_start_offset s"
      using log_start_offset [OF rep(1)] log_start_offset [OF s'(2)] s'(6) by (intro sint_eqI) simp
    moreover have "file_holds crc32c mm s' (bs @ renumber (get_leo s) (batches rs))"
      unfolding file_holds_def using s'(2-4) rep(2) by (intro exI [of _ bss'] exI [of _ act']) simp
    ultimately show ?thesis using s'(1,5,7) by (simp add: file_storage_def)
  qed
next
  fix s :: FileReplica and pre post and x :: i64 and max_len
  assume h: "file_holds crc32c mm s (pre @ post)" "sint x = chain_end (sint (st_start (file_storage crc32c mm short) s)) pre"
    "post \<noteq> []"
  let ?st = "file_storage crc32c mm short"
  show "\<exists>r sl part rest. st_read ?st x max_len ReadUncommitted s = Some (Inr r) \<and> rsl_slice r = Some sl \<and>
        post = part @ rest \<and> part \<noteq> [] \<and> st_bytes ?st s sl = take (unat max_len) (log_bytes crc32c (\<lambda>v. v) part)"
  proof -
    from h(1) obtain bss act where rep: "rep_holds crc32c (\<lambda>v. v) (\<lambda>_. True) s bss act" "concat bss @ act = pre @ post"
      by (auto simp: file_holds_def)
    have x: "sint x = chain_end (first_offset s) pre"
      using h(2) log_start_offset [OF rep(1)] by (simp add: file_storage_def)
    note log = rep_chain [OF rep(1), unfolded rep(2)]
    have less: "sint x < sint (get_leo s)" "first_offset s \<le> sint x"
      using log(1,2) h(3) x chain_end_ge [of "first_offset s" pre] by (cases post; simp add: chain_end_def)+
    then obtain sl part rest where sl: "read_partition_slice short x max_len ReadUncommitted s = Some (Inr (slice_header s sl))"
        "slice_bytes s sl = take (unat max_len) (log_bytes crc32c (\<lambda>v. v) part)"
        "batches_between (concat bss @ act) (sint x) (isolation_limit s ReadUncommitted) = part @ rest" "part = [] \<longrightarrow> rest = []"
      using read_partition_ok [OF rep(1), of x ReadUncommitted short max_len] by (auto simp: isolation_limit_def)
    have "post = part @ rest"
      using sl(3) between_from_boundary [OF log(1)] x log(2) rep(2) by (simp add: isolation_limit_def)
    then show ?thesis
      using sl(1,2,4) h(3)
      by (intro exI [of _ "slice_header s sl"] exI [of _ sl] exI [of _ part] exI [of _ rest])
        (auto simp: file_storage_def slice_header_def)
  qed
qed

section \<open>What a leader keeps\<close>

text \<open>
  The published offsets are those of the storage, the high watermark is within
  the log, and no follower is known to be ahead of the leader.
\<close>

definition leader_ok ::
  "'s storage \<Rightarrow> ('s \<Rightarrow> RawRecords Batch list \<Rightarrow> bool) \<Rightarrow> 's LeaderReplicaState \<Rightarrow> RawRecords Batch list \<Rightarrow> bool" where
  "leader_ok st holds ld bs =
     (let sh = ld_storage ld
      in holds (sh_inner sh) bs \<and> sh_leo sh = st_leo st (sh_inner sh) \<and> sh_hw sh = st_hw st (sh_inner sh) \<and>
         sint (sh_hw sh) \<le> sint (sh_leo sh) \<and> bt_wf (ld_followers ld) \<and>
         (\<forall>f \<in> set (ld_followers ld). sint (oi_leo (snd f)) \<le> sint (sh_leo sh)))"

lemma leader_okD:
  assumes "leader_ok st holds ld bs"
  shows "holds (sh_inner (ld_storage ld)) bs" "sh_leo (ld_storage ld) = st_leo st (sh_inner (ld_storage ld))"
    "sh_hw (ld_storage ld) = st_hw st (sh_inner (ld_storage ld))"
  using assms by (simp_all add: leader_ok_def Let_def)

text \<open>How many followers have reported an offset.\<close>

definition reached :: "int \<Rightarrow> (SpuId \<times> OffsetInfo) list \<Rightarrow> nat" where
  "reached x followers = length (filter (\<lambda>f. x \<le> sint (oi_leo (snd f))) followers)"

definition followers_grow :: "(SpuId \<times> OffsetInfo) list \<Rightarrow> (SpuId \<times> OffsetInfo) list \<Rightarrow> bool" where
  "followers_grow fs gs = list_all2 (\<lambda>f g. fst f = fst g \<and> sint (oi_leo (snd f)) \<le> sint (oi_leo (snd g))) fs gs"

definition leader_advance :: "'s LeaderReplicaState \<Rightarrow> 's LeaderReplicaState \<Rightarrow> bool" where
  "leader_advance ld ld' =
     (ld_in_sync_replica ld' = ld_in_sync_replica ld \<and> followers_grow (ld_followers ld) (ld_followers ld') \<and>
      sint (sh_hw (ld_storage ld)) \<le> sint (sh_hw (ld_storage ld')) \<and>
      (sh_hw (ld_storage ld') = sh_hw (ld_storage ld) \<or> ld_in_sync_replica ld = 1 \<or>
       quorum (ld_in_sync_replica ld) (ld_followers ld') \<le> reached (sint (sh_hw (ld_storage ld'))) (ld_followers ld')))"

lemma followers_grow_refl [simp]: "followers_grow fs fs"
  by (simp add: followers_grow_def list_all2_refl)

lemma followers_grow_trans: "followers_grow fs gs \<Longrightarrow> followers_grow gs hs \<Longrightarrow> followers_grow fs hs"
  by (force simp: followers_grow_def list_all2_conv_all_nth)

lemma followers_grow_length: "followers_grow fs gs \<Longrightarrow> length gs = length fs"
  by (simp add: followers_grow_def list_all2_lengthD)

lemma reached_mono: "followers_grow fs gs \<Longrightarrow> reached x fs \<le> reached x gs"
  unfolding followers_grow_def by (induction rule: list_all2_induct) (auto simp: reached_def)

lemma quorum_grow: "followers_grow fs gs \<Longrightarrow> quorum n gs = quorum n fs"
  by (simp add: quorum_def followers_grow_length)

lemma leader_advance_refl [simp]: "leader_advance ld ld"
  by (simp add: leader_advance_def)

lemma leader_advance_trans:
  assumes "leader_advance a b" "leader_advance b c"
  shows "leader_advance a c"
proof -
  have grow: "followers_grow (ld_followers b) (ld_followers c)" using assms(2) by (simp add: leader_advance_def)
  have "quorum n (ld_followers b) \<le> reached x (ld_followers b) \<Longrightarrow>
      quorum n (ld_followers c) \<le> reached x (ld_followers c)" for n x
    using reached_mono [OF grow, of x] quorum_grow [OF grow, of n] by simp
  then show ?thesis
    using assms followers_grow_trans [of "ld_followers a" "ld_followers b" "ld_followers c"]
    unfolding leader_advance_def by (elim conjE disjE) simp_all
qed

lemma bt_insert_existing:
  assumes "bt_wf m" "map_of m k = Some v"
  shows "bt_insert k v' m = map (\<lambda>e. if fst e = k then (k, v') else e) m"
  using assms
proof (induction k v' m rule: bt_insert.induct)
  case (2 k v' k1 v1 m)
  have above: "k1 < k'" if "(k', v'') \<in> set m" for k' v'' using 2 that by (force simp: bt_wf_Cons)
  show ?case
  proof (cases "k = k1")
    case True
    have "map (\<lambda>e. if fst e = k then (k, v') else e) m = m"
      using above True by (intro map_idI) (auto dest: above)
    then show ?thesis using True by simp
  next
    case False
    then have "map_of m k = Some v" using 2 by simp
    then show ?thesis using 2 above [OF map_of_SomeD, of k v] False by (auto simp: bt_wf_Cons)
  qed
qed simp

lemma oi_update_leo:
  assumes "oi_update pos info = (b, info')"
  shows "sint (oi_leo info') = max (sint (oi_leo pos)) (sint (oi_leo info))"
  using assms by (auto simp: oi_update_def Let_def split: if_splits)

lemma grow_insert:
  assumes "bt_wf fs" "map_of fs i = Some info" "oi_update pos info = (b, info')"
  shows "followers_grow fs (bt_insert i info' fs)"
proof -
  have "map_of fs (fst f) = Some (snd f)" if "f \<in> set fs" for f
    using that bt_wf_distinct [OF assms(1)] by (intro map_of_is_SomeI) simp_all
  then have "fst f = i \<Longrightarrow> snd f = info" if "f \<in> set fs" for f using that assms(2) by fastforce
  then show ?thesis
    unfolding followers_grow_def bt_insert_existing [OF assms(1,2)]
    using oi_update_leo [OF assms(3)] by (auto simp: list.rel_map intro!: list.rel_refl_strong)
qed

text \<open>What the computed high watermark has behind it.\<close>

lemma quorum_offset_SomeD:
  assumes "quorum_offset k xs = Some x"
  shows "x \<in> set xs" "k \<le> length (filter (\<lambda>y. x \<le> y) xs)"
proof -
  obtain i where i: "i < length (rev (sort xs))" "x = rev (sort xs) ! i" "k \<le> length (filter (\<lambda>y. x \<le> y) xs)"
    using assms by (auto simp: quorum_offset_def find_Some_iff)
  then show "k \<le> length (filter (\<lambda>y. x \<le> y) xs)" by simp
  have "x \<in> set (rev (sort xs))" using i(1,2) nth_mem by blast
  then show "x \<in> set xs" by simp
qed

lemma compute_hw_SomeD:
  assumes "compute_hw leader n fs = Some h"
  shows "sint (oi_hw leader) < sint h" "\<exists>f \<in> set fs. oi_leo (snd f) = h" "quorum n fs \<le> reached (sint h) fs"
proof -
  obtain x where x: "quorum_offset (quorum n fs) (leos_beyond leader fs) = Some x" "h = word_of_int x"
    using assms by (auto simp: compute_hw_quorum)
  note q = quorum_offset_SomeD [OF x(1)]
  then obtain f where f: "f \<in> set fs" "x = sint (oi_leo (snd f))" "sint (oi_hw leader) < x"
    by (auto simp: leos_beyond_def)
  then show "\<exists>f \<in> set fs. oi_leo (snd f) = h" "sint (oi_hw leader) < sint h" using x(2) by auto
  have "h = oi_leo (snd f)" using f(2) x(2) by simp
  then have "filter (\<lambda>y. x \<le> y) (leos_beyond leader fs) = map (\<lambda>f. sint (oi_leo (snd f))) (filter (\<lambda>g. sint h \<le> sint (oi_leo (snd g))) fs)"
    using f(2,3) by (simp add: leos_beyond_def filter_map comp_def) (intro arg_cong [where f = "map _"] filter_cong; auto)
  then show "quorum n fs \<le> reached (sint h) fs" using q(2) by (simp add: reached_def)
qed

lemma leader_advanceI:
  assumes "ld_in_sync_replica ld' = ld_in_sync_replica ld" "followers_grow (ld_followers ld) (ld_followers ld')"
    and "sh_hw (ld_storage ld') = sh_hw (ld_storage ld)"
  shows "leader_advance ld ld'"
  using assms by (simp add: leader_advance_def)

text \<open>
  A history of a leader: records are produced or mirrored, followers report
  offsets, in any order and with any offsets. Record sets are such that the
  storage accepts them.
\<close>

definition storable_set ::
  "('s \<Rightarrow> RawRecords Batch list \<Rightarrow> bool) \<Rightarrow> (RawRecords RecordSet \<Rightarrow> storage_error + RawRecords RecordSet) option
    \<Rightarrow> RawRecords RecordSet \<Rightarrow> 's LeaderReplicaState \<Rightarrow> bool" where
  "storable_set accepts sm_ctx rs ld =
     (\<forall>rs'. leader_transform sm_ctx rs = Inr rs' \<longrightarrow> accepts (sh_inner (ld_storage ld)) (batches rs'))"

inductive leader_steps ::
  "'s storage \<Rightarrow> ('s \<Rightarrow> RawRecords Batch list \<Rightarrow> bool) \<Rightarrow> Comms \<times> 's LeaderReplicaState \<Rightarrow> Comms \<times> 's LeaderReplicaState \<Rightarrow> bool"
  for st accepts start where
  nothing: "leader_steps st accepts start start"
| produce: "leader_steps st accepts start (comms, ld) \<Longrightarrow> storable_set accepts sm_ctx rs ld \<Longrightarrow>
    leader_write_record_set st sm_ctx rs comms ld = (r, comms', ld') \<Longrightarrow> leader_steps st accepts start (comms', ld')"
| mirror: "leader_steps st accepts start (comms, ld) \<Longrightarrow> storable_set accepts sm_ctx rs ld \<Longrightarrow>
    append_record_set st sm_ctx rs comms ld = (r', comms', ld') \<Longrightarrow> leader_steps st accepts start (comms', ld')"
| report: "leader_steps st accepts start (comms, ld) \<Longrightarrow>
    update_states_from_followers st i pos comms ld = (b, comms', ld') \<Longrightarrow> leader_steps st accepts start (comms', ld')"

context replica_storage
begin

lemma update_hw_ok:
  assumes "holds (sh_inner sh) bs" "sh_leo sh = st_leo st (sh_inner sh)" "sh_hw sh = st_hw st (sh_inner sh)"
  obtains b sh' where "sh_update_hw st h sh = (Inr b, sh')" "holds (sh_inner sh') bs" "sh_hw sh' = h"
    "sh_leo sh' = sh_leo sh" "sh_leo sh' = st_leo st (sh_inner sh')" "sh_hw sh' = st_hw st (sh_inner sh')"
    "st_start st (sh_inner sh') = st_start st (sh_inner sh)"
proof -
  obtain s' where s': "st_update_hw st h (sh_inner sh) = (Inr (h \<noteq> st_hw st (sh_inner sh)), s')" "holds s' bs" "st_hw st s' = h"
      "st_leo st s' = st_leo st (sh_inner sh)" "st_start st s' = st_start st (sh_inner sh)"
    using hw_law [OF assms(1), of h] by blast
  show thesis
  proof (cases "h = st_hw st (sh_inner sh)")
    case True
    then show thesis using s' assms by (intro that [of False "sh\<lparr>sh_inner := s'\<rparr>"]) (simp_all add: sh_update_hw_def)
  next
    case False
    then show thesis using s' assms by (intro that [of True "sh\<lparr>sh_inner := s', sh_hw := h\<rparr>"]) (simp_all add: sh_update_hw_def)
  qed
qed

lemma sh_write_ok:
  assumes "holds (sh_inner sh) bs" "sh_leo sh = st_leo st (sh_inner sh)" "sh_hw sh = st_hw st (sh_inner sh)"
    and "accepts (sh_inner sh) (batches rs)"
  obtains r rs' sh' where "sh_write_record_set st rs upd sh = (Inr r, rs', sh')"
    "holds (sh_inner sh') (bs @ renumber (sh_leo sh) (batches rs))"
    "sh_leo sh' = st_leo st (sh_inner sh')" "sh_hw sh' = st_hw st (sh_inner sh')"
    "sint (sh_leo sh') = sint (sh_leo sh) + int (total_records rs)"
    "sh_hw sh' = (if upd then sh_leo sh' else sh_hw sh)" "st_start st (sh_inner sh') = st_start st (sh_inner sh)"
proof -
  obtain n s' where s': "st_write st rs upd (sh_inner sh) = (Inr n, rs\<lparr>batches := renumber (sh_leo sh) (batches rs)\<rparr>, s')"
      "holds s' (bs @ renumber (sh_leo sh) (batches rs))"
      "sint (st_leo st s') = sint (sh_leo sh) + int (total_records rs)" "st_start st s' = st_start st (sh_inner sh)"
      "st_hw st s' = (if upd then st_leo st s' else sh_hw sh)"
    using write_law [OF assms(1,4), of upd] assms(2,3) by auto
  let ?sh = "if upd then sh\<lparr>sh_inner := s', sh_leo := st_leo st s', sh_hw := st_hw st s'\<rparr>
             else sh\<lparr>sh_inner := s', sh_leo := st_leo st s'\<rparr>"
  show thesis
    by (rule that [of _ _ ?sh]) (use s' assms in \<open>auto simp: sh_write_record_set_def Let_def\<close>)
qed

lemma report_ok:
  assumes ok: "leader_ok st holds ld bs" and step: "update_states_from_followers st i pos comms ld = (b, comms', ld')"
  shows "leader_ok st holds ld' bs \<and> leader_advance ld ld'"
proof -
  let ?lp = "sh_as_offset (ld_storage ld)"
  consider "ld' = ld"
    | info info' where "\<not> oi_newer pos ?lp" "map_of (ld_followers ld) i = Some info" "oi_update pos info = (True, info')"
      "ld' = (let ld = ld\<lparr>ld_followers := bt_insert i info' (ld_followers ld)\<rparr>
              in if oi_is_committed ?lp then ld
                 else (case compute_hw ?lp (ld_in_sync_replica ld) (ld_followers ld) of
                         None \<Rightarrow> ld
                       | Some hw \<Rightarrow> ld\<lparr>ld_storage := snd (sh_update_hw st hw (ld_storage ld))\<rparr>))"
    using step by (auto simp: update_states_from_followers_def Let_def split: if_splits option.splits prod.splits bool.splits)
  then show ?thesis
  proof cases
    case 2
    let ?ld = "ld\<lparr>ld_followers := bt_insert i info' (ld_followers ld)\<rparr>"
    have wf: "bt_wf (ld_followers ld)" using ok by (simp add: leader_ok_def Let_def)
    note grow = grow_insert [OF wf 2(2,3)]
    have "sint (oi_leo pos) \<le> sint (sh_leo (ld_storage ld))" using 2(1) by (simp add: oi_newer_def sh_as_offset_def)
    then have "\<forall>f \<in> set (bt_insert i info' (ld_followers ld)). sint (oi_leo (snd f)) \<le> sint (sh_leo (ld_storage ld))"
      using ok oi_update_leo [OF 2(3)] map_of_SomeD [OF 2(2)] unfolding bt_insert_existing [OF wf 2(2)]
      by (auto simp: leader_ok_def Let_def)
    then have ok1: "leader_ok st holds ?ld bs" and adv1: "leader_advance ld ?ld"
      using ok grow by (auto simp: leader_ok_def Let_def leader_advanceI)
    show ?thesis
    proof (cases "ld' = ?ld")
      case False
      then obtain h where h: "compute_hw ?lp (ld_in_sync_replica ld) (ld_followers ?ld) = Some h"
          "ld' = ?ld\<lparr>ld_storage := snd (sh_update_hw st h (ld_storage ld))\<rparr>"
        using 2(4) by (auto simp: Let_def split: if_splits option.splits)
      note hw = compute_hw_SomeD [OF h(1)]
      obtain b sh' where sh': "sh_update_hw st h (ld_storage ld) = (Inr b, sh')" "holds (sh_inner sh') bs" "sh_hw sh' = h"
          "sh_leo sh' = sh_leo (ld_storage ld)" "sh_leo sh' = st_leo st (sh_inner sh')" "sh_hw sh' = st_hw st (sh_inner sh')"
        by (rule update_hw_ok [OF leader_okD [OF ok], where h = h])
      have "sint h \<le> sint (sh_leo (ld_storage ld))" using hw(2) ok1 by (auto simp: leader_ok_def Let_def)
      then have "leader_ok st holds ld' bs" using h(2) ok1 sh' by (auto simp: leader_ok_def Let_def)
      moreover have "leader_advance ld ld'"
        using h(2) sh'(1,3) hw(1,3) grow by (simp add: leader_advance_def sh_as_offset_def)
      ultimately show ?thesis ..
    qed (use ok1 adv1 in simp)
  qed (use ok in simp)
qed

lemma produce_ok:
  assumes ok: "leader_ok st holds ld bs" and acc: "storable_set accepts sm_ctx rs ld"
    and step: "leader_write_record_set st sm_ctx rs comms ld = (r, comms', ld')"
  shows "\<exists>new. leader_ok st holds ld' (bs @ new) \<and> leader_advance ld ld'"
proof (cases "\<exists>rs'. leader_transform sm_ctx rs = Inr rs' \<and> total_records rs' \<noteq> 0")
  case False
  then have "ld' = ld" using step by (auto simp: leader_write_record_set_def split: sum.splits if_splits)
  then show ?thesis using ok by (intro exI [of _ "[]"]) simp
next
  case True
  then obtain rs' where rs': "leader_transform sm_ctx rs = Inr rs'" "total_records rs' \<noteq> 0" by blast
  let ?upd = "ld_in_sync_replica ld = 1"
  have "accepts (sh_inner (ld_storage ld)) (batches rs')" using acc rs'(1) by (simp add: storable_set_def)
  then obtain r' rs'' sh' where sh': "sh_write_record_set st rs' ?upd (ld_storage ld) = (Inr r', rs'', sh')"
      "holds (sh_inner sh') (bs @ renumber (sh_leo (ld_storage ld)) (batches rs'))"
      "sh_leo sh' = st_leo st (sh_inner sh')" "sh_hw sh' = st_hw st (sh_inner sh')"
      "sint (sh_leo sh') = sint (sh_leo (ld_storage ld)) + int (total_records rs')"
      "sh_hw sh' = (if ?upd then sh_leo sh' else sh_hw (ld_storage ld))"
    by (rule sh_write_ok [OF leader_okD [OF ok], where upd = ?upd])
  have ld': "ld' = ld\<lparr>ld_storage := sh'\<rparr>"
    using step rs' sh'(1) by (simp add: leader_write_record_set_def Let_def)
  have "leader_ok st holds ld' (bs @ renumber (sh_leo (ld_storage ld)) (batches rs'))"
    using ok sh'(2-6) unfolding ld' leader_ok_def Let_def by (cases ?upd) (auto intro: order_trans)
  moreover have "leader_advance ld ld'"
    using ok sh'(5,6) unfolding ld' leader_advance_def leader_ok_def Let_def by auto
  ultimately show ?thesis by blast
qed

lemma mirror_ok:
  assumes "leader_ok st holds ld bs" "storable_set accepts sm_ctx rs ld" "append_record_set st sm_ctx rs comms ld = (r, comms', ld')"
  shows "\<exists>new. leader_ok st holds ld' (bs @ new) \<and> leader_advance ld ld'"
proof (cases "ld' = ld")
  case True
  then show ?thesis using assms(1) by (intro exI [of _ "[]"]) simp
next
  case False
  then obtain r' where "leader_write_record_set st sm_ctx rs comms ld = (r', comms', ld')"
    using assms(3) by (auto simp: append_record_set_def split: if_splits prod.splits sum.splits)
  then show ?thesis by (rule produce_ok [OF assms(1,2)])
qed

lemma steps_ok:
  assumes "leader_steps st accepts start fin" "leader_ok st holds (snd start) bs"
  shows "\<exists>new. leader_ok st holds (snd fin) (bs @ new) \<and> leader_advance (snd start) (snd fin)"
  using assms
proof (induction rule: leader_steps.induct)
  case nothing
  then show ?case by (intro exI [of _ "[]"]) simp
next
  case (produce comms ld sm_ctx rs r comms' ld')
  then obtain new new' where "leader_ok st holds ld' ((bs @ new) @ new')" "leader_advance (snd start) ld" "leader_advance ld ld'"
    using produce_ok [of ld "bs @ _"] by fastforce
  then show ?case by (intro exI [of _ "new @ new'"]) (auto intro: leader_advance_trans)
next
  case (mirror comms ld sm_ctx rs r comms' ld')
  then obtain new new' where "leader_ok st holds ld' ((bs @ new) @ new')" "leader_advance (snd start) ld" "leader_advance ld ld'"
    using mirror_ok [of ld "bs @ _"] by fastforce
  then show ?case by (intro exI [of _ "new @ new'"]) (auto intro: leader_advance_trans)
next
  case (report comms ld i pos b comms' ld')
  then show ?case using report_ok [of ld "bs @ _"] by (fastforce intro: leader_advance_trans)
qed

end

section \<open>Properties of the leader\<close>

text \<open>
  C18. Whatever is produced, mirrored and reported, in any order and with any
  reported offsets: the log of the leader only grows, its high watermark never
  moves back and never passes the log end, and the published offsets are those
  of the storage.
\<close>

theorem leader_log_and_hw_grow:
  assumes "leader_steps (file_storage crc32c mm short) file_accepts (comms, ld) (comms', ld')"
    and "leader_ok (file_storage crc32c mm short) (file_holds crc32c mm) ld bs"
  shows "\<exists>new. leader_ok (file_storage crc32c mm short) (file_holds crc32c mm) ld' (bs @ new) \<and>
           sint (sh_hw (ld_storage ld)) \<le> sint (sh_hw (ld_storage ld'))"
  using fr.steps_ok [OF assms(1)] assms(2) by (auto simp: leader_advance_def)

text \<open>
  C7. A leader with more than one in-sync replica commits nothing on its own:
  when its high watermark has moved, at least as many followers have reported
  the new one as in-sync replicas besides the leader are required (all
  followers if there are fewer), and still have.
\<close>

theorem committed_by_quorum:
  assumes "leader_steps (file_storage crc32c mm short) file_accepts (comms, ld) (comms', ld')"
    and "leader_ok (file_storage crc32c mm short) (file_holds crc32c mm) ld bs"
    and "ld_in_sync_replica ld \<noteq> 1" "sh_hw (ld_storage ld') \<noteq> sh_hw (ld_storage ld)"
  shows "min (unat (ld_in_sync_replica ld - 1)) (length (ld_followers ld)) \<le>
           length (filter (\<lambda>f. sint (sh_hw (ld_storage ld')) \<le> sint (oi_leo (snd f))) (ld_followers ld'))"
proof -
  have "leader_advance ld ld'" using fr.steps_ok [OF assms(1)] assms(2) by auto
  then have "quorum (ld_in_sync_replica ld) (ld_followers ld') \<le> reached (sint (sh_hw (ld_storage ld'))) (ld_followers ld')"
      "length (ld_followers ld') = length (ld_followers ld)"
    using assms(3,4) followers_grow_length by (auto simp: leader_advance_def)
  then show ?thesis unfolding quorum_def reached_def by linarith
qed

text \<open>A leader with two followers on the new replica of the examples, for which one record is produced.\<close>

definition leader0 :: "FileReplica LeaderReplicaState" where
  "leader0 = leader_new \<lparr>rk_topic = ''t'', rk_partition = 0\<rparr> 1 [1, 2, 3] (sh_create (file_storage (\<lambda>_. 0) mm0 (\<lambda>_. 3)) rep0)"

definition comms0 :: Comms where
  "comms0 = \<lparr>cm_notifier = [], cm_status = []\<rparr>"

lemma leader0_simps:
  "ld_followers leader0 = [(2, default_offset_info), (3, default_offset_info)]" "ld_in_sync_replica leader0 = 3"
  "sh_inner (ld_storage leader0) = rep0" "sh_leo (ld_storage leader0) = 10" "sh_hw (ld_storage leader0) = 10"
  using rep0_simps
  by (simp_all add: leader0_def leader_new_def ids_to_map_def sh_create_def file_storage_def) (simp add: rep0_def)

lemma leader0_ok: "leader_ok (file_storage (\<lambda>_. 0) mm0 (\<lambda>_. 3)) (file_holds (\<lambda>_. 0) mm0) leader0 []"
proof -
  have "rp_hw rep0 = 10" by (simp add: rep0_def)
  moreover have "file_holds (\<lambda>_. 0) mm0 rep0 []"
    unfolding file_holds_def using rep0_holds rep0_ready by (intro exI [of _ "[]"]) simp
  ultimately show ?thesis
    using rep0_simps by (simp add: leader_ok_def leader0_simps file_storage_def bt_wf_def default_offset_info_def)
qed

lemma accepts_one_record: "file_accepts rep0 [one_record]"
  using storable_one_record by (simp add: file_accepts_def rep0_simps one_record_simps)

text \<open>A record is produced and both followers report it.\<close>

lemma example_leader:
  obtains comms ld where "leader_steps (file_storage (\<lambda>_. 0) mm0 (\<lambda>_. 3)) file_accepts (comms0, leader0) (comms, ld)"
    "sh_hw (ld_storage ld) = 11" "sh_leo (ld_storage ld) = 11" "ld_leader ld = 1"
    "ld_followers ld = [(2, \<lparr>oi_hw = 10, oi_leo = 11\<rparr>), (3, \<lparr>oi_hw = 10, oi_leo = 11\<rparr>)]"
proof -
  let ?st = "file_storage (\<lambda>_. 0) mm0 (\<lambda>_. 3)" and ?rs = "\<lparr>batches = [one_record]\<rparr>"
  let ?info = "\<lparr>oi_hw = 10, oi_leo = 11\<rparr>"
  have acc: "file_accepts (sh_inner (ld_storage leader0)) (batches ?rs)" using accepts_one_record by (simp add: leader0_simps)
  obtain r rs' sh1 where sh1: "sh_write_record_set ?st ?rs False (ld_storage leader0) = (Inr r, rs', sh1)"
      "file_holds (\<lambda>_. 0) mm0 (sh_inner sh1) ([] @ renumber (sh_leo (ld_storage leader0)) (batches ?rs))"
      "sh_leo sh1 = st_leo ?st (sh_inner sh1)" "sh_hw sh1 = st_hw ?st (sh_inner sh1)"
      "sint (sh_leo sh1) = sint (sh_leo (ld_storage leader0)) + int (total_records ?rs)"
      "sh_hw sh1 = (if False then sh_leo sh1 else sh_hw (ld_storage leader0))"
    by (rule fr.sh_write_ok [OF leader_okD [OF leader0_ok] acc, where upd = False])
  have offsets: "sh_leo sh1 = 11" "sh_hw sh1 = 10"
    using sh1(5,6) by (auto intro!: sint_eqI simp: leader0_simps total_records_def one_record_simps)
  have accs: "storable_set file_accepts None ?rs leader0" using acc by (simp add: storable_set_def leader_transform_def)
  let ?ld1 = "leader0\<lparr>ld_storage := sh1\<rparr>"
  let ?ld2 = "?ld1\<lparr>ld_followers := [(2, ?info), (3, default_offset_info)]\<rparr>"
  obtain comms1 where "leader_write_record_set ?st None ?rs comms0 leader0 = (Inr r, comms1, ?ld1)"
    using sh1(1) by (simp add: leader_write_record_set_def leader_transform_def total_records_def one_record_simps leader0_simps Let_def)
  then have s1: "leader_steps ?st file_accepts (comms0, leader0) (comms1, ?ld1)"
    by (rule leader_steps.produce [OF leader_steps.nothing accs])
  have new: "\<not> oi_newer ?info (sh_as_offset sh1)" "\<not> oi_is_committed (sh_as_offset sh1)"
      "oi_update ?info default_offset_info = (True, ?info)"
    using offsets by (simp_all add: oi_newer_def oi_is_committed_def sh_as_offset_def oi_update_def default_offset_info_def)
  have hw: "compute_hw (sh_as_offset sh1) 3 [(2, ?info), (3, default_offset_info)] = None"
      "compute_hw (sh_as_offset sh1) 3 [(2, ?info), (3, ?info)] = Some 11"
    using offsets by (simp_all add: compute_hw_def sh_as_offset_def default_offset_info_def)
  obtain comms2 where "update_states_from_followers ?st 2 ?info comms1 ?ld1 = (True, comms2, ?ld2)"
    using new hw(1) by (simp add: update_states_from_followers_def leader0_simps Let_def)
  note s2 = leader_steps.report [OF s1 this]
  obtain b sh2 where sh2: "sh_update_hw ?st 11 sh1 = (Inr b, sh2)" "sh_hw sh2 = 11" "sh_leo sh2 = sh_leo sh1"
    by (rule fr.update_hw_ok [OF sh1(2-4), where h = 11])
  obtain comms3 where "update_states_from_followers ?st 3 ?info comms2 ?ld2 =
      (True, comms3, ?ld2\<lparr>ld_followers := [(2, ?info), (3, ?info)], ld_storage := sh2\<rparr>)"
    using new hw(2) sh2(1) by (simp add: update_states_from_followers_def leader0_simps Let_def)
  from that [OF leader_steps.report [OF s2 this]] show thesis
    using sh2(2,3) offsets(1) by (simp add: leader0_def leader_new_def)
qed

lemma example_history:
  obtains comms ld where "leader_steps (file_storage (\<lambda>_. 0) mm0 (\<lambda>_. 3)) file_accepts (comms0, leader0) (comms, ld)"
    "sh_hw (ld_storage ld) = 11"
  by (rule example_leader)

theorem leader_log_and_hw_grow_witness:
  "\<exists>comms ld bs. leader_steps (file_storage (\<lambda>_. 0) mm0 (\<lambda>_. 3)) file_accepts (comms0, leader0) (comms, ld) \<and>
     leader_ok (file_storage (\<lambda>_. 0) mm0 (\<lambda>_. 3)) (file_holds (\<lambda>_. 0) mm0) ld bs \<and> sh_hw (ld_storage ld) = 11"
proof -
  obtain comms ld where h: "leader_steps (file_storage (\<lambda>_. 0) mm0 (\<lambda>_. 3)) file_accepts (comms0, leader0) (comms, ld)"
    "sh_hw (ld_storage ld) = 11" by (rule example_history)
  then show ?thesis using leader_log_and_hw_grow [OF h(1) leader0_ok] by blast
qed

theorem committed_by_quorum_witness:
  "\<exists>comms ld. leader_steps (file_storage (\<lambda>_. 0) mm0 (\<lambda>_. 3)) file_accepts (comms0, leader0) (comms, ld) \<and>
     sh_hw (ld_storage ld) = 11 \<and> 2 \<le> length (filter (\<lambda>f. 11 \<le> sint (oi_leo (snd f))) (ld_followers ld))"
proof -
  obtain comms ld where h: "leader_steps (file_storage (\<lambda>_. 0) mm0 (\<lambda>_. 3)) file_accepts (comms0, leader0) (comms, ld)"
    "sh_hw (ld_storage ld) = 11" by (rule example_history)
  then show ?thesis
    using committed_by_quorum [OF h(1) leader0_ok] by (intro exI [of _ comms] exI [of _ ld]) (simp add: leader0_simps)
qed

section \<open>What a follower keeps\<close>

definition follower_ok ::
  "'s storage \<Rightarrow> ('s \<Rightarrow> RawRecords Batch list \<Rightarrow> bool) \<Rightarrow> 's FollowerReplicaState \<Rightarrow> RawRecords Batch list \<Rightarrow> bool" where
  "follower_ok st holds fo bs =
     (let sh = fo_inner fo
      in holds (sh_inner sh) bs \<and> sh_leo sh = st_leo st (sh_inner sh) \<and> sh_hw sh = st_hw st (sh_inner sh) \<and>
         sint (sh_hw sh) \<le> sint (sh_leo sh))"

lemma follower_okD:
  assumes "follower_ok st holds fo bs"
  shows "holds (sh_inner (fo_inner fo)) bs" "sh_leo (fo_inner fo) = st_leo st (sh_inner (fo_inner fo))"
    "sh_hw (fo_inner fo) = st_hw st (sh_inner (fo_inner fo))"
  using assms by (simp_all add: follower_ok_def Let_def)

context replica_storage
begin

lemma follow_hw_ok:
  assumes ok: "follower_ok st holds fo bs"
  obtains b fo' where "follow_hw st h changes fo = (Inr b, fo')" "changes \<longrightarrow> b" "follower_ok st holds fo' bs"
    "sh_leo (fo_inner fo') = sh_leo (fo_inner fo)" "sint (sh_hw (fo_inner fo)) \<le> sint (sh_hw (fo_inner fo'))"
proof (cases "sint (sh_hw (fo_inner fo)) < sint h \<and> sint h \<le> sint (sh_leo (fo_inner fo))")
  case True
  obtain b sh' where sh': "sh_update_hw st h (fo_inner fo) = (Inr b, sh')" "holds (sh_inner sh') bs" "sh_hw sh' = h"
      "sh_leo sh' = sh_leo (fo_inner fo)" "sh_leo sh' = st_leo st (sh_inner sh')" "sh_hw sh' = st_hw st (sh_inner sh')"
    by (rule update_hw_ok [OF follower_okD [OF ok], where h = h])
  show thesis
  proof (rule that)
    show "follow_hw st h changes fo = (Inr True, fo\<lparr>fo_inner := sh'\<rparr>)"
      using True sh'(1) by (auto simp: follow_hw_def sh_as_offset_def Let_def)
    show "follower_ok st holds (fo\<lparr>fo_inner := sh'\<rparr>) bs" using True sh' by (simp add: follower_ok_def Let_def)
  qed (use True sh' in simp_all)
next
  case False
  then have "follow_hw st h changes fo = (Inr changes, fo)"
    by (auto simp: follow_hw_def sh_as_offset_def Let_def word_eq_iff_signed [symmetric])
  then show thesis using that ok by simp
qed

lemma update_from_leader_ok:
  assumes ok: "follower_ok st holds fo bs" and acc: "accepts (sh_inner (fo_inner fo)) (batches rs)"
    and rs: "total_records rs > 0" "set_base_offset_of rs = sh_leo (fo_inner fo)"
  obtains fo' where "update_from_leader st rs h fo = (Inr True, fo')"
    "follower_ok st holds fo' (bs @ renumber (sh_leo (fo_inner fo)) (batches rs))"
    "sint (sh_leo (fo_inner fo')) = sint (sh_leo (fo_inner fo)) + int (total_records rs)"
    "sint (sh_hw (fo_inner fo)) \<le> sint (sh_hw (fo_inner fo'))"
proof -
  obtain r rs' sh' where sh': "sh_write_record_set st rs False (fo_inner fo) = (Inr r, rs', sh')"
      "holds (sh_inner sh') (bs @ renumber (sh_leo (fo_inner fo)) (batches rs))"
      "sh_leo sh' = st_leo st (sh_inner sh')" "sh_hw sh' = st_hw st (sh_inner sh')"
      "sint (sh_leo sh') = sint (sh_leo (fo_inner fo)) + int (total_records rs)"
      "sh_hw sh' = (if False then sh_leo sh' else sh_hw (fo_inner fo))"
    by (rule sh_write_ok [OF follower_okD [OF ok] acc, where upd = False])
  let ?fo = "fo\<lparr>fo_inner := sh'\<rparr>"
  have ok': "follower_ok st holds ?fo (bs @ renumber (sh_leo (fo_inner fo)) (batches rs))"
    using ok sh' by (auto simp: follower_ok_def Let_def)
  obtain b fo' where fo': "follow_hw st h True ?fo = (Inr b, fo')" "True \<longrightarrow> b"
      "follower_ok st holds fo' (bs @ renumber (sh_leo (fo_inner fo)) (batches rs))"
      "sh_leo (fo_inner fo') = sh_leo (fo_inner ?fo)" "sint (sh_hw (fo_inner ?fo)) \<le> sint (sh_hw (fo_inner fo'))"
    by (rule follow_hw_ok [OF ok', where h = h and changes = True])
  show thesis
    by (rule that [of fo']) (use rs sh' fo' in \<open>simp_all add: update_from_leader_def write_recordsets_def\<close>)
qed

end

end
