(* ===== verification/Replication_Sync.thy ===== *)
theory Replication_Sync
  imports Replication
begin

text \<open>
  Leader and follower together: the answers of a leader to its followers and the
  offsets it receives (\<open>replication/leader/connection.rs\<close>), the records on the
  wire (\<open>FileRecordSet\<close> in \<open>fluvio-spu-schema/src/file.rs\<close>) and their processing by
  the follower (\<open>replication/follower/controller.rs\<close>). The properties follow a
  batch from the log of the leader into the log of the follower.
\<close>

section \<open>The messages\<close>

text \<open>\<open>FileRecordSet::file_encode\<close>: the length and the bytes of the slice.\<close>

definition file_recordset :: "bytes \<Rightarrow> bytes" where
  "file_recordset slice_data = be_bytes 4 (word_of_nat (length slice_data) :: i32) @ slice_data"

text \<open>What the follower makes of the records of an answer; sync requests have version 7.\<close>

definition received :: "bytes \<Rightarrow> RawRecords RecordSet dres" where
  "received bs = decode (dec_recordset dec_raw 7) (initial (dec_recordset dec_raw 7)) bs"

text \<open>\<open>sync_from_leader\<close>: the offsets sent back and the states of the followers.\<close>

fun sync_from_leader ::
  "'s storage \<Rightarrow> (ReplicaKey \<times> i64 \<times> RawRecords RecordSet) list \<Rightarrow> (ReplicaKey \<rightharpoonup> 's FollowerReplicaState)
    \<Rightarrow> (ReplicaKey \<times> OffsetInfo) list \<times> (ReplicaKey \<rightharpoonup> 's FollowerReplicaState)" where
  "sync_from_leader st [] states = ([], states)"
| "sync_from_leader st ((key, hw, rs) # reqs) states =
     (case states key of
        None \<Rightarrow> sync_from_leader st reqs states
      | Some fo \<Rightarrow>
          (case update_from_leader st rs hw fo of (r, fo) \<Rightarrow>
             (case sync_from_leader st reqs (states(key \<mapsto> fo)) of (offsets, states) \<Rightarrow>
                (if r = Inr True then (key, as_offset_request fo) # offsets else offsets, states))))"

text \<open>\<open>FollowerHandler::update_from_leaders\<close>: the answers for the replicas that were pending for a follower.\<close>

fun update_from_leaders ::
  "'s storage \<Rightarrow> SpuId \<Rightarrow> u32 \<Rightarrow> ReplicaKey list \<Rightarrow> (ReplicaKey \<rightharpoonup> 's LeaderReplicaState)
    \<Rightarrow> (ReplicaKey \<times> PeerFetchablePartitionResponse) list option" where
  "update_from_leaders st follower_id max_bytes [] leaders = Some []"
| "update_from_leaders st follower_id max_bytes (replica # replicas) leaders =
     (case leaders replica of
        None \<Rightarrow> update_from_leaders st follower_id max_bytes replicas leaders
      | Some ld \<Rightarrow>
          (case follower_updates st follower_id max_bytes ld of
             None \<Rightarrow> None
           | Some None \<Rightarrow> update_from_leaders st follower_id max_bytes replicas leaders
           | Some (Some response) \<Rightarrow>
               map_option (\<lambda>rest. (replica, response) # rest)
                 (update_from_leaders st follower_id max_bytes replicas leaders)))"

text \<open>\<open>FollowerHandler::update_from_follower\<close>: the offsets of unknown replicas are rejected.\<close>

fun update_from_follower ::
  "'s storage \<Rightarrow> SpuId \<Rightarrow> (ReplicaKey \<times> OffsetInfo) list \<Rightarrow> Comms \<Rightarrow> (ReplicaKey \<rightharpoonup> 's LeaderReplicaState)
    \<Rightarrow> ReplicaKey list \<times> Comms \<times> (ReplicaKey \<rightharpoonup> 's LeaderReplicaState)" where
  "update_from_follower st follower_id [] comms leaders = ([], comms, leaders)"
| "update_from_follower st follower_id ((key, pos) # updates) comms leaders =
     (case leaders key of
        None \<Rightarrow> (case update_from_follower st follower_id updates comms leaders of (refused, r) \<Rightarrow> (key # refused, r))
      | Some ld \<Rightarrow>
          (case update_states_from_followers st follower_id pos comms ld of (_, comms, ld) \<Rightarrow>
             update_from_follower st follower_id updates comms (leaders(key \<mapsto> ld))))"

text \<open>\<open>promote_follower\<close>: the storage of the follower becomes the one of a new leader.\<close>

definition promote_follower ::
  "ReplicaKey \<Rightarrow> SpuId \<Rightarrow> SpuId list \<Rightarrow> 's FollowerReplicaState \<Rightarrow> 's LeaderReplicaState" where
  "promote_follower i leader replicas fo = leader_new i leader replicas (fo_inner fo)"

section \<open>Batches on the wire\<close>

lemma seal_simps [simp]:
  "base_offset (seal_batch crc32c w b) = base_offset b" "records_len (seal_batch crc32c w b) = records_len b"
  "records (seal_batch crc32c w b) = records b" "has_schema (header (seal_batch crc32c w b)) = has_schema (header b)"
  by (simp_all add: seal_batch_def records_len_def)

lemma chain_seal [simp]: "chain o0 (map (seal_batch crc32c w) bs) = chain o0 bs"
  by (induction bs arbitrary: o0) simp_all

lemma chain_end_seal [simp]: "chain_end o0 (map (seal_batch crc32c w) bs) = chain_end o0 bs"
  by (simp add: chain_end_def comp_def)

lemma accepts_seal [simp]: "file_accepts rep (map (seal_batch crc32c w) bs) = file_accepts rep bs"
  by (simp add: file_accepts_def storable_def ok_batch_def list_all_iff comp_def)

lemma renumber_chain:
  assumes "chain (sint o0) bs" "chain_end (sint o0) bs < 2 ^ 63"
  shows "renumber o0 bs = bs"
  using assms
proof (induction bs arbitrary: o0)
  case (Cons b bs)
  have "sint (o0 + word_of_nat (records_len b)) = sint o0 + int (records_len b)"
    using Cons.prems(2) sint_plus [of "int (records_len b)" o0] by (simp add: chain_end_def)
  moreover have "base_offset b = o0" using Cons.prems(1) by (intro sint_eqI) simp
  ultimately show ?case using Cons by (simp add: set_base_offset_def chain_end_def add.assoc)
qed simp

lemma received_whole:
  assumes "list_all (ok_batch (\<lambda>v. v) (\<lambda>_. True)) bs" "length (log_bytes crc32c (\<lambda>v. v) bs) + 4 < 2 ^ 31"
  shows "received (file_recordset (log_bytes crc32c (\<lambda>v. v) bs)) =
           DOk \<lparr>batches = map (seal_batch crc32c (\<lambda>v. v)) bs\<rparr> []"
proof -
  have "ok_recordset (\<lambda>v. v) (\<lambda>_. True) \<lparr>batches = bs\<rparr>"
    using assms raw.length_recordset_body [of crc32c bs] by (simp add: ok_recordset_def wire_recordset_def log_bytes_def Let_def)
  from raw.recordset_reads [OF this, of 7 crc32c "[]"] show ?thesis
    by (simp add: received_def file_recordset_def wire_recordset_def seal_recordset_def log_bytes_def Let_def)
qed

section \<open>From leader to follower\<close>

context replica_storage
begin

lemma answer_ok:
  assumes ok: "leader_ok st holds ld (pre @ post)" "post \<noteq> []"
    and info: "map_of (ld_followers ld) i = Some info" "oi_is_valid info"
      "sint (oi_leo info) = chain_end (sint (st_start st (sh_inner (ld_storage ld)))) pre"
  obtains part rest where "follower_updates st i max_bytes ld = Some (Some \<lparr>pr_partition = rk_partition (ld_id ld), pr_error = None,
      pr_hw = sh_hw (ld_storage ld), pr_leo = sh_leo (ld_storage ld),
      pr_records = take (unat max_bytes) (log_bytes crc32c (\<lambda>v. v) part)\<rparr>)"
    "post = part @ rest" "part \<noteq> []"
proof -
  let ?s = "sh_inner (ld_storage ld)"
  note held = leader_okD [OF ok(1)]
  note log = offsets_law [OF held(1)]
  obtain r sl part rest where read: "st_read st (oi_leo info) max_bytes ReadUncommitted ?s = Some (Inr r)"
      "rsl_slice r = Some sl" "post = part @ rest" "part \<noteq> []"
      "st_bytes st ?s sl = take (unat max_bytes) (log_bytes crc32c (\<lambda>v. v) part)"
    using read_law [OF held(1) info(3) ok(2)] by blast
  obtain b bs where post: "post = b # bs" using ok(2) by (cases post) auto
  have "sint (oi_leo info) < sint (sh_leo (ld_storage ld))"
    using log info(3) held(2) by (simp add: post chain_end_def)
  then have "\<not> oi_is_same info (sh_as_offset (ld_storage ld))" by (auto simp: oi_is_same_def sh_as_offset_def)
  then show thesis
    using read info(1,2) \<open>sint (oi_leo info) < _\<close>
    by (intro that [of part rest]) (simp_all add: follower_updates_def sh_read_records_def sh_as_offset_def Let_def)
qed

lemma store_ok:
  assumes ok: "follower_ok st holds fo bs" and acc: "accepts (sh_inner (fo_inner fo)) new"
    and new: "new \<noteq> []" "chain (sint (sh_leo (fo_inner fo))) new" "chain_end (sint (sh_leo (fo_inner fo))) new < 2 ^ 63"
  obtains fo' where "update_from_leader st \<lparr>batches = new\<rparr> h fo = (Inr True, fo')" "follower_ok st holds fo' (bs @ new)"
    "sint (sh_leo (fo_inner fo')) = chain_end (sint (sh_leo (fo_inner fo))) new"
    "sint (sh_hw (fo_inner fo)) \<le> sint (sh_hw (fo_inner fo'))"
proof -
  let ?rs = "\<lparr>batches = new\<rparr>"
  obtain b cs where cs: "new = b # cs" using new(1) by (cases new) auto
  have "base_offset b = sh_leo (fo_inner fo)" using new(2) cs by (intro sint_eqI) simp
  then have rs: "total_records ?rs > 0" "set_base_offset_of ?rs = sh_leo (fo_inner fo)" "accepts (sh_inner (fo_inner fo)) (batches ?rs)"
    using new(2) cs acc by (simp_all add: total_records_def set_base_offset_of_def)
  obtain fo' where "update_from_leader st ?rs h fo = (Inr True, fo')"
      "follower_ok st holds fo' (bs @ renumber (sh_leo (fo_inner fo)) (batches ?rs))"
      "sint (sh_leo (fo_inner fo')) = sint (sh_leo (fo_inner fo)) + int (total_records ?rs)"
      "sint (sh_hw (fo_inner fo)) \<le> sint (sh_hw (fo_inner fo'))"
    by (rule update_from_leader_ok [OF ok rs(3,1,2), where h = h])
  then show thesis
    using that [of fo'] renumber_chain [OF new(2,3)] by (simp add: total_records_def chain_end_def)
qed

end

text \<open>
  C1. Replication copies the log: when a leader answers a follower whose log
  end it knows and the rest of its log is not longer than the limit on the
  bytes of an answer, the follower decodes whole batches, at least one and
  exactly those that follow its own log end, and appends them. Its log end
  moves behind them and its high watermark does not move back.
\<close>

theorem replication_copies_log:
  assumes ld: "leader_ok (file_storage crc32c mm short) (file_holds crc32c mm) ld (pre @ post)" "post \<noteq> []"
    and info: "map_of (ld_followers ld) i = Some info" "oi_is_valid info"
      "sint (oi_leo info) = chain_end (sint (get_log_start_offset (sh_inner (ld_storage ld)))) pre"
    and fo: "follower_ok (file_storage crc32c mm' short') (file_holds crc32c mm') fo bs"
      "sh_leo (fo_inner fo) = oi_leo info" "file_accepts (sh_inner (fo_inner fo)) post"
    and fits: "length (log_bytes crc32c (\<lambda>v. v) post) \<le> unat max_bytes" "length (log_bytes crc32c (\<lambda>v. v) post) + 4 < 2 ^ 31"
  shows "\<exists>answer rs part rest fo'. follower_updates (file_storage crc32c mm short) i max_bytes ld = Some (Some answer) \<and>
           received (file_recordset (pr_records answer)) = DOk rs [] \<and>
           update_from_leader (file_storage crc32c mm' short') rs (pr_hw answer) fo = (Inr True, fo') \<and>
           post = part @ rest \<and> part \<noteq> [] \<and>
           follower_ok (file_storage crc32c mm' short') (file_holds crc32c mm') fo'
             (bs @ map (seal_batch crc32c (\<lambda>v. v)) part) \<and>
           sint (sh_leo (fo_inner fo')) = chain_end (sint (oi_leo info)) part \<and>
           sint (sh_hw (fo_inner fo)) \<le> sint (sh_hw (fo_inner fo'))"
proof -
  let ?st = "file_storage crc32c mm short" and ?seal = "map (seal_batch crc32c (\<lambda>v :: RawRecords. v))"
  have start: "st_start ?st s = get_log_start_offset s" for s by (simp add: file_storage_def)
  obtain part rest where part: "follower_updates ?st i max_bytes ld = Some (Some \<lparr>pr_partition = rk_partition (ld_id ld), pr_error = None,
      pr_hw = sh_hw (ld_storage ld), pr_leo = sh_leo (ld_storage ld),
      pr_records = take (unat max_bytes) (log_bytes crc32c (\<lambda>v. v) part)\<rparr>)" "post = part @ rest" "part \<noteq> []"
    by (rule fr.answer_ok [OF ld info(1,2) info(3) [folded start]])
  have log: "chain (sint (oi_leo info)) post" "list_all (ok_batch (\<lambda>v. v) (\<lambda>_. True)) post"
    using fr.offsets_law [OF leader_okD(1) [OF ld(1)], of short] info(3) by (simp_all add: start)
  have bytes: "take (unat max_bytes) (log_bytes crc32c (\<lambda>v. v) part) = log_bytes crc32c (\<lambda>v. v) part"
    using fits(1) part(2) by (simp add: log_bytes_def)
  have rs: "received (file_recordset (log_bytes crc32c (\<lambda>v. v) part)) = DOk \<lparr>batches = ?seal part\<rparr> []"
    using log(2) fits(2) part(2) by (intro received_whole) (simp_all add: log_bytes_def)
  have acc: "file_accepts (sh_inner (fo_inner fo)) (?seal part)"
    using fr.accepts_law fo(3) part(2) by simp
  moreover have "?seal part \<noteq> []" "chain (sint (sh_leo (fo_inner fo))) (?seal part)"
    using part(2,3) log(1) fo(2) by simp_all
  moreover have "chain_end (sint (sh_leo (fo_inner fo))) (?seal part) < 2 ^ 63"
    using acc follower_okD(2) [OF fo(1)] by (simp add: chain_end_def file_accepts_def file_storage_def)
  ultimately obtain fo' where fo': "update_from_leader (file_storage crc32c mm' short') \<lparr>batches = ?seal part\<rparr> (sh_hw (ld_storage ld)) fo = (Inr True, fo')"
      "follower_ok (file_storage crc32c mm' short') (file_holds crc32c mm') fo' (bs @ ?seal part)"
      "sint (sh_leo (fo_inner fo')) = chain_end (sint (sh_leo (fo_inner fo))) (?seal part)"
      "sint (sh_hw (fo_inner fo)) \<le> sint (sh_hw (fo_inner fo'))"
    by (rule fr.store_ok [OF fo(1), where h = "sh_hw (ld_storage ld)"])
  show ?thesis
  proof (intro exI conjI)
    show "post = part @ rest" by (rule part(2))
    show "received (file_recordset (pr_records \<lparr>pr_partition = rk_partition (ld_id ld), pr_error = None, pr_hw = sh_hw (ld_storage ld), pr_leo = sh_leo (ld_storage ld),
        pr_records = take (unat max_bytes) (log_bytes crc32c (\<lambda>v. v) part)\<rparr>)) = DOk \<lparr>batches = ?seal part\<rparr> []"
      using rs bytes by simp
  qed (use part fo' fo(2) in simp_all)
qed

section \<open>An answer that is cut short\<close>

text \<open>The batch a follower decodes when the bytes end after \<open>n\<close> bytes of its records.\<close>

definition cut_batch :: "(bytes \<Rightarrow> u32) \<Rightarrow> nat \<Rightarrow> RawRecords Batch \<Rightarrow> RawRecords Batch" where
  "cut_batch crc32c n b = (seal_batch crc32c (\<lambda>v. v) b)\<lparr>records := take n (records b)\<rparr>"

lemma decode_cut_batch:
  assumes b: "ok_batch (\<lambda>v. v) (\<lambda>_. True) b" "\<not> has_schema (header b)" and n: "n < length (records b)"
  shows "decode_batch dec_raw 7 (default_batch []) (take (BATCH_FILE_HEADER_SIZE + n) (wire_batch crc32c (\<lambda>v. v) b)) =
           DOk (cut_batch crc32c n b) []"
proof -
  let ?s = "seal_batch crc32c (\<lambda>v. v) b"
  have wire: "wire_batch crc32c (\<lambda>v. v) b =
      be_bytes 8 (base_offset b) @ be_bytes 4 (batch_len ?s) @ wire_batch_header (header ?s) @ records b"
    using b(2) by (simp add: wire_batch_def wire_schema_def Let_def)
  have cut: "take (BATCH_FILE_HEADER_SIZE + n) (wire_batch crc32c (\<lambda>v. v) b) =
      be_bytes 8 (base_offset b) @ be_bytes 4 (batch_len ?s) @ wire_batch_header (header ?s) @ take n (records b)"
    unfolding wire by (simp add: BATCH_FILE_HEADER_SIZE_def BATCH_PREAMBLE_SIZE_def BATCH_HEADER_SIZE_def)
  have len: "unat (scast (batch_len ?s) - word_of_nat BATCH_HEADER_SIZE :: u64) = length (records b)"
    using rec_len_eq [of 45 "length (records b)"] b by (simp add: seal_batch_def length_wire_schema BATCH_HEADER_SIZE_def ok_batch_def)
  show ?thesis
    unfolding cut using b(2) n len
      decode_file_buf_wire [of 7 "default_batch [] :: RawRecords Batch" "base_offset b" "batch_len ?s" "header ?s" "take n (records b)"]
    by (simp add: decode_batch_def decode_raw_records default_batch_def cut_batch_def seal_batch_def SCHEMA_ID_NULL_def)
qed

lemma received_body:
  assumes "length body < 2 ^ 31" "decode_batches dec_raw 7 (length body) [] body = DOk bs []"
  shows "received (file_recordset body) = DOk \<lparr>batches = bs\<rparr> []"
proof -
  have "unat (scast (word_of_nat (length body) :: i32) :: u64) = length body"
    using assms(1) by (simp add: scast_of_nat_i32 unat_of_nat)
  then show ?thesis using assms(2) by (simp add: received_def file_recordset_def dec_recordset_def Let_def)
qed

lemma received_cut:
  assumes bs: "list_all (ok_batch (\<lambda>v. v) (\<lambda>_. True)) bs"
    and b: "ok_batch (\<lambda>v. v) (\<lambda>_. True) b" "\<not> has_schema (header b)" "n < length (records b)"
    and len: "length (log_bytes crc32c (\<lambda>v. v) bs) + BATCH_FILE_HEADER_SIZE + n < 2 ^ 31"
  shows "received (file_recordset (log_bytes crc32c (\<lambda>v. v) bs @ take (BATCH_FILE_HEADER_SIZE + n) (wire_batch crc32c (\<lambda>v. v) b))) =
           DOk \<lparr>batches = map (seal_batch crc32c (\<lambda>v. v)) bs @ [cut_batch crc32c n b]\<rparr> []"
proof -
  let ?cut = "take (BATCH_FILE_HEADER_SIZE + n) (wire_batch crc32c (\<lambda>v. v) b)"
  let ?body = "concat (map (wire_batch crc32c (\<lambda>v. v)) bs) @ ?cut"
  have cut: "length ?cut = BATCH_FILE_HEADER_SIZE + n"
    using b(2,3) by (simp add: length_wire_batch length_wire_schema)
  then obtain c cs where cs: "?cut = c # cs" by (cases ?cut) (auto simp: BATCH_FILE_HEADER_SIZE_def BATCH_HEADER_SIZE_def)
  have small: "length ?body < 2 ^ 31" using len cut by (simp add: log_bytes_def)
  obtain f where f: "length ?body - length bs = Suc f"
    using raw.batches_le_body [of bs crc32c] cs by (cases "length ?body - length bs") auto
  have "decode (dec_batch dec_raw 7) (initial (dec_batch dec_raw 7)) ?cut = DOk (cut_batch crc32c n b) []"
    using decode_cut_batch [OF b] by (simp add: dec_batch_def dec_raw_def)
  then have "decode_batches dec_raw 7 (length ?body - length bs) (map (seal_batch crc32c (\<lambda>v. v)) bs) ?cut =
      DOk (map (seal_batch crc32c (\<lambda>v. v)) bs @ [cut_batch crc32c n b]) []"
    unfolding f unfolding cs by simp
  then have "decode_batches dec_raw 7 (length ?body) [] ?body = DOk (map (seal_batch crc32c (\<lambda>v. v)) bs @ [cut_batch crc32c n b]) []"
    using raw.decode_batches_wire [OF bs, of 7 "length ?body" "[]" crc32c ?cut] raw.batches_le_body [of bs crc32c] by simp
  then show ?thesis unfolding log_bytes_def by (rule received_body [OF small])
qed

text \<open>What a leader answers from its active segment.\<close>

lemma answer_active:
  assumes rep: "rep_holds crc32c (\<lambda>v. v) (\<lambda>_. True) (sh_inner (ld_storage ld)) bss (pre @ post)" "post \<noteq> []"
    and info: "map_of (ld_followers ld) i = Some info" "oi_is_valid info"
      "sint (oi_leo info) = chain_end (sint (sg_base (rp_active (sh_inner (ld_storage ld))))) pre"
    and leo: "sh_leo (ld_storage ld) = get_leo (sh_inner (ld_storage ld))"
  shows "follower_updates (file_storage crc32c mm short) i max_bytes ld = Some (Some \<lparr>pr_partition = rk_partition (ld_id ld), pr_error = None,
      pr_hw = sh_hw (ld_storage ld), pr_leo = sh_leo (ld_storage ld),
      pr_records = take (unat max_bytes) (log_bytes crc32c (\<lambda>v. v) post)\<rparr>)"
proof -
  let ?s = "sh_inner (ld_storage ld)"
  have base: "chain_end (first_offset ?s) (concat bss) = sint (sg_base (rp_active ?s))"
    using rep(1) segs_chain [of crc32c "\<lambda>v. v" "\<lambda>_. True" "first_offset ?s" "rp_segs ?s" bss] by (auto simp: rep_holds_def)
  then have x: "sint (oi_leo info) = chain_end (first_offset ?s) (concat bss @ pre)" using info(3) by (simp add: chain_end_def)
  note log = rep_chain [OF rep(1)]
  obtain b bs where post: "post = b # bs" using rep(2) by (cases post) auto
  have less: "sint (sg_base (rp_active ?s)) \<le> sint (oi_leo info)" "sint (oi_leo info) < sint (get_leo ?s)"
    using info(3) chain_end_ge x log by (auto simp: post chain_end_def)
  have lim: "log_limit ?s None = sint (get_leo ?s)" by (simp add: log_limit_def)
  obtain sl where sl: "read_records short (oi_leo info) None max_bytes ?s = Some (Inr (slice_header ?s sl))"
      "slice_bytes ?s sl = take (unat max_bytes) (log_bytes crc32c (\<lambda>v. v)
         (batches_between (concat bss @ pre @ post) (sint (oi_leo info)) (log_limit ?s None)))"
    by (rule read_active [OF rep(1) less, where short = short and max_len = max_bytes and max_offset = None])
      (use less lim in simp_all)
  have between: "batches_between (concat bss @ pre @ post) (sint (oi_leo info)) (log_limit ?s None) = post"
    using between_from_boundary [of "first_offset ?s" "concat bss @ pre" post] log x lim by simp
  have "\<not> oi_is_same info (sh_as_offset (ld_storage ld))" using less(2) leo by (auto simp: oi_is_same_def sh_as_offset_def)
  then show ?thesis
    using info(1,2) less(2) leo sl between
    by (simp add: follower_updates_def sh_read_records_def sh_as_offset_def file_storage_def read_partition_slice_def slice_header_def Let_def)
qed

text \<open>
  C37. An answer that ends inside a batch corrupts the follower: if the limit on
  the bytes of an answer falls into the records of a batch, the follower does
  not drop the incomplete batch. It stores it with the records cut off, under a
  new length and checksum, its log end moves behind the whole batch, and the
  missing bytes are never sent again.
\<close>

theorem cut_batch_stored:
  assumes rep: "rep_holds crc32c (\<lambda>v. v) (\<lambda>_. True) (sh_inner (ld_storage ld)) bss (pre @ whole @ b # rest)"
      "sh_leo (ld_storage ld) = get_leo (sh_inner (ld_storage ld))"
    and info: "map_of (ld_followers ld) i = Some info" "oi_is_valid info"
      "sint (oi_leo info) = chain_end (sint (sg_base (rp_active (sh_inner (ld_storage ld))))) pre"
    and fo: "follower_ok (file_storage crc32c mm' short') (file_holds crc32c mm') fo bs"
      "sh_leo (fo_inner fo) = oi_leo info" "file_accepts (sh_inner (fo_inner fo)) (whole @ [b])"
    and cut: "unat max_bytes = length (log_bytes crc32c (\<lambda>v. v) whole) + BATCH_FILE_HEADER_SIZE + n" "n < length (records b)"
      "unat max_bytes < 2 ^ 31"
  shows "\<exists>answer rs fo'. follower_updates (file_storage crc32c mm short) i max_bytes ld = Some (Some answer) \<and>
           received (file_recordset (pr_records answer)) = DOk rs [] \<and>
           update_from_leader (file_storage crc32c mm' short') rs (pr_hw answer) fo = (Inr True, fo') \<and>
           follower_ok (file_storage crc32c mm' short') (file_holds crc32c mm') fo'
             (bs @ map (seal_batch crc32c (\<lambda>v. v)) whole @ [cut_batch crc32c n b]) \<and>
           sint (sh_leo (fo_inner fo')) = batch_end b"
proof -
  let ?new = "map (seal_batch crc32c (\<lambda>v. v)) whole @ [cut_batch crc32c n b]" and ?leo = "sint (sh_leo (fo_inner fo))"
  have log: "chain (sint (oi_leo info)) (whole @ [b])" "list_all (ok_batch (\<lambda>v. v) (\<lambda>_. True)) (whole @ [b])"
    using rep(1) info(3) by (auto simp: rep_holds_def seg_holds_def log_ok_def)
  have b: "\<not> has_schema (header b)" using fo(3) by (simp add: file_accepts_def storable_def)
  have bytes: "take (unat max_bytes) (log_bytes crc32c (\<lambda>v. v) (whole @ b # rest)) =
      log_bytes crc32c (\<lambda>v. v) whole @ take (BATCH_FILE_HEADER_SIZE + n) (wire_batch crc32c (\<lambda>v. v) b)"
    using cut(1,2) b by (simp add: log_bytes_def length_wire_batch length_wire_schema)
  have rs: "received (file_recordset (take (unat max_bytes) (log_bytes crc32c (\<lambda>v. v) (whole @ b # rest)))) =
      DOk \<lparr>batches = ?new\<rparr> []"
    unfolding bytes using log(2) b cut by (intro received_cut) simp_all
  have same: "records_len (cut_batch crc32c n b) = records_len b" "base_offset (cut_batch crc32c n b) = base_offset b"
    by (simp_all add: cut_batch_def records_len_def seal_batch_def)
  have fin: "chain_end ?leo ?new = batch_end b" "chain ?leo ?new"
    using log(1) fo(2) same chain_last_end [OF log(1)] by (simp_all add: chain_end_def comp_def batch_end_def)
  have acc: "file_accepts (sh_inner (fo_inner fo)) ?new"
    using fo(3) cut(2) same by (simp add: file_accepts_def storable_def ok_batch_def list_all_iff comp_def cut_batch_def)
  have bound: "chain_end ?leo ?new < 2 ^ 63"
    using acc follower_okD(2) [OF fo(1)] by (simp add: chain_end_def file_accepts_def file_storage_def)
  obtain fo' where "update_from_leader (file_storage crc32c mm' short') \<lparr>batches = ?new\<rparr> (sh_hw (ld_storage ld)) fo = (Inr True, fo')"
      "follower_ok (file_storage crc32c mm' short') (file_holds crc32c mm') fo' (bs @ ?new)"
      "sint (sh_leo (fo_inner fo')) = chain_end ?leo ?new"
    by (rule fr.store_ok [OF fo(1) acc _ fin(2) bound, where h = "sh_hw (ld_storage ld)"]) simp
  then show ?thesis
    using answer_active [OF rep(1) _ info rep(2), of mm short max_bytes] rs fin(1) by auto
qed

section \<open>Examples\<close>

text \<open>
  A leader whose log holds two records from offset 10 on, and a follower with an
  empty log that starts there.
\<close>

definition leader_on :: "FileReplica \<Rightarrow> FileReplica LeaderReplicaState" where
  "leader_on rep = (leader_new \<lparr>rk_topic = ''t'', rk_partition = 0\<rparr> 1 [1, 2] (sh_create (file_storage (\<lambda>_. 0) mm0 (\<lambda>_. 3)) rep))
     \<lparr>ld_followers := [(2, \<lparr>oi_hw = 10, oi_leo = 10\<rparr>)]\<rparr>"

definition follower0 :: "FileReplica FollowerReplicaState" where
  "follower0 = \<lparr>fo_leader = 1, fo_inner = sh_create (file_storage (\<lambda>_. 0) mm0 (\<lambda>_. 3)) rep0\<rparr>"

lemma leader_on_simps:
  "ld_followers (leader_on rep) = [(2, \<lparr>oi_hw = 10, oi_leo = 10\<rparr>)]" "sh_inner (ld_storage (leader_on rep)) = rep"
  "sh_leo (ld_storage (leader_on rep)) = get_leo rep" "sh_hw (ld_storage (leader_on rep)) = rp_hw rep"
  by (simp_all add: leader_on_def leader_new_def sh_create_def file_storage_def)

lemma follower0_simps:
  "sh_inner (fo_inner follower0) = rep0" "sh_leo (fo_inner follower0) = 10" "sh_hw (fo_inner follower0) = 10"
  using rep0_simps by (simp_all add: follower0_def sh_create_def file_storage_def) (simp add: rep0_def)

lemma follower0_ok: "follower_ok (file_storage (\<lambda>_. 0) mm0 (\<lambda>_. 3)) (file_holds (\<lambda>_. 0) mm0) follower0 []"
proof -
  have "file_holds (\<lambda>_. 0) mm0 rep0 []"
    unfolding file_holds_def using rep0_holds rep0_ready by (intro exI [of _ "[]"]) simp
  moreover have "rp_hw rep0 = 10" by (simp add: rep0_def)
  ultimately show ?thesis using rep0_simps by (simp add: follower_ok_def follower0_simps file_storage_def)
qed

lemma storable_base [simp]: "storable w p rep (set_base_offset o0 b) = storable w p rep b"
  by (simp add: storable_def ok_batch_def set_base_offset_def records_len_def)

lemma accepts_two_records: "file_accepts rep0 (renumber 10 [one_record, one_record])"
  using storable_one_record one_record_simps by (simp add: file_accepts_def rep0_simps)

theorem replication_copies_log_witness:
  "\<exists>rep answer rs part fo'. follower_updates (file_storage (\<lambda>_. 0) mm0 (\<lambda>_. 3)) 2 1000 (leader_on rep) = Some (Some answer) \<and>
     received (file_recordset (pr_records answer)) = DOk rs [] \<and>
     update_from_leader (file_storage (\<lambda>_. 0) mm0 (\<lambda>_. 3)) rs (pr_hw answer) follower0 = (Inr True, fo') \<and> part \<noteq> [] \<and>
     follower_ok (file_storage (\<lambda>_. 0) mm0 (\<lambda>_. 3)) (file_holds (\<lambda>_. 0) mm0) fo' (map (seal_batch (\<lambda>_. 0) (\<lambda>v. v)) part)"
proof -
  let ?bs = "renumber 10 [one_record, one_record]"
  obtain rep where rep: "rep_holds (\<lambda>_. 0) (\<lambda>v. v) (\<lambda>_. True) rep [] ?bs" "get_leo rep = 12" "rp_hw rep = 10"
      "first_offset rep = 10" "ready mm0 rep"
    by (rule two_records)
  have "file_holds (\<lambda>_. 0) mm0 rep ?bs"
    unfolding file_holds_def using rep(1,5) by (intro exI [of _ "[]"] exI [of _ ?bs]) simp
  then have ld: "leader_ok (file_storage (\<lambda>_. 0) mm0 (\<lambda>_. 3)) (file_holds (\<lambda>_. 0) mm0) (leader_on rep) ([] @ ?bs)"
    using rep(2,3) by (simp add: leader_ok_def leader_on_simps file_storage_def bt_wf_def)
  have start: "sint (get_log_start_offset rep) = 10" using log_start_offset [OF rep(1)] rep(4) by simp
  have len: "length (log_bytes (\<lambda>_. 0) (\<lambda>v. v) ?bs) = 122" by (simp add: one_record_simps)
  from replication_copies_log [OF ld _ _ _ _ follower0_ok, of 2 "\<lparr>oi_hw = 10, oi_leo = 10\<rparr>" 1000] show ?thesis
    using start len accepts_two_records by (simp add: leader_on_simps follower0_simps oi_is_valid_def) blast
qed

theorem cut_batch_stored_witness:
  "\<exists>rep answer rs fo'. follower_updates (file_storage (\<lambda>_. 0) mm0 (\<lambda>_. 3)) 2 120 (leader_on rep) = Some (Some answer) \<and>
     received (file_recordset (pr_records answer)) = DOk rs [] \<and>
     update_from_leader (file_storage (\<lambda>_. 0) mm0 (\<lambda>_. 3)) rs (pr_hw answer) follower0 = (Inr True, fo') \<and>
     follower_ok (file_storage (\<lambda>_. 0) mm0 (\<lambda>_. 3)) (file_holds (\<lambda>_. 0) mm0) fo'
       [seal_batch (\<lambda>_. 0) (\<lambda>v. v) (set_base_offset 10 one_record), cut_batch (\<lambda>_. 0) 2 (set_base_offset 11 one_record)] \<and>
     sint (sh_leo (fo_inner fo')) = 12"
proof -
  let ?a = "set_base_offset 10 one_record" and ?b = "set_base_offset 11 one_record"
  obtain rep where rep: "rep_holds (\<lambda>_. 0) (\<lambda>v. v) (\<lambda>_. True) rep [] (renumber 10 [one_record, one_record])"
      "sg_base (rp_active rep) = 10" "get_leo rep = 12"
    by (rule two_records)
  then have holds: "rep_holds (\<lambda>_. 0) (\<lambda>v. v) (\<lambda>_. True) (sh_inner (ld_storage (leader_on rep))) [] ([] @ [?a] @ ?b # [])"
    by (simp add: leader_on_simps one_record_simps)
  have acc: "file_accepts rep0 ([?a] @ [?b])" using accepts_two_records by (simp add: one_record_simps)
  have len: "length (log_bytes (\<lambda>_. 0) (\<lambda>v. v) [?a]) = 61" "batch_end ?b = 12"
    by (simp_all add: one_record_simps batch_end_def)
  have recs: "2 < length (records ?b)" by (simp add: set_base_offset_def one_record_def set_offset_delta_def default_batch_def)
  from cut_batch_stored [OF holds _ _ _ _ follower0_ok, of 2 "\<lparr>oi_hw = 10, oi_leo = 10\<rparr>" 120 2 mm0 "\<lambda>_. 3"] show ?thesis
    using rep(2) len recs acc
    by (simp add: leader_on_simps follower0_simps oi_is_valid_def BATCH_FILE_HEADER_SIZE_def BATCH_PREAMBLE_SIZE_def
        BATCH_HEADER_SIZE_def) blast
qed

end
