(* ===== verification/Topic_Model.thy ===== *)
theory Topic_Model
  imports Replication
begin

text \<open>
  The metadata of topics and partitions that the streaming controller works
  on: topic and partition specs, their statuses, mirror configurations
  (\<open>fluvio-controlplane-metadata\<close>), with the validation of replica assignments
  and of the storage configuration.
\<close>

section \<open>Mirror configurations\<close>

record HomePartitionConfig =
  remote_cluster :: string
  remote_replica :: string
  hpc_source :: bool

record RemotePartitionConfig =
  home_cluster :: string
  home_spu_key :: string
  home_spu_id :: SpuId
  home_spu_endpoint :: string
  rpc_target :: bool

datatype PartitionMirrorConfig = RemotePartition RemotePartitionConfig | HomePartition HomePartitionConfig

datatype mirror_error = MirrorProduceFromRemoteNotAllowed | MirrorProduceFromHome

definition accept_traffic :: "PartitionMirrorConfig \<Rightarrow> mirror_error option" where
  "accept_traffic m =
     (case m of
        RemotePartition r \<Rightarrow> if rpc_target r then Some MirrorProduceFromRemoteNotAllowed else None
      | HomePartition h \<Rightarrow> if hpc_source h then None else Some MirrorProduceFromHome)"

record PartitionMap =
  pm_id :: u32
  pm_replicas :: "SpuId list"
  pm_mirror :: "PartitionMirrorConfig option"

type_synonym PartitionMaps = "PartitionMap list"

record SpuMirrorConfig =
  smc_id :: SpuId
  smc_key :: string
  smc_endpoint :: string

record RemoteMirrorConfig =
  rmc_home_cluster :: string
  rmc_home_spus :: "SpuMirrorConfig list"
  rmc_target :: bool

record HomeMirrorConfig =
  hmc_partitions :: "HomePartitionConfig list"
  hmc_source :: bool

datatype MirrorConfig = MirrorRemote RemoteMirrorConfig | MirrorHome HomeMirrorConfig

definition remote_partition :: "RemoteMirrorConfig \<Rightarrow> SpuMirrorConfig \<Rightarrow> PartitionMirrorConfig" where
  "remote_partition src spu =
     RemotePartition \<lparr>home_cluster = rmc_home_cluster src, home_spu_key = smc_key spu, home_spu_id = smc_id spu,
       home_spu_endpoint = smc_endpoint spu, rpc_target = rmc_target src\<rparr>"

definition mirror_partition_count :: "MirrorConfig \<Rightarrow> u32" where
  "mirror_partition_count m =
     (case m of MirrorRemote src \<Rightarrow> word_of_nat (length (rmc_home_spus src))
      | MirrorHome tg \<Rightarrow> word_of_nat (length (hmc_partitions tg)))"

definition as_partition_maps :: "MirrorConfig \<Rightarrow> PartitionMaps" where
  "as_partition_maps m =
     (let mirrors = (case m of MirrorRemote src \<Rightarrow> map (remote_partition src) (rmc_home_spus src)
                      | MirrorHome tg \<Rightarrow> map HomePartition (hmc_partitions tg))
      in map (\<lambda>(i, c). \<lparr>pm_id = word_of_nat i, pm_replicas = [], pm_mirror = Some c\<rparr>) (enumerate 0 mirrors))"

definition hm_add_partition :: "HomePartitionConfig \<Rightarrow> HomeMirrorConfig \<Rightarrow> HomeMirrorConfig" where
  "hm_add_partition p h = h\<lparr>hmc_partitions := hmc_partitions h @ [p]\<rparr>"

definition hm_set_home_to_remote :: "bool \<Rightarrow> HomeMirrorConfig \<Rightarrow> HomeMirrorConfig" where
  "hm_set_home_to_remote b h =
     h\<lparr>hmc_source := b, hmc_partitions := map (\<lambda>p. p\<lparr>hpc_source := b\<rparr>) (hmc_partitions h)\<rparr>"

definition set_home_to_remote :: "bool \<Rightarrow> MirrorConfig \<Rightarrow> string + MirrorConfig" where
  "set_home_to_remote b m =
     (case m of MirrorRemote _ \<Rightarrow> Inl ''remote mirror config cannot be set to home to remote''
      | MirrorHome h \<Rightarrow> Inr (MirrorHome (hm_set_home_to_remote b h)))"

definition hm_from_simple :: "string \<Rightarrow> string list \<Rightarrow> HomeMirrorConfig" where
  "hm_from_simple topic remote_clusters =
     \<lparr>hmc_partitions = map (\<lambda>c. \<lparr>remote_cluster = c, remote_replica = topic @ ''-0'', hpc_source = False\<rparr>)
        remote_clusters, hmc_source = False\<rparr>"

section \<open>Topic specs\<close>

record TopicReplicaParam =
  trp_partitions :: u32
  trp_replication_factor :: u32
  trp_ignore_rack_assignment :: bool

datatype ReplicaSpec = Assigned PartitionMaps | Computed TopicReplicaParam | Mirror MirrorConfig

datatype CleanupPolicy = Segment (segment_time_in_seconds: u32)

record TopicStorageConfig =
  tsc_segment_size :: "u32 option"
  tsc_max_partition_size :: "u64 option"

datatype CompressionAlgorithm = AlgNone | AlgGzip | AlgSnappy | AlgLz4 | AlgAny | AlgZstd

text \<open>The age bound in nanoseconds; the transform with its parameters in key order.\<close>

record Deduplication =
  dd_count :: u64
  dd_age :: "nat option"
  dd_uses :: string
  dd_with :: "(string \<times> string) list"

record TopicSpec =
  ts_replicas :: ReplicaSpec
  ts_cleanup_policy :: "CleanupPolicy option"
  ts_storage :: "TopicStorageConfig option"
  ts_compression_type :: CompressionAlgorithm
  ts_deduplication :: "Deduplication option"
  ts_system :: bool

definition topic_of_replicas :: "ReplicaSpec \<Rightarrow> TopicSpec" where
  "topic_of_replicas r =
     \<lparr>ts_replicas = r, ts_cleanup_policy = None, ts_storage = None, ts_compression_type = AlgAny,
      ts_deduplication = None, ts_system = False\<rparr>"

definition new_computed :: "u32 \<Rightarrow> u32 \<Rightarrow> bool option \<Rightarrow> TopicSpec" where
  "new_computed partitions replication ignore_rack =
     topic_of_replicas (Computed \<lparr>trp_partitions = partitions, trp_replication_factor = replication,
       trp_ignore_rack_assignment = (case ignore_rack of None \<Rightarrow> False | Some b \<Rightarrow> b)\<rparr>)"

definition new_assigned :: "PartitionMaps \<Rightarrow> TopicSpec" where
  "new_assigned maps = topic_of_replicas (Assigned maps)"

definition new_mirror :: "MirrorConfig \<Rightarrow> TopicSpec" where
  "new_mirror m = topic_of_replicas (Mirror m)"

definition rs_partitions :: "ReplicaSpec \<Rightarrow> u32" where
  "rs_partitions r =
     (case r of Computed param \<Rightarrow> trp_partitions param
      | Assigned maps \<Rightarrow> word_of_nat (length maps)
      | Mirror m \<Rightarrow> mirror_partition_count m)"

definition rs_replication_factor :: "ReplicaSpec \<Rightarrow> u32 option" where
  "rs_replication_factor r =
     (case r of Computed param \<Rightarrow> Some (trp_replication_factor param)
      | Assigned [] \<Rightarrow> None
      | Assigned (p # _) \<Rightarrow> Some (word_of_nat (length (pm_replicas p)))
      | Mirror _ \<Rightarrow> None)"

definition ignore_rack_assignment :: "ReplicaSpec \<Rightarrow> bool" where
  "ignore_rack_assignment r = (case r of Computed param \<Rightarrow> trp_ignore_rack_assignment param | _ \<Rightarrow> False)"

definition type_label :: "ReplicaSpec \<Rightarrow> string" where
  "type_label r =
     (case r of Computed _ \<Rightarrow> ''computed'' | Assigned _ \<Rightarrow> ''assigned''
      | Mirror (MirrorRemote c) \<Rightarrow> if rmc_target c then ''from-home'' else ''to-home''
      | Mirror (MirrorHome c) \<Rightarrow> if hmc_source c then ''to-remote'' else ''from-remote'')"

definition get_partition_mirror_map :: "TopicSpec \<Rightarrow> PartitionMaps option" where
  "get_partition_mirror_map t = (case ts_replicas t of Mirror m \<Rightarrow> Some (as_partition_maps m) | _ \<Rightarrow> None)"

definition valid_partition :: "u32 \<Rightarrow> string + unit" where
  "valid_partition partitions = (if partitions = 0 then Inl ''partition must be greater than 0'' else Inr ())"

definition valid_replication_factor :: "u32 \<Rightarrow> string + unit" where
  "valid_replication_factor replication =
     (if replication = 0 then Inl ''replication factor must be greater than 0'' else Inr ())"

definition retention_secs :: "TopicSpec \<Rightarrow> u32" where
  "retention_secs t = (case ts_cleanup_policy t of None \<Rightarrow> 604800 | Some p \<Rightarrow> segment_time_in_seconds p)"

text \<open>
  \<open>validate_config\<close> with the constants of \<open>fluvio-types/src/defaults.rs\<close>: retention at
  least 10 seconds, segments at least 1024 bytes and 1 GiB by default, partitions
  at least 2048 bytes.
\<close>

definition validate_storage :: "TopicStorageConfig \<Rightarrow> string option" where
  "validate_storage storage =
     (let partition_size = (\<lambda>_. case tsc_max_partition_size storage of
            None \<Rightarrow> None
          | Some m \<Rightarrow>
              if m < 2048 then
                Some (''max_partition_size '' @ nat_string (unat m) @ '' is less than minimum 2048'')
              else (let segment_size = (case tsc_segment_size storage of None \<Rightarrow> 1073741824 | Some s \<Rightarrow> s)
                    in if m < ucast segment_size
                       then Some (''max_partition_size '' @ nat_string (unat m) @ '' is less than segment size ''
                                  @ nat_string (unat segment_size))
                       else None))
      in case tsc_segment_size storage of
           None \<Rightarrow> partition_size ()
         | Some s \<Rightarrow>
             if s < 1024 then Some (''segment_size '' @ nat_string (unat s) @ '' is less than minimum 1024'')
             else partition_size ())"

definition validate_config :: "TopicSpec \<Rightarrow> string option" where
  "validate_config t =
     (let storage = (\<lambda>_. case ts_storage t of None \<Rightarrow> None | Some c \<Rightarrow> validate_storage c)
      in case ts_cleanup_policy t of
           None \<Rightarrow> storage ()
         | Some p \<Rightarrow>
             if segment_time_in_seconds p < 10
             then Some (''retention_secs '' @ nat_string (unat (segment_time_in_seconds p)) @ '' is less than minimum 10'')
             else storage ())"

section \<open>Assigned partition maps\<close>

definition unique_spus_in_partition_map :: "PartitionMaps \<Rightarrow> SpuId list" where
  "unique_spus_in_partition_map maps =
     foldl (\<lambda>ids p. foldl (\<lambda>ids spu. if spu \<in> set ids then ids else ids @ [spu]) ids (pm_replicas p)) [] maps"

definition unique_count :: "SpuId list \<Rightarrow> nat" where
  "unique_count replicas =
     (let sorted_replicas = sort replicas
      in 1 + length (filter (\<lambda>(a, b). a \<noteq> b) (zip sorted_replicas (tl sorted_replicas))))"

fun validate_maps :: "u32 \<Rightarrow> nat \<Rightarrow> PartitionMaps \<Rightarrow> string + unit" where
  "validate_maps i replica_len [] = Inr ()"
| "validate_maps i replica_len (p # rest) =
     (let next = (\<lambda>replica_len.
            if length (pm_replicas p) \<noteq> unique_count (pm_replicas p) then
              Inl (''duplicate spu ids found in assigned partition with id: '' @ nat_string (unat i))
            else (case find (\<lambda>spu. spu < 0) (pm_replicas p) of
                    Some spu \<Rightarrow> Inl (''invalid spu id: '' @ int_string spu @ '' in assigned partition with id: ''
                                      @ nat_string (unat i))
                  | None \<Rightarrow> validate_maps (i + 1) replica_len rest))
      in if i = 0 then
           if pm_id p \<noteq> i then Inl ''assigned partitions must start with id 0''
           else if length (pm_replicas p) = 0 then Inl ''assigned replicas must have at least one spu id''
           else next (length (pm_replicas p))
         else if pm_id p \<noteq> i then Inl ''assigned partition ids must be in sequence and without gaps''
         else if length (pm_replicas p) \<noteq> replica_len then
           Inl (''all assigned replicas must have the same number of spu ids: '' @ nat_string replica_len)
         else next replica_len)"

definition maps_validate :: "PartitionMaps \<Rightarrow> string + unit" where
  "maps_validate maps = (if maps = [] then Inl ''no assigned partitions found'' else validate_maps 0 0 maps)"

section \<open>Topic statuses\<close>

type_synonym ReplicaMap = "(u32 \<times> SpuId list) list"
type_synonym MirrorMap = "(u32 \<times> PartitionMirrorConfig) list"

datatype TopicResolution = Init | Pending | InsufficientResources | InvalidConfig | Provisioned | Deleting

record TopicStatus =
  tst_resolution :: TopicResolution
  tst_replica_map :: ReplicaMap
  tst_mirror_map :: MirrorMap
  tst_reason :: string

definition default_topic_status :: TopicStatus where
  "default_topic_status = \<lparr>tst_resolution = Init, tst_replica_map = [], tst_mirror_map = [], tst_reason = ''''\<rparr>"

definition create_replica_map :: "SpuId list list \<Rightarrow> ReplicaMap" where
  "create_replica_map rows = fold (\<lambda>(idx, row). bt_insert (word_of_nat idx) row) (enumerate 0 rows) []"

definition spus_in_replica :: "TopicStatus \<Rightarrow> SpuId list" where
  "spus_in_replica s =
     foldl (\<lambda>ids (_, replicas). foldl (\<lambda>ids spu. if spu \<in> set ids then ids else ids @ [spu]) ids replicas)
       [] (tst_replica_map s)"

definition PENDING_REASON :: string where
  "PENDING_REASON = ''waiting for live spus''"

definition next_resolution_pending :: "TopicResolution \<times> string" where
  "next_resolution_pending = (Pending, PENDING_REASON)"

definition next_resolution_invalid_config :: "string \<Rightarrow> TopicResolution \<times> string" where
  "next_resolution_invalid_config reason = (InvalidConfig, reason)"

section \<open>Partition specs\<close>

record PartitionSpec =
  ps_leader :: SpuId
  ps_replicas :: "SpuId list"
  ps_cleanup_policy :: "CleanupPolicy option"
  ps_storage :: "TopicStorageConfig option"
  ps_compression_type :: CompressionAlgorithm
  ps_deduplication :: "Deduplication option"
  ps_system :: bool
  ps_mirror :: "PartitionMirrorConfig option"

definition ps_new :: "SpuId \<Rightarrow> SpuId list \<Rightarrow> PartitionSpec" where
  "ps_new leader replicas =
     \<lparr>ps_leader = leader, ps_replicas = replicas, ps_cleanup_policy = None, ps_storage = None,
      ps_compression_type = AlgAny, ps_deduplication = None, ps_system = False, ps_mirror = None\<rparr>"

definition from_replicas :: "SpuId list \<Rightarrow> TopicSpec \<Rightarrow> PartitionMirrorConfig option \<Rightarrow> PartitionSpec" where
  "from_replicas replicas topic mirror =
     \<lparr>ps_leader = (case replicas of [] \<Rightarrow> 0 | leader # _ \<Rightarrow> leader), ps_replicas = replicas,
      ps_cleanup_policy = ts_cleanup_policy topic, ps_storage = ts_storage topic,
      ps_compression_type = ts_compression_type topic, ps_deduplication = ts_deduplication topic,
      ps_system = ts_system topic, ps_mirror = mirror\<rparr>"

definition ps_of_replicas :: "SpuId list \<Rightarrow> PartitionSpec" where
  "ps_of_replicas replicas = (case replicas of [] \<Rightarrow> ps_new 0 [] | leader # _ \<Rightarrow> ps_new leader replicas)"

definition has_spu :: "SpuId \<Rightarrow> PartitionSpec \<Rightarrow> bool" where
  "has_spu spu p = (spu \<in> set (ps_replicas p))"

definition ps_followers :: "PartitionSpec \<Rightarrow> SpuId list" where
  "ps_followers p = filter (\<lambda>r. r \<noteq> ps_leader p) (ps_replicas p)"

section \<open>SPU statuses\<close>

datatype SpuStatusResolution = SpuOnline | SpuOffline | SpuInit

datatype SpuType = Managed | Custom

datatype EncryptionEnum = PLAINTEXT | SSL

record IngressAddr =
  ia_hostname :: "string option"
  ia_ip :: "string option"

record IngressPort =
  ip_port :: u16
  ip_ingress :: "IngressAddr list"
  ip_encryption :: EncryptionEnum

record Endpoint =
  ep_port :: u16
  ep_host :: string
  ep_encryption :: EncryptionEnum

record SpuSpec =
  spu_id :: SpuId
  spu_type :: SpuType
  spu_public_endpoint :: IngressPort
  spu_private_endpoint :: Endpoint
  spu_rack :: "string option"
  spu_public_endpoint_local :: "Endpoint option"

section \<open>Validation of assigned maps\<close>

lemma windows_count:
  assumes "sorted (x # xs)"
  shows "1 + length (filter (\<lambda>(a, b). a \<noteq> b) (zip (x # xs) xs)) = card (set (x # xs))"
  using assms
proof (induction xs arbitrary: x)
  case (Cons y ys)
  have ih: "1 + length (filter (\<lambda>(a, b). a \<noteq> b) (zip (y # ys) ys)) = card (set (y # ys))"
    using Cons by simp
  show ?case
  proof (cases "x = y")
    case True
    then show ?thesis using ih by (simp add: insert_absorb)
  next
    case False
    then have "x \<notin> set (y # ys)" using Cons.prems by auto
    then show ?thesis using ih False by simp
  qed
qed simp

lemma unique_count_distinct:
  assumes "xs \<noteq> []"
  shows "length xs = unique_count xs \<longleftrightarrow> distinct xs"
proof -
  obtain y ys where s: "sort xs = y # ys"
    using assms by (metis list.exhaust set_empty set_sort)
  then have "sorted (y # ys)" by (metis sorted_sort)
  then have "unique_count xs = card (set (y # ys))"
    unfolding unique_count_def s Let_def using windows_count [of y ys] by simp
  moreover have "set (y # ys) = set xs" using s by (metis set_sort)
  ultimately show ?thesis
    by (metis card_distinct distinct_card)
qed

text \<open>What an assigned map must look like for the topic to be accepted.\<close>

definition maps_ok :: "PartitionMaps \<Rightarrow> bool" where
  "maps_ok maps =
     (map pm_id maps = map word_of_nat [0..<length maps]
      \<and> (\<exists>n > 0. \<forall>p \<in> set maps. length (pm_replicas p) = n \<and> distinct (pm_replicas p) \<and> (\<forall>spu \<in> set (pm_replicas p). 0 \<le> spu)))"

definition replicas_ok :: "nat \<Rightarrow> PartitionMap \<Rightarrow> bool" where
  "replicas_ok n p =
     (length (pm_replicas p) = n \<and> distinct (pm_replicas p) \<and> (\<forall>spu \<in> set (pm_replicas p). 0 \<le> spu))"

lemma find_negative: "find (\<lambda>spu. spu < (0 :: int)) xs = None \<longleftrightarrow> (\<forall>spu \<in> set xs. 0 \<le> spu)"
  by (auto simp: find_None_iff not_less)

lemma validate_maps_next:
  assumes "i \<noteq> 0" "0 < n"
  shows "validate_maps i n (p # rest) = Inr ()
    \<longleftrightarrow> pm_id p = i \<and> replicas_ok n p \<and> validate_maps (i + 1) n rest = Inr ()"
proof (cases "length (pm_replicas p) = n")
  case True
  then have "n = unique_count (pm_replicas p) \<longleftrightarrow> distinct (pm_replicas p)"
    using unique_count_distinct [of "pm_replicas p"] assms by auto
  then show ?thesis
    using True assms find_negative [of "pm_replicas p"]
    by (cases "find (\<lambda>spu. spu < 0) (pm_replicas p)") (simp_all add: replicas_ok_def Let_def)
qed (simp add: replicas_ok_def assms Let_def)

lemma validate_maps_rest:
  assumes "0 < k" "k + length maps \<le> 2 ^ 32" "0 < n"
  shows "validate_maps (word_of_nat k) n maps = Inr ()
    \<longleftrightarrow> map pm_id maps = map word_of_nat [k..<k + length maps] \<and> (\<forall>p \<in> set maps. replicas_ok n p)"
  using assms
proof (induction maps arbitrary: k)
  case (Cons p rest)
  have nz: "(word_of_nat k :: u32) \<noteq> 0"
    using Cons.prems by (auto simp: word_of_nat_eq_0_iff dest!: dvd_imp_le)
  have up: "[k..<k + length (p # rest)] = k # [Suc k..<Suc k + length rest]"
    by (simp add: upt_rec)
  have ih: "validate_maps (word_of_nat k + 1) n rest = Inr ()
    \<longleftrightarrow> map pm_id rest = map word_of_nat [Suc k..<Suc k + length rest] \<and> (\<forall>p \<in> set rest. replicas_ok n p)"
    using Cons.IH [of "Suc k"] Cons.prems by (simp add: add.commute)
  show ?case
    unfolding up validate_maps_next [OF nz \<open>0 < n\<close>] ih by auto
qed simp



end
