(* ===== verification/Partition_Scheduler.thy ===== *)
theory Partition_Scheduler
  imports Topic_Model Metadata_Store
begin

text \<open>
  The partition scheduler of the streaming controller
  (\<open>fluvio-sc/src/controllers/scheduler/partition.rs\<close> over the scheduling groups of
  \<open>fluvio-sc/src/stores/partition/store.rs\<close>): how many partitions each SPU leads and
  follows, the choice of the least loaded SPU, and the replica map of a topic.
\<close>

section \<open>Stores\<close>

record SpuStatus =
  sst_resolution :: SpuStatusResolution

definition spu_is_online :: "SpuStatus \<Rightarrow> bool" where
  "spu_is_online s = (sst_resolution s = SpuOnline)"

definition spu_is_offline :: "SpuStatus \<Rightarrow> bool" where
  "spu_is_offline s = (sst_resolution s = SpuOffline)"

definition spu_is_init :: "SpuStatus \<Rightarrow> bool" where
  "spu_is_init s = (sst_resolution s = SpuInit)"

datatype PartitionResolution = Offline | Online | LeaderOffline | ElectionLeaderFound | OutOfStorage

record PartitionStatus =
  pst_resolution :: PartitionResolution
  pst_leader :: ReplicaStatus
  pst_lsr :: u32
  pst_replicas :: "ReplicaStatus list"
  pst_size :: i64
  pst_is_being_deleted :: bool
  pst_base_offset :: i64

type_synonym 'c SpuMetadata = "(SpuSpec, SpuStatus, string, 'c) MetadataStoreObject"
type_synonym 'c PartitionMetadata = "(PartitionSpec, PartitionStatus, ReplicaKey, 'c) MetadataStoreObject"
type_synonym 'c TopicMetadata = "(TopicSpec, TopicStatus, string, 'c) MetadataStoreObject"

text \<open>The objects of a store, in the order its map is iterated.\<close>

type_synonym 'c SpuStore = "'c SpuMetadata list"
type_synonym 'c PartitionStore = "'c PartitionMetadata list"
type_synonym 'c TopicStore = "'c TopicMetadata list"

definition online_status :: "'c SpuStore \<Rightarrow> SpuId set" where
  "online_status spus = set (map (\<lambda>s. spu_id (spec s)) (filter (\<lambda>s. spu_is_online (status s)) spus))"

definition online_spu_count :: "'c SpuStore \<Rightarrow> u32" where
  "online_spu_count spus = word_of_nat (length (filter (\<lambda>s. spu_is_online (status s)) spus))"

definition online_spu_ids :: "'c SpuStore \<Rightarrow> SpuId list" where
  "online_spu_ids spus = map (\<lambda>s. spu_id (spec s)) (filter (\<lambda>s. spu_is_online (status s)) spus)"

definition spu_ids :: "'c SpuStore \<Rightarrow> SpuId list" where
  "spu_ids spus = sort (map (\<lambda>s. spu_id (spec s)) spus)"

definition spu_get_by_id :: "SpuId \<Rightarrow> 'c SpuStore \<Rightarrow> 'c SpuMetadata option" where
  "spu_get_by_id i spus = find (\<lambda>s. spu_id (spec s) = i) spus"

definition validate_spu_for_registered :: "SpuId \<Rightarrow> 'c SpuStore \<Rightarrow> bool" where
  "validate_spu_for_registered i spus = list_ex (\<lambda>s. spu_id (spec s) = i) spus"

section \<open>Scheduling groups\<close>

record PartitionCountSpu =
  pc_leaders :: u16
  pc_followers :: u16

definition default_count :: PartitionCountSpu where
  "default_count = \<lparr>pc_leaders = 0, pc_followers = 0\<rparr>"

datatype SpuWeightSelection = Leader | Follower

type_synonym ReplicaSchedulingGroups = "SpuId \<rightharpoonup> PartitionCountSpu"

definition candidate_weight :: "ReplicaSchedulingGroups \<Rightarrow> SpuWeightSelection \<Rightarrow> SpuId \<Rightarrow> u16" where
  "candidate_weight groups weight spu =
     (case groups spu of
        None \<Rightarrow> 0
      | Some counts \<Rightarrow> (case weight of Leader \<Rightarrow> pc_leaders counts | Follower \<Rightarrow> pc_followers counts))"

fun suitable_loop ::
  "ReplicaSchedulingGroups \<Rightarrow> SpuId list \<Rightarrow> SpuWeightSelection \<Rightarrow> SpuId list
    \<Rightarrow> SpuId option \<times> u16 \<Rightarrow> SpuId option \<times> u16" where
  "suitable_loop groups anti_affinity weight [] st = st"
| "suitable_loop groups anti_affinity weight (spu # rest) (current_spu, min_weight) =
     suitable_loop groups anti_affinity weight rest
       (if spu \<in> set anti_affinity then (current_spu, min_weight)
        else if candidate_weight groups weight spu < min_weight
        then (Some spu, candidate_weight groups weight spu)
        else (current_spu, min_weight))"

definition find_suitable_spu ::
  "ReplicaSchedulingGroups \<Rightarrow> SpuId list \<Rightarrow> SpuId list \<Rightarrow> SpuWeightSelection \<Rightarrow> SpuId option" where
  "find_suitable_spu groups spu_list anti_affinity weight =
     fst (suitable_loop groups anti_affinity weight spu_list (None, 65535))"

definition increase_leaders :: "SpuId \<Rightarrow> ReplicaSchedulingGroups \<Rightarrow> ReplicaSchedulingGroups" where
  "increase_leaders spu groups =
     (case groups spu of
        Some counts \<Rightarrow> groups(spu \<mapsto> counts\<lparr>pc_leaders := pc_leaders counts + 1\<rparr>)
      | None \<Rightarrow> groups(spu \<mapsto> default_count\<lparr>pc_leaders := 1\<rparr>))"

definition increase_followers :: "SpuId \<Rightarrow> ReplicaSchedulingGroups \<Rightarrow> ReplicaSchedulingGroups" where
  "increase_followers spu groups =
     (case groups spu of
        Some counts \<Rightarrow> groups(spu \<mapsto> counts\<lparr>pc_followers := pc_followers counts + 1\<rparr>)
      | None \<Rightarrow> groups(spu \<mapsto> default_count\<lparr>pc_followers := 1\<rparr>))"

definition group_by_spu :: "'c PartitionStore \<Rightarrow> ReplicaSchedulingGroups" where
  "group_by_spu partitions =
     foldl (\<lambda>groups p. foldl (\<lambda>groups f. if f \<noteq> ps_leader (spec p) then increase_followers f groups else groups)
                          (increase_leaders (ps_leader (spec p)) groups) (ps_replicas (spec p)))
       Map.empty partitions"

section \<open>The scheduler\<close>

fun place_replicas ::
  "SpuId list \<Rightarrow> nat list \<Rightarrow> SpuId list \<Rightarrow> ReplicaSchedulingGroups
    \<Rightarrow> SpuId list option \<times> ReplicaSchedulingGroups" where
  "place_replicas online [] reserved groups = (Some reserved, groups)"
| "place_replicas online (r_idx # rest) reserved groups =
     (case find_suitable_spu groups online reserved (if r_idx = 0 then Leader else Follower) of
        Some spu \<Rightarrow>
          place_replicas online rest (reserved @ [spu])
            (if r_idx = 0 then increase_leaders spu groups else increase_followers spu groups)
      | None \<Rightarrow> (None, groups))"

definition kept_replicas :: "ReplicaMap option \<Rightarrow> u32 \<Rightarrow> u32 \<Rightarrow> SpuId list option" where
  "kept_replicas actual replication_factor p_idx =
     (case actual of
        None \<Rightarrow> None
      | Some m \<Rightarrow>
          (case map_of m p_idx of
             None \<Rightarrow> None
           | Some replicas \<Rightarrow> if length replicas = unat replication_factor then Some replicas else None))"

fun generate_loop ::
  "SpuId list \<Rightarrow> u32 \<Rightarrow> ReplicaMap option \<Rightarrow> u32 list \<Rightarrow> ReplicaMap \<Rightarrow> ReplicaSchedulingGroups
    \<Rightarrow> ReplicaMap \<times> ReplicaSchedulingGroups" where
  "generate_loop online replication_factor actual [] partition_map groups = (partition_map, groups)"
| "generate_loop online replication_factor actual (p_idx # rest) partition_map groups =
     (case kept_replicas actual replication_factor p_idx of
        Some replicas \<Rightarrow>
          generate_loop online replication_factor actual rest (bt_insert p_idx replicas partition_map) groups
      | None \<Rightarrow>
          (case place_replicas online [0..<unat replication_factor] [] groups of
             (None, groups) \<Rightarrow> ([], groups)
           | (Some reserved, groups) \<Rightarrow>
               generate_loop online replication_factor actual rest (bt_insert p_idx reserved partition_map) groups))"

definition generate_partitions_without_rack ::
  "'c SpuStore \<Rightarrow> TopicReplicaParam \<Rightarrow> ReplicaMap option \<Rightarrow> ReplicaSchedulingGroups
    \<Rightarrow> ReplicaMap \<times> ReplicaSchedulingGroups" where
  "generate_partitions_without_rack spus param actual groups =
     generate_loop (sort (online_spu_ids spus)) (trp_replication_factor param) actual
       (map word_of_nat [0..<unat (trp_partitions param)]) [] groups"

definition generate_replica_map_for_topic ::
  "'c SpuStore \<Rightarrow> TopicReplicaParam \<Rightarrow> ReplicaMap option \<Rightarrow> ReplicaSchedulingGroups
    \<Rightarrow> ReplicaMap \<times> ReplicaSchedulingGroups" where
  "generate_replica_map_for_topic spus param actual groups =
     (if (word_of_nat (length spus) :: u32) < trp_replication_factor param then ([], groups)
      else generate_partitions_without_rack spus param actual groups)"

definition replica_map_of_maps :: "PartitionMaps \<Rightarrow> ReplicaMap" where
  "replica_map_of_maps maps = fold (\<lambda>p. bt_insert (pm_id p) (pm_replicas p)) maps []"

section \<open>The choice of an SPU\<close>

lemma suitable_loop_cases:
  assumes "suitable_loop groups anti weight xs (cur, m) = (cur', m')"
  shows "m' \<le> m \<and> (\<forall>x \<in> set xs - set anti. m' \<le> candidate_weight groups weight x)
    \<and> (cur' = cur \<and> m' = m
       \<or> m' < m \<and> (\<exists>x \<in> set xs - set anti. cur' = Some x \<and> candidate_weight groups weight x = m'))"
  using assms
proof (induction xs arbitrary: cur m)
  case (Cons x xs)
  let ?w = "candidate_weight groups weight x"
  show ?case
  proof (cases "x \<in> set anti \<or> \<not> ?w < m")
    case True
    then have "suitable_loop groups anti weight xs (cur, m) = (cur', m')"
      using Cons.prems by (auto split: if_splits)
    from Cons.IH [OF this] True show ?thesis by (auto simp: not_less intro: order_trans)
  next
    case False
    then have "suitable_loop groups anti weight xs (Some x, ?w) = (cur', m')"
      using Cons.prems by simp
    from Cons.IH [OF this] False show ?thesis by auto
  qed
qed simp

lemma find_suitable_spu_Some:
  assumes "find_suitable_spu groups xs anti weight = Some spu"
  shows "spu \<in> set xs" "spu \<notin> set anti" "candidate_weight groups weight spu < 65535"
    "x \<in> set xs \<Longrightarrow> x \<notin> set anti \<Longrightarrow> candidate_weight groups weight spu \<le> candidate_weight groups weight x"
proof -
  obtain cur m where l: "suitable_loop groups anti weight xs (None, 65535) = (cur, m)"
    by (cases "suitable_loop groups anti weight xs (None, 65535)")
  then have "cur = Some spu" using assms by (simp add: find_suitable_spu_def)
  with suitable_loop_cases [OF l]
  show "spu \<in> set xs" "spu \<notin> set anti" "candidate_weight groups weight spu < 65535"
    "x \<in> set xs \<Longrightarrow> x \<notin> set anti \<Longrightarrow> candidate_weight groups weight spu \<le> candidate_weight groups weight x"
    by auto
qed

lemma find_suitable_spu_None:
  assumes "find_suitable_spu groups xs anti weight = None" "x \<in> set xs" "x \<notin> set anti"
  shows "candidate_weight groups weight x = 65535"
proof -
  obtain cur m where l: "suitable_loop groups anti weight xs (None, 65535) = (cur, m)"
    by (cases "suitable_loop groups anti weight xs (None, 65535)")
  then have "cur = None" using assms by (simp add: find_suitable_spu_def)
  with suitable_loop_cases [OF l] have "m = 65535" by auto
  with suitable_loop_cases [OF l] assms have "65535 \<le> candidate_weight groups weight x" by auto
  moreover have "unat (candidate_weight groups weight x) < 2 ^ 16" using unsigned_less [of "candidate_weight groups weight x", where ?'a = nat] by simp
  ultimately have "unat (candidate_weight groups weight x) = unat (65535 :: u16)" by (simp add: word_le_nat_alt)
  then show ?thesis by (simp only: word_unat_eq_iff)
qed

lemma weight_increase_leaders [simp]:
  "candidate_weight (increase_leaders spu groups) w x =
     (if w = Leader \<and> x = spu then candidate_weight groups w x + 1 else candidate_weight groups w x)"
  by (cases w) (auto simp: candidate_weight_def increase_leaders_def default_count_def split: option.splits)

lemma weight_increase_followers [simp]:
  "candidate_weight (increase_followers spu groups) w x =
     (if w = Follower \<and> x = spu then candidate_weight groups w x + 1 else candidate_weight groups w x)"
  by (cases w) (auto simp: candidate_weight_def increase_followers_def default_count_def split: option.splits)

lemma unat_Suc_below_max: "(x :: u16) < 65535 \<Longrightarrow> unat (x + 1) = unat x + 1"
  by (subst unat_plus_simple [THEN iffD1]) (auto simp: word_le_nat_alt word_less_nat_alt unat_word_ariths)

section \<open>Placing the replicas of a partition\<close>

lemma place_replicas_Some:
  assumes "place_replicas online idxs reserved groups = (Some rs, groups')"
    "distinct reserved" "set reserved \<subseteq> set online"
  shows "length rs = length reserved + length idxs" "distinct rs" "set rs \<subseteq> set online"
    "take (length reserved) rs = reserved"
proof -
  have "length rs = length reserved + length idxs \<and> distinct rs \<and> set rs \<subseteq> set online
    \<and> take (length reserved) rs = reserved"
    using assms
  proof (induction online idxs reserved groups rule: place_replicas.induct)
    case (2 online r_idx rest reserved groups)
    from 2(2) obtain spu where
      f: "find_suitable_spu groups online reserved (if r_idx = 0 then Leader else Follower) = Some spu"
      and p: "place_replicas online rest (reserved @ [spu])
        (if r_idx = 0 then increase_leaders spu groups else increase_followers spu groups) = (Some rs, groups')"
      by (auto split: option.splits)
    have "distinct (reserved @ [spu])" "set (reserved @ [spu]) \<subseteq> set online"
      using find_suitable_spu_Some [OF f] 2(3,4) by auto
    from 2(1) [OF f p this]
    show ?case by (auto simp: take_Suc_conv_app_nth dest: arg_cong [of _ _ "take (length reserved)"])
  qed auto
  then show "length rs = length reserved + length idxs" "distinct rs" "set rs \<subseteq> set online"
    "take (length reserved) rs = reserved" by auto
qed

lemma place_replicas_weight:
  assumes "place_replicas online idxs reserved groups = (r, groups')"
  shows "unat (candidate_weight groups' w x) \<le> unat (candidate_weight groups w x) + (if x \<in> set reserved then 0 else 1)"
    "unat (candidate_weight groups w x) \<le> unat (candidate_weight groups' w x)"
proof -
  have "unat (candidate_weight groups' w x) \<le> unat (candidate_weight groups w x) + (if x \<in> set reserved then 0 else 1)
    \<and> unat (candidate_weight groups w x) \<le> unat (candidate_weight groups' w x)"
    using assms
  proof (induction online idxs reserved groups rule: place_replicas.induct)
    case (2 online r_idx rest reserved groups)
    let ?w = "if r_idx = 0 then Leader else Follower"
    show ?case
    proof (cases "find_suitable_spu groups online reserved ?w")
      case None
      then show ?thesis using 2(2) by auto
    next
      case (Some spu)
      let ?g = "if r_idx = 0 then increase_leaders spu groups else increase_followers spu groups"
      note f = find_suitable_spu_Some [OF Some]
      have p: "place_replicas online rest (reserved @ [spu]) ?g = (r, groups')" using 2(2) Some by simp
      have g: "candidate_weight ?g w x =
        (if w = ?w \<and> x = spu then candidate_weight groups w x + 1 else candidate_weight groups w x)"
        by (cases w) auto
      show ?thesis
        using 2(1) [OF Some p] f(2,3) unat_Suc_below_max [of "candidate_weight groups w x"]
        unfolding g by (auto split: if_splits)
    qed
  qed auto
  then show "unat (candidate_weight groups' w x) \<le> unat (candidate_weight groups w x) + (if x \<in> set reserved then 0 else 1)"
    "unat (candidate_weight groups w x) \<le> unat (candidate_weight groups' w x)" by auto
qed

lemma place_followers_leader_weight:
  assumes "place_replicas online idxs reserved groups = (r, groups')" "0 \<notin> set idxs"
  shows "candidate_weight groups' Leader x = candidate_weight groups Leader x"
  using assms
proof (induction online idxs reserved groups rule: place_replicas.induct)
  case (2 online r_idx rest reserved groups)
  show ?case
  proof (cases "find_suitable_spu groups online reserved Follower")
    case (Some spu)
    then show ?thesis using 2(1) [of spu] 2(2,3) by simp
  qed (use 2(2,3) in simp)
qed simp

lemma place_replicas_fails:
  assumes "place_replicas online idxs reserved groups = (None, groups')"
    "\<And>w x. x \<in> set online - set reserved \<Longrightarrow> candidate_weight groups w x < 65535"
    "distinct reserved" "set reserved \<subseteq> set online"
  shows "card (set online) < length reserved + length idxs"
  using assms
proof (induction online idxs reserved groups rule: place_replicas.induct)
  case (2 online r_idx rest reserved groups)
  let ?w = "if r_idx = 0 then Leader else Follower"
  show ?case
  proof (cases "find_suitable_spu groups online reserved ?w")
    case None
    have "set online - set reserved = {}"
    proof (rule ccontr)
      assume "set online - set reserved \<noteq> {}"
      then obtain x where x: "x \<in> set online - set reserved" by blast
      then have "candidate_weight groups ?w x = 65535" using find_suitable_spu_None [OF None, of x] by simp
      then show False using 2(3) [OF x, of ?w] by simp
    qed
    then have "set online = set reserved" using 2(5) by blast
    then show ?thesis using 2(4) by (simp add: distinct_card)
  next
    case (Some spu)
    let ?g = "if r_idx = 0 then increase_leaders spu groups else increase_followers spu groups"
    note f = find_suitable_spu_Some [OF Some]
    have p: "place_replicas online rest (reserved @ [spu]) ?g = (None, groups')" using 2(2) Some by simp
    have "x \<in> set online - set (reserved @ [spu]) \<Longrightarrow> candidate_weight ?g w x < 65535" for w x
      using 2(3) [of x w] by auto
    from 2(1) [OF Some p this] f(1,2) 2(4,5) show ?thesis by simp
  qed
qed simp

lemma place_replicas_first:
  assumes "place_replicas online (0 # idxs) [] groups = (r, groups')" "0 \<notin> set idxs"
  obtains "find_suitable_spu groups online [] Leader = None" "r = None" "groups' = groups"
  | spu where "find_suitable_spu groups online [] Leader = Some spu"
      "\<And>x. candidate_weight groups' Leader x
         = (if x = spu then candidate_weight groups Leader x + 1 else candidate_weight groups Leader x)"
      "\<And>rs. r = Some rs \<Longrightarrow> take 1 rs = [spu]"
proof (cases "find_suitable_spu groups online [] Leader")
  case None
  then show ?thesis using that(1) assms by simp
next
  case (Some spu)
  have p: "place_replicas online idxs [spu] (increase_leaders spu groups) = (r, groups')"
    using assms Some by simp
  show ?thesis
  proof (rule that(2) [OF Some])
    show "candidate_weight groups' Leader x
         = (if x = spu then candidate_weight groups Leader x + 1 else candidate_weight groups Leader x)" for x
      using place_followers_leader_weight [OF p assms(2)] by simp
    show "take 1 rs = [spu]" if "r = Some rs" for rs
      using place_replicas_Some(4) [of online idxs "[spu]"] p that find_suitable_spu_Some [OF Some] by simp
  qed
qed

section \<open>The replica map of a topic\<close>

lemma partition_ids_sorted:
  "sorted_wrt (<) (map word_of_nat [0..<unat (n :: u32)] :: u32 list)"
proof -
  have "unat n < 2 ^ 32" using unsigned_less [of n, where ?'a = nat] by simp
  then show ?thesis
    by (auto simp: sorted_wrt_iff_nth_less word_less_nat_alt unat_of_nat take_bit_nat_eq_self)
qed

text \<open>The replicas of a partition: those it had, or new ones on different online SPUs.\<close>

definition replicas_placed :: "SpuId set \<Rightarrow> u32 \<Rightarrow> ReplicaMap option \<Rightarrow> u32 \<Rightarrow> SpuId list \<Rightarrow> bool" where
  "replicas_placed online rf actual p rs =
     (case kept_replicas actual rf p of
        Some replicas \<Rightarrow> rs = replicas
      | None \<Rightarrow> length rs = unat rf \<and> distinct rs \<and> set rs \<subseteq> online)"

definition new_leaders :: "u32 \<Rightarrow> ReplicaMap option \<Rightarrow> SpuId \<Rightarrow> ReplicaMap \<Rightarrow> nat" where
  "new_leaders rf actual spu m =
     length (filter (\<lambda>(p, rs). kept_replicas actual rf p = None \<and> take 1 rs = [spu]) m)"

lemma place_all:
  assumes "place_replicas online [0..<unat rf] [] groups = (Some rs, groups')"
  shows "length rs = unat rf \<and> distinct rs \<and> set rs \<subseteq> set online"
    "unat (candidate_weight groups' Leader spu)
       = unat (candidate_weight groups Leader spu) + (if take 1 rs = [spu] then 1 else 0)"
proof -
  show l: "length rs = unat rf \<and> distinct rs \<and> set rs \<subseteq> set online"
    using place_replicas_Some [OF assms] by simp
  show "unat (candidate_weight groups' Leader spu)
       = unat (candidate_weight groups Leader spu) + (if take 1 rs = [spu] then 1 else 0)"
  proof (cases "unat rf")
    case 0
    then show ?thesis using assms l by auto
  next
    case (Suc n)
    then have "place_replicas online (0 # [1..<Suc n]) [] groups = (Some rs, groups')"
      using assms by (simp add: upt_conv_Cons del: upt_Suc)
    then show ?thesis
    proof (rule place_replicas_first)
      fix x
      assume f: "find_suitable_spu groups online [] Leader = Some x"
        and w: "\<And>y. candidate_weight groups' Leader y
          = (if y = x then candidate_weight groups Leader y + 1 else candidate_weight groups Leader y)"
        and t: "\<And>rs'. Some rs = Some rs' \<Longrightarrow> take 1 rs' = [x]"
      show ?thesis
        using find_suitable_spu_Some(3) [OF f] unat_Suc_below_max [of "candidate_weight groups Leader spu"]
          w [of spu] t [of rs] by auto
    qed auto
  qed
qed

lemma generate_loop_sound:
  assumes "generate_loop online rf actual ps pm groups = (m, groups')" "m \<noteq> []"
    "sorted_wrt (<) ps" "\<forall>k \<in> fst ` set pm. \<forall>p \<in> set ps. k < p"
  shows "\<exists>rss. m = pm @ zip ps rss \<and> length rss = length ps
    \<and> (\<forall>(p, rs) \<in> set (zip ps rss). replicas_placed (set online) rf actual p rs)
    \<and> (\<forall>spu. unat (candidate_weight groups' Leader spu)
           = unat (candidate_weight groups Leader spu) + new_leaders rf actual spu (zip ps rss))"
  using assms
proof (induction online rf actual ps pm groups rule: generate_loop.induct)
  case (1 online rf actual pm groups)
  then show ?case by (auto simp: new_leaders_def)
next
  case (2 online rf actual p rest pm groups)
  have ins: "bt_insert p rs pm = pm @ [(p, rs)]" for rs
    using bt_insert_last [of pm p rs] 2(5,6) by auto
  have below: "\<forall>k \<in> fst ` set (bt_insert p rs pm). \<forall>q \<in> set rest. k < q" for rs
    using 2(5,6) unfolding ins by auto
  show ?case
  proof (cases "kept_replicas actual rf p")
    case (Some rs)
    then have "generate_loop online rf actual rest (bt_insert p rs pm) groups = (m, groups')"
      using 2(3) by simp
    from 2(2) [OF Some this 2(4) _ below] 2(5) obtain rss where "m = bt_insert p rs pm @ zip rest rss"
      "length rss = length rest" "\<forall>(p, rs) \<in> set (zip rest rss). replicas_placed (set online) rf actual p rs"
      "\<forall>spu. unat (candidate_weight groups' Leader spu)
           = unat (candidate_weight groups Leader spu) + new_leaders rf actual spu (zip rest rss)"
      by auto
    then show ?thesis
      using Some unfolding ins
      by (intro exI [of _ "rs # rss"]) (auto simp: replicas_placed_def new_leaders_def)
  next
    case None
    obtain r g where p: "place_replicas online [0..<unat rf] [] groups = (r, g)" by fastforce
    with None 2(3,4) obtain rs where r: "r = Some rs"
      and l: "generate_loop online rf actual rest (bt_insert p rs pm) g = (m, groups')"
      by (auto split: option.splits)
    from 2(1) [OF None p [symmetric] r l 2(4) _ below] 2(5) obtain rss where "m = bt_insert p rs pm @ zip rest rss"
      "length rss = length rest" "\<forall>(p, rs) \<in> set (zip rest rss). replicas_placed (set online) rf actual p rs"
      "\<forall>spu. unat (candidate_weight groups' Leader spu)
           = unat (candidate_weight g Leader spu) + new_leaders rf actual spu (zip rest rss)"
      by auto
    then show ?thesis
      using None place_all [OF p [unfolded r]] unfolding ins
      by (intro exI [of _ "rs # rss"]) (auto simp: replicas_placed_def new_leaders_def)
  qed
qed

lemma generate_loop_succeeds:
  assumes "\<And>w x. x \<in> set online \<Longrightarrow> unat (candidate_weight groups w x) + length ps \<le> 65535"
    "unat rf \<le> card (set online) \<or> (\<forall>p \<in> set ps. kept_replicas actual rf p \<noteq> None)" "pm \<noteq> [] \<or> ps \<noteq> []"
  shows "fst (generate_loop online rf actual ps pm groups) \<noteq> []"
  using assms
proof (induction online rf actual ps pm groups rule: generate_loop.induct)
  case (2 online rf actual p rest pm groups)
  have ins: "bt_insert p rs pm \<noteq> []" for rs by (cases pm) (auto split: if_splits)
  show ?case
  proof (cases "kept_replicas actual rf p")
    case (Some rs)
    have b: "unat (candidate_weight groups w x) + length rest \<le> 65535" if "x \<in> set online" for w x
      using 2(3) [OF that, of w] by simp
    show ?thesis using 2(2) [OF Some b] 2(4) Some ins by auto
  next
    case None
    obtain r g where p: "place_replicas online [0..<unat rf] [] groups = (r, g)" by fastforce
    have lt: "candidate_weight groups w x < 65535" if "x \<in> set online - set []" for w x
      using 2(3) [of x w] that by (simp add: word_less_nat_alt)
    have "r \<noteq> None" using place_replicas_fails [of online "[0..<unat rf]" "[]" groups g] p lt 2(4) None by auto
    then obtain rs where r: "r = Some rs" by blast
    have b: "unat (candidate_weight g w x) + length rest \<le> 65535" if "x \<in> set online" for w x
      using 2(3) [OF that, of w] place_replicas_weight(1) [OF p, of w x] by simp
    show ?thesis using 2(1) [OF None p [symmetric] r b] 2(4) None p r ins by auto
  qed
qed simp

lemma generate_loop_fails:
  assumes "card (set online) < unat rf" "p \<in> set ps" "kept_replicas actual rf p = None"
  shows "fst (generate_loop online rf actual ps pm groups) = []"
  using assms
proof (induction online rf actual ps pm groups rule: generate_loop.induct)
  case (2 online rf actual q rest pm groups)
  show ?case
  proof (cases "kept_replicas actual rf q")
    case (Some rs)
    then show ?thesis using 2 by auto
  next
    case None
    obtain r g where p: "place_replicas online [0..<unat rf] [] groups = (r, g)" by fastforce
    have "r = None"
    proof (rule ccontr)
      assume "r \<noteq> None"
      then obtain rs where "length rs = unat rf" "distinct rs" "set rs \<subseteq> set online"
        using place_all(1) [of online rf groups] p by blast
      then show False using 2(3) by (metis card_mono distinct_card finite_set not_le)
    qed
    then show ?thesis using None p by simp
  qed
qed simp

definition leaders_balanced :: "SpuId set \<Rightarrow> ReplicaSchedulingGroups \<Rightarrow> bool" where
  "leaders_balanced online groups =
     (\<forall>a \<in> online. \<forall>b \<in> online.
        unat (candidate_weight groups Leader a) \<le> unat (candidate_weight groups Leader b) + 1)"

lemma place_replicas_balanced:
  assumes "place_replicas online [0..<n] [] groups = (r, groups')" "leaders_balanced (set online) groups"
  shows "leaders_balanced (set online) groups'"
proof (cases n)
  case (Suc k)
  then have "place_replicas online (0 # [1..<Suc k]) [] groups = (r, groups')"
    using assms by (simp add: upt_conv_Cons del: upt_Suc)
  then show ?thesis
  proof (rule place_replicas_first)
    fix x
    assume f: "find_suitable_spu groups online [] Leader = Some x"
      and w: "\<And>y. candidate_weight groups' Leader y
        = (if y = x then candidate_weight groups Leader y + 1 else candidate_weight groups Leader y)"
    have "unat (candidate_weight groups' Leader a) \<le> unat (candidate_weight groups' Leader b) + 1"
      if "a \<in> set online" "b \<in> set online" for a b
      using that assms(2) find_suitable_spu_Some(3) [OF f] find_suitable_spu_Some(4) [OF f, of b]
        unat_Suc_below_max [of "candidate_weight groups Leader x"] w [of a] w [of b]
      by (fastforce simp: leaders_balanced_def word_le_nat_alt intro: le_SucI)
    then show ?thesis by (simp add: leaders_balanced_def)
  qed (use assms(2) in auto)
qed (use assms in simp)

lemma generate_loop_balanced:
  assumes "leaders_balanced (set online) groups"
  shows "leaders_balanced (set online) (snd (generate_loop online rf actual ps pm groups))"
  using assms
proof (induction online rf actual ps pm groups rule: generate_loop.induct)
  case (2 online rf actual p rest pm groups)
  obtain r g where p: "place_replicas online [0..<unat rf] [] groups = (r, g)" by fastforce
  then have "leaders_balanced (set online) g" using place_replicas_balanced 2(3) by blast
  then show ?case using 2 p by (cases "kept_replicas actual rf p"; cases r) auto
qed simp

lemma set_online_ids: "set (sort (online_spu_ids spus)) = online_status spus"
  by (simp add: online_spu_ids_def online_status_def)

lemma generate_sound:
  assumes "generate_replica_map_for_topic spus param actual groups = (m, groups')" "m \<noteq> []"
  shows "map fst m = map word_of_nat [0..<unat (trp_partitions param)]
    \<and> (\<forall>(p, rs) \<in> set m. replicas_placed (online_status spus) (trp_replication_factor param) actual p rs)
    \<and> (\<forall>spu. unat (candidate_weight groups' Leader spu)
         = unat (candidate_weight groups Leader spu) + new_leaders (trp_replication_factor param) actual spu m)"
proof -
  let ?rf = "trp_replication_factor param"
  have "generate_loop (sort (online_spu_ids spus)) ?rf actual
      (map word_of_nat [0..<unat (trp_partitions param)]) [] groups = (m, groups')"
    using assms by (auto simp: generate_replica_map_for_topic_def generate_partitions_without_rack_def split: if_splits)
  from generate_loop_sound [OF this assms(2) partition_ids_sorted]
  show ?thesis unfolding set_online_ids by auto
qed

text \<open>
  C14. A replica map that the scheduler returns has exactly the partitions 0 to n - 1
  of the topic. A partition that already had the required number of replicas keeps
  them; every other one gets that many replicas on pairwise different SPUs that are
  online, and the leader counts grow by the new partitions whose first replica is
  on the SPU.
\<close>

theorem scheduled_replica_map:
  assumes "generate_replica_map_for_topic spus param actual groups = (m, groups')" "m \<noteq> []"
  shows "map fst m = map word_of_nat [0..<unat (trp_partitions param)]
    \<and> (\<forall>(p, rs) \<in> set m. replicas_placed (online_status spus) (trp_replication_factor param) actual p rs)
    \<and> (\<forall>spu. unat (candidate_weight groups' Leader spu)
         = unat (candidate_weight groups Leader spu) + new_leaders (trp_replication_factor param) actual spu m)"
  by (rule generate_sound [OF assms])

text \<open>Three SPUs, one of them offline.\<close>

definition spu_md :: "SpuId \<Rightarrow> SpuStatusResolution \<Rightarrow> nat SpuMetadata" where
  "spu_md i r = \<lparr>spec = \<lparr>spu_id = i, spu_type = Managed,
       spu_public_endpoint = \<lparr>ip_port = 9010, ip_ingress = [], ip_encryption = PLAINTEXT\<rparr>,
       spu_private_endpoint = \<lparr>ep_port = 9011, ep_host = ''spu'', ep_encryption = PLAINTEXT\<rparr>,
       spu_rack = None, spu_public_endpoint_local = None\<rparr>, status = \<lparr>sst_resolution = r\<rparr>, key = ''spu'', ctx = 0\<rparr>"

definition three_spus :: "nat SpuStore" where
  "three_spus = [spu_md 5002 SpuOnline, spu_md 5000 SpuOnline, spu_md 5001 SpuOffline]"

definition two_by_two :: TopicReplicaParam where
  "two_by_two = \<lparr>trp_partitions = 2, trp_replication_factor = 2, trp_ignore_rack_assignment = False\<rparr>"

lemmas scheduler_eval =
  generate_replica_map_for_topic_def generate_partitions_without_rack_def three_spus_def spu_md_def two_by_two_def
  online_spu_ids_def spu_is_online_def kept_replicas_def upt_rec find_suitable_spu_def candidate_weight_def
  increase_leaders_def increase_followers_def default_count_def

lemma two_by_two_map:
  "fst (generate_replica_map_for_topic three_spus two_by_two None Map.empty) = [(0, [5000, 5002]), (1, [5002, 5000])]"
  by (simp add: scheduler_eval)

theorem scheduled_replica_map_witness:
  "distinct (snd (fst (generate_replica_map_for_topic three_spus two_by_two None Map.empty) ! 1))"
  using scheduled_replica_map [of three_spus two_by_two None Map.empty _
      "snd (generate_replica_map_for_topic three_spus two_by_two None Map.empty)", OF prod.collapse [symmetric]]
  by (auto simp: two_by_two_map replicas_placed_def kept_replicas_def)

lemma generate_iff:
  assumes "length spus < 2 ^ 32"
    and "\<And>w spu. spu \<in> online_status spus \<Longrightarrow>
      unat (candidate_weight groups w spu) + unat (trp_partitions param) \<le> 65535"
  shows "fst (generate_replica_map_for_topic spus param actual groups) \<noteq> []
    \<longleftrightarrow> unat (trp_replication_factor param) \<le> length spus \<and> trp_partitions param \<noteq> 0
      \<and> (unat (trp_replication_factor param) \<le> card (online_status spus)
         \<or> (\<forall>p < trp_partitions param. kept_replicas actual (trp_replication_factor param) p \<noteq> None))"
proof -
  let ?rf = "trp_replication_factor param" and ?n = "trp_partitions param"
  let ?ps = "map word_of_nat [0..<unat ?n] :: u32 list" and ?on = "sort (online_spu_ids spus)"
  have sp: "set ?ps = {p. p < ?n}"
  proof -
    have "p \<in> word_of_nat ` {0..<unat ?n}" if "p < ?n" for p :: u32
      using that by (intro image_eqI [of _ _ "unat p"]) (auto simp: word_less_nat_alt)
    moreover have "(word_of_nat k :: u32) < ?n" if "k < unat ?n" for k
      using that unsigned_less [of ?n, where ?'a = nat]
      by (simp add: word_less_nat_alt unat_of_nat take_bit_nat_eq_self)
    ultimately show ?thesis by auto
  qed
  have check: "(word_of_nat (length spus) :: u32) < ?rf \<longleftrightarrow> length spus < unat ?rf"
    using assms(1) by (simp add: word_less_nat_alt unat_of_nat take_bit_nat_eq_self)
  have room: "unat (candidate_weight groups w x) + length ?ps \<le> 65535" if "x \<in> set ?on" for w x
    using assms(2) that set_online_ids by auto
  show ?thesis
  proof (cases "length spus < unat ?rf \<or> ?n = 0")
    case True
    then show ?thesis
      using check by (auto simp: generate_replica_map_for_topic_def generate_partitions_without_rack_def)
  next
    case False
    then have g: "generate_replica_map_for_topic spus param actual groups = generate_loop ?on ?rf actual ?ps [] groups"
      using check by (simp add: generate_replica_map_for_topic_def generate_partitions_without_rack_def)
    have ne: "?ps \<noteq> []" using False by (simp add: unat_eq_0 neq0_conv [symmetric])
    show ?thesis
    proof (cases "unat ?rf \<le> card (online_status spus) \<or> (\<forall>p < ?n. kept_replicas actual ?rf p \<noteq> None)")
      case True
      then show ?thesis
        using generate_loop_succeeds [of ?on groups ?ps ?rf actual "[]", OF room] ne False
        unfolding g set_online_ids sp by auto
    next
      case no: False
      then obtain p where "p < ?n" "kept_replicas actual ?rf p = None" "card (online_status spus) < unat ?rf"
        by auto
      then show ?thesis
        using generate_loop_fails [of ?on ?rf p ?ps actual "[]" groups] no
        unfolding g set_online_ids sp by auto
    qed
  qed
qed



text \<open>
  C26. Scheduling keeps leaders balanced: when the numbers of partitions that any two
  online SPUs lead differ by at most one before a topic is scheduled, they do so
  afterwards, also when scheduling fails half-way.
\<close>

theorem scheduling_keeps_balance:
  assumes "leaders_balanced (online_status spus) groups"
  shows "leaders_balanced (online_status spus) (snd (generate_replica_map_for_topic spus param actual groups))"
  using assms generate_loop_balanced [of "sort (online_spu_ids spus)" groups, unfolded set_online_ids]
  by (simp add: generate_replica_map_for_topic_def generate_partitions_without_rack_def)

theorem scheduling_keeps_balance_witness:
  "leaders_balanced {5000, 5002} (snd (generate_replica_map_for_topic three_spus two_by_two None Map.empty))"
proof -
  have "online_status three_spus = {5000, 5002}"
    by (auto simp: three_spus_def spu_md_def online_status_def spu_is_online_def)
  then show ?thesis
    using scheduling_keeps_balance [of three_spus Map.empty two_by_two None]
    by (simp add: leaders_balanced_def candidate_weight_def)
qed

end
