(* ===== verification/Local_Metadata.thy ===== *)
theory Local_Metadata
  imports Metadata_Store "HOL-Library.Char_ord" "HOL-Library.List_Lexorder"
begin

text \<open>
  The local metadata storage and the dispatcher that connects it with the
  stores of the controller: \<open>fluvio-stream-dispatcher/src/metadata/local.rs\<close>,
  \<open>dispatcher/metadata.rs\<close> and \<open>actions.rs\<close>.

  A storage keeps one spec store per kind of object. Its directory is an
  association list from file names to file contents; file system calls
  succeed. The YAML format and the text form of keys are parameters. The
  update channel is a list, so the wait for room in it is not modelled, and
  revisions and versions are natural numbers: they count updates and stay far
  below 64 bits. Hash maps are association lists sorted by key. All stores of a storage share one type of specs, the sum of
  the kinds, so the downcasts, which check the kind the label already fixes,
  succeed.
\<close>

section \<open>Items\<close>

datatype LocalMetadataItem =
  LocalMetadataItem (item_id: string) (item_revision: nat) (item_parent: "LocalMetadataItem option")
    (item_children: "(string \<times> LocalMetadataItem list) list option")

definition item_new :: "string \<Rightarrow> LocalMetadataItem" where
  "item_new i = LocalMetadataItem i 0 None None"

definition default_item :: LocalMetadataItem where
  "default_item = item_new ''''"

definition item_is_newer :: "LocalMetadataItem \<Rightarrow> LocalMetadataItem \<Rightarrow> bool" where
  "item_is_newer self another = (item_revision self > item_revision another)"

definition set_owner :: "LocalMetadataItem \<Rightarrow> LocalMetadataItem \<Rightarrow> LocalMetadataItem" where
  "set_owner owner item = LocalMetadataItem (item_id item) (item_revision item) (Some owner) (item_children item)"

definition set_children :: "(string \<times> LocalMetadataItem list) list \<Rightarrow> LocalMetadataItem \<Rightarrow> LocalMetadataItem" where
  "set_children children item = LocalMetadataItem (item_id item) (item_revision item) (item_parent item) (Some children)"

definition create_child :: "LocalMetadataItem \<Rightarrow> LocalMetadataItem" where
  "create_child item = set_owner item default_item"

definition with_revision :: "nat \<Rightarrow> LocalMetadataItem \<Rightarrow> LocalMetadataItem" where
  "with_revision r item = LocalMetadataItem (item_id item) r (item_parent item) (item_children item)"

definition with_id :: "string \<Rightarrow> LocalMetadataItem \<Rightarrow> LocalMetadataItem" where
  "with_id i item = LocalMetadataItem i (item_revision item) (item_parent item) (item_children item)"

definition without_parent :: "LocalMetadataItem \<Rightarrow> LocalMetadataItem" where
  "without_parent item = LocalMetadataItem (item_id item) (item_revision item) None (item_children item)"

definition put_child :: "string \<Rightarrow> LocalMetadataItem \<Rightarrow> LocalMetadataItem \<Rightarrow> LocalMetadataItem" where
  "put_child kind child item =
     (let children = (case item_children item of None \<Rightarrow> [] | Some c \<Rightarrow> c)
      in LocalMetadataItem (item_id item) (item_revision item) (item_parent item)
           (Some (case map_of children kind of
                    Some vec \<Rightarrow> if child \<in> set vec then children else bt_insert kind (vec @ [child]) children
                  | None \<Rightarrow> bt_insert kind [child] children)))"

definition remove_child :: "string \<Rightarrow> LocalMetadataItem \<Rightarrow> LocalMetadataItem \<Rightarrow> LocalMetadataItem" where
  "remove_child kind child item =
     (let children = (case item_children item of None \<Rightarrow> [] | Some c \<Rightarrow> c)
      in LocalMetadataItem (item_id item) (item_revision item) (item_parent item)
           (Some (case map_of children kind of
                    Some vec \<Rightarrow>
                      (let vec = filter (\<lambda>i. i \<noteq> child) vec
                       in if vec = [] then bt_remove kind children else bt_insert kind vec children)
                  | None \<Rightarrow> children)))"

section \<open>Spec stores\<close>

type_synonym ('s, 't, 'k) LocalStoreObject = "('s, 't, 'k, LocalMetadataItem) MetadataStoreObject"

record ('s, 't, 'k) SpecPointer =
  sp_inner :: "('s, 't, 'k) LocalStoreObject"
  sp_store_revision :: nat
  sp_path :: string

datatype ('s, 't, 'k) SpecUpdate = SpecMod "('s, 't, 'k) SpecPointer" | SpecDelete "('s, 't, 'k) SpecPointer"

record ('s, 't) SpecStorageV1 =
  st_meta :: LocalMetadataItem
  st_key :: string
  st_status :: 't
  st_spec :: 's

text \<open>The text form of keys, the YAML form of a stored object and the text of the error
  for a file that cannot be loaded.\<close>

record ('s, 't, 'k, 'y) spec_io =
  show_key :: "'k \<Rightarrow> string"
  parse_key :: "string \<Rightarrow> 'k option"
  to_yaml :: "('s, 't) SpecStorageV1 \<Rightarrow> 'y"
  from_yaml :: "'y \<Rightarrow> ('s, 't) SpecStorageV1 option"
  load_error :: "string \<Rightarrow> string"

record ('s, 't, 'k, 'y) SpecStore =
  ss_version :: nat
  ss_data :: "(string \<times> ('s, 't, 'k) SpecPointer) list"
  ss_channel :: "('s, 't, 'k) SpecUpdate list"
  ss_files :: "(string \<times> 'y) list"

definition spec_file_name :: "string \<Rightarrow> string" where
  "spec_file_name name = name @ ''.yaml''"

definition pointer_new :: "string \<Rightarrow> ('s, 't, 'k) LocalStoreObject \<Rightarrow> ('s, 't, 'k) SpecPointer" where
  "pointer_new path obj = \<lparr>sp_inner = obj, sp_store_revision = 0, sp_path = path\<rparr>"

definition storage_of :: "('s, 't, 'k, 'y) spec_io \<Rightarrow> ('s, 't, 'k) SpecPointer \<Rightarrow> ('s, 't) SpecStorageV1" where
  "storage_of io p =
     \<lparr>st_meta = ctx (sp_inner p), st_key = show_key io (key (sp_inner p)), st_status = status (sp_inner p),
      st_spec = spec (sp_inner p)\<rparr>"

definition pointer_load :: "('s, 't, 'k, 'y) spec_io \<Rightarrow> string \<Rightarrow> 'y \<Rightarrow> string + string \<times> ('s, 't, 'k) SpecPointer" where
  "pointer_load io path content =
     (case from_yaml io content of
        None \<Rightarrow> Inl (load_error io path)
      | Some storage \<Rightarrow>
          (case parse_key io (st_key storage) of
             None \<Rightarrow> Inl (load_error io path)
           | Some k \<Rightarrow> Inr (item_id (st_meta storage),
               pointer_new path \<lparr>spec = st_spec storage, status = st_status storage, key = k, ctx = st_meta storage\<rparr>)))"

fun load_data ::
  "('s, 't, 'k, 'y) spec_io \<Rightarrow> (string \<times> 'y) list \<Rightarrow> (string \<times> ('s, 't, 'k) SpecPointer) list
    \<Rightarrow> string + (string \<times> ('s, 't, 'k) SpecPointer) list" where
  "load_data io [] data = Inr data"
| "load_data io ((path, content) # rest) data =
     (case pointer_load io path content of
        Inl e \<Rightarrow> Inl e
      | Inr (name, item) \<Rightarrow> load_data io rest (bt_insert name item data))"

definition spec_store_load :: "('s, 't, 'k, 'y) spec_io \<Rightarrow> (string \<times> 'y) list \<Rightarrow> string + ('s, 't, 'k, 'y) SpecStore" where
  "spec_store_load io files =
     (case load_data io files [] of
        Inl e \<Rightarrow> Inl e
      | Inr data \<Rightarrow> Inr \<lparr>ss_version = 0, ss_data = data, ss_channel = [], ss_files = files\<rparr>)"

definition retrieve_items :: "('s, 't, 'k, 'y) SpecStore \<Rightarrow> nat \<times> ('s, 't, 'k) LocalStoreObject list" where
  "retrieve_items ss = (ss_version ss, map (sp_inner \<circ> snd) (ss_data ss))"

definition try_retrieve_item :: "LocalMetadataItem \<Rightarrow> ('s, 't, 'k, 'y) SpecStore \<Rightarrow> ('s, 't, 'k) LocalStoreObject option" where
  "try_retrieve_item metadata ss = map_option sp_inner (map_of (ss_data ss) (item_id metadata))"

definition retrieve_item :: "LocalMetadataItem \<Rightarrow> ('s, 't, 'k, 'y) SpecStore \<Rightarrow> string + ('s, 't, 'k) LocalStoreObject" where
  "retrieve_item metadata ss =
     (case try_retrieve_item metadata ss of
        None \<Rightarrow> Inl (CHR 0x27 # item_id metadata @ CHR 0x27 # '' not found'')
      | Some obj \<Rightarrow> Inr obj)"

definition set_store_revision :: "nat \<Rightarrow> ('s, 't, 'k) SpecUpdate \<Rightarrow> ('s, 't, 'k) SpecUpdate" where
  "set_store_revision r u =
     (case u of SpecMod p \<Rightarrow> SpecMod (p\<lparr>sp_store_revision := r\<rparr>) | SpecDelete p \<Rightarrow> SpecDelete (p\<lparr>sp_store_revision := r\<rparr>))"

definition store_revision :: "('s, 't, 'k) SpecUpdate \<Rightarrow> nat" where
  "store_revision u = (case u of SpecMod p \<Rightarrow> sp_store_revision p | SpecDelete p \<Rightarrow> sp_store_revision p)"

definition into_ls_update :: "('s, 't, 'k) SpecUpdate \<Rightarrow> ('s, 't, 'k, LocalMetadataItem) LSUpdate" where
  "into_ls_update u = (case u of SpecMod p \<Rightarrow> Mod (sp_inner p) | SpecDelete p \<Rightarrow> Delete (key (sp_inner p)))"

definition send_update :: "('s, 't, 'k) SpecUpdate \<Rightarrow> ('s, 't, 'k, 'y) SpecStore \<Rightarrow> ('s, 't, 'k, 'y) SpecStore" where
  "send_update u ss =
     ss\<lparr>ss_version := ss_version ss + 1, ss_channel := ss_channel ss @ [set_store_revision (ss_version ss) u]\<rparr>"

definition ss_delete_item :: "LocalMetadataItem \<Rightarrow> ('s, 't, 'k, 'y) SpecStore \<Rightarrow> ('s, 't, 'k, 'y) SpecStore" where
  "ss_delete_item metadata ss =
     (case map_of (ss_data ss) (item_id metadata) of
        None \<Rightarrow> ss
      | Some removed \<Rightarrow>
          send_update (SpecDelete removed)
            (ss\<lparr>ss_data := bt_remove (item_id metadata) (ss_data ss), ss_files := bt_remove (sp_path removed) (ss_files ss)\<rparr>))"

definition stale_error :: "nat \<Rightarrow> nat \<Rightarrow> string" where
  "stale_error current proposed =
     ''attempt to update by stale value: current version: '' @ nat_string current @ '', proposed: '' @ nat_string proposed"

definition ss_apply ::
  "('s, 't, 'k, 'y) spec_io \<Rightarrow> ('s, 't, 'k) LocalStoreObject \<Rightarrow> ('s, 't, 'k, 'y) SpecStore
    \<Rightarrow> (string + unit) \<times> ('s, 't, 'k, 'y) SpecStore" where
  "ss_apply io value ss =
     (let i = item_id (ctx value);
          store = (\<lambda>value.
            (let pointer = pointer_new (spec_file_name i) value
             in (Inr (), send_update (SpecMod pointer)
                   (ss\<lparr>ss_data := bt_insert i pointer (ss_data ss),
                       ss_files := bt_insert (sp_path pointer) (to_yaml io (storage_of io pointer)) (ss_files ss)\<rparr>))))
      in case map_of (ss_data ss) i of
           None \<Rightarrow> store value
         | Some prev \<Rightarrow>
             (let prev_rev = item_revision (ctx (sp_inner prev))
              in if item_is_newer (ctx (sp_inner prev)) (ctx value)
                 then (Inl (stale_error prev_rev (item_revision (ctx value))), ss)
                 else store (value\<lparr>ctx := with_revision (prev_rev + 1) (ctx value)\<rparr>)))"

definition watch_stream_since ::
  "nat option \<Rightarrow> ('s, 't, 'k, 'y) SpecStore
    \<Rightarrow> ('s, 't, 'k, LocalMetadataItem) LSUpdate list \<times> ('s, 't, 'k, 'y) SpecStore" where
  "watch_stream_since version ss =
     (map into_ls_update
        (case version of None \<Rightarrow> ss_channel ss | Some v \<Rightarrow> filter (\<lambda>u. store_revision u \<ge> v) (ss_channel ss)),
      ss\<lparr>ss_channel := []\<rparr>)"

section \<open>The storage of all kinds\<close>

record ('s, 't, 'k, 'y) LocalMetadataStorage =
  lm_stores :: "(string \<times> ('s, 't, 'k, 'y) SpecStore) list"
  lm_disk :: "string \<Rightarrow> (string \<times> 'y) list"

definition put_store ::
  "string \<Rightarrow> ('s, 't, 'k, 'y) SpecStore \<Rightarrow> ('s, 't, 'k, 'y) LocalMetadataStorage \<Rightarrow> ('s, 't, 'k, 'y) LocalMetadataStorage" where
  "put_store label ss lms = lms\<lparr>lm_stores := bt_insert label ss (lm_stores lms)\<rparr>"

definition get_store ::
  "('s, 't, 'k, 'y) spec_io \<Rightarrow> string \<Rightarrow> ('s, 't, 'k, 'y) LocalMetadataStorage
    \<Rightarrow> (string + ('s, 't, 'k, 'y) SpecStore) \<times> ('s, 't, 'k, 'y) LocalMetadataStorage" where
  "get_store io label lms =
     (case map_of (lm_stores lms) label of
        Some ss \<Rightarrow> (Inr ss, lms)
      | None \<Rightarrow>
          (case spec_store_load io (lm_disk lms label) of
             Inl e \<Rightarrow> (Inl e, lms)
           | Inr ss \<Rightarrow> (Inr ss, put_store label ss lms)))"

text \<open>
  An operation on the store of one kind: \<open>with_store\<close> gets the store and puts back
  what the operation leaves, whether or not it failed.
\<close>

definition with_store ::
  "('s, 't, 'k, 'y) spec_io \<Rightarrow> string
    \<Rightarrow> (('s, 't, 'k, 'y) SpecStore \<Rightarrow> (string + 'r) \<times> ('s, 't, 'k, 'y) SpecStore)
    \<Rightarrow> ('s, 't, 'k, 'y) LocalMetadataStorage \<Rightarrow> (string + 'r) \<times> ('s, 't, 'k, 'y) LocalMetadataStorage" where
  "with_store io label f lms =
     (case get_store io label lms of
        (Inl e, lms) \<Rightarrow> (Inl e, lms)
      | (Inr ss, lms) \<Rightarrow> (case f ss of (r, ss) \<Rightarrow> (r, put_store label ss lms)))"

definition link_parent ::
  "('s, 't, 'k, 'y) spec_io \<Rightarrow> string \<Rightarrow> string \<Rightarrow> LocalMetadataItem \<Rightarrow> LocalMetadataItem
    \<Rightarrow> ('s, 't, 'k, 'y) LocalMetadataStorage \<Rightarrow> (string + unit) \<times> ('s, 't, 'k, 'y) LocalMetadataStorage" where
  "link_parent io label owner_label parent child =
     with_store io owner_label (\<lambda>ss.
       case retrieve_item parent ss of
         Inl e \<Rightarrow> (Inl e, ss)
       | Inr obj \<Rightarrow> ss_apply io (obj\<lparr>ctx := put_child label (without_parent child) (ctx obj)\<rparr>) ss)"

definition unlink_parent ::
  "('s, 't, 'k, 'y) spec_io \<Rightarrow> string \<Rightarrow> string \<Rightarrow> LocalMetadataItem \<Rightarrow> LocalMetadataItem
    \<Rightarrow> ('s, 't, 'k, 'y) LocalMetadataStorage \<Rightarrow> (string + unit) \<times> ('s, 't, 'k, 'y) LocalMetadataStorage" where
  "unlink_parent io label owner_label parent child =
     with_store io owner_label (\<lambda>ss.
       case retrieve_item parent ss of
         Inl e \<Rightarrow> (Inl e, ss)
       | Inr obj \<Rightarrow> ss_apply io (obj\<lparr>ctx := remove_child label (without_parent child) (ctx obj)\<rparr>) ss)"

fun delete_children ::
  "(string \<times> LocalMetadataItem list) list \<Rightarrow> ('s, 't, 'k, 'y) LocalMetadataStorage
    \<Rightarrow> (string + unit) \<times> ('s, 't, 'k, 'y) LocalMetadataStorage" where
  "delete_children [] lms = (Inr (), lms)"
| "delete_children ((kind, children) # rest) lms =
     (case map_of (lm_stores lms) kind of
        None \<Rightarrow> (Inl (''store not found for key '' @ kind), lms)
      | Some ss \<Rightarrow> delete_children rest (put_store kind (fold ss_delete_item children ss) lms))"

definition lm_apply ::
  "('s, 't, 'k, 'y) spec_io \<Rightarrow> string \<Rightarrow> string \<Rightarrow> ('s, 't, 'k) LocalStoreObject
    \<Rightarrow> ('s, 't, 'k, 'y) LocalMetadataStorage \<Rightarrow> (string + unit) \<times> ('s, 't, 'k, 'y) LocalMetadataStorage" where
  "lm_apply io label owner_label value lms =
     (let value = value\<lparr>ctx := with_id (show_key io (key value)) (ctx value)\<rparr>; item = ctx value
      in case with_store io label (ss_apply io value) lms of
           (Inl e, lms) \<Rightarrow> (Inl e, lms)
         | (Inr _, lms) \<Rightarrow>
             (case item_parent item of
                None \<Rightarrow> (Inr (), lms)
              | Some owner \<Rightarrow> link_parent io label owner_label owner item lms))"

definition lm_delete_item ::
  "('s, 't, 'k, 'y) spec_io \<Rightarrow> string \<Rightarrow> string \<Rightarrow> LocalMetadataItem
    \<Rightarrow> ('s, 't, 'k, 'y) LocalMetadataStorage \<Rightarrow> (string + unit) \<times> ('s, 't, 'k, 'y) LocalMetadataStorage" where
  "lm_delete_item io label owner_label metadata lms =
     (case get_store io label lms of
        (Inl e, lms) \<Rightarrow> (Inl e, lms)
      | (Inr ss, lms) \<Rightarrow>
          (case try_retrieve_item metadata ss of
             None \<Rightarrow> (Inr (), lms)
           | Some obj \<Rightarrow>
               (case (case item_parent (ctx obj) of
                        None \<Rightarrow> (Inr (), lms)
                      | Some owner \<Rightarrow> unlink_parent io label owner_label owner (ctx obj) lms) of
                  (Inl e, lms) \<Rightarrow> (Inl e, lms)
                | (Inr _, lms) \<Rightarrow>
                    (case delete_children (case item_children (ctx obj) of None \<Rightarrow> [] | Some c \<Rightarrow> c) lms of
                       (Inl e, lms) \<Rightarrow> (Inl e, lms)
                     | (Inr _, lms) \<Rightarrow> with_store io label (\<lambda>ss. (Inr (), ss_delete_item metadata ss)) lms))))"

definition lm_update_spec ::
  "('s, 't, 'k, 'y) spec_io \<Rightarrow> 't \<Rightarrow> string \<Rightarrow> LocalMetadataItem \<Rightarrow> 's
    \<Rightarrow> ('s, 't, 'k, 'y) LocalMetadataStorage \<Rightarrow> (string + unit) \<times> ('s, 't, 'k, 'y) LocalMetadataStorage" where
  "lm_update_spec io default_status label metadata new_spec =
     with_store io label (\<lambda>ss.
       case try_retrieve_item metadata ss of
         Some obj \<Rightarrow> ss_apply io (obj\<lparr>ctx := metadata, spec := new_spec\<rparr>) ss
       | None \<Rightarrow>
           (case parse_key io (item_id metadata) of
              None \<Rightarrow> (Inl (''failed to parse key from a string: '' @ item_id metadata), ss)
            | Some k \<Rightarrow> ss_apply io \<lparr>spec = new_spec, status = default_status, key = k, ctx = metadata\<rparr> ss))"

definition lm_update_spec_by_key ::
  "('s, 't, 'k, 'y) spec_io \<Rightarrow> 't \<Rightarrow> string \<Rightarrow> 'k \<Rightarrow> 's
    \<Rightarrow> ('s, 't, 'k, 'y) LocalMetadataStorage \<Rightarrow> (string + unit) \<times> ('s, 't, 'k, 'y) LocalMetadataStorage" where
  "lm_update_spec_by_key io default_status label k new_spec =
     (let metadata = item_new (show_key io k)
      in with_store io label (\<lambda>ss.
           case try_retrieve_item metadata ss of
             Some obj \<Rightarrow> ss_apply io (obj\<lparr>spec := new_spec\<rparr>) ss
           | None \<Rightarrow> ss_apply io \<lparr>spec = new_spec, status = default_status, key = k, ctx = metadata\<rparr> ss))"

text \<open>\<open>update_status\<close>; \<open>patch_status\<close> has the same body.\<close>

definition lm_update_status ::
  "('s, 't, 'k, 'y) spec_io \<Rightarrow> string \<Rightarrow> LocalMetadataItem \<Rightarrow> 't
    \<Rightarrow> ('s, 't, 'k, 'y) LocalMetadataStorage
    \<Rightarrow> (string + ('s, 't, 'k) LocalStoreObject) \<times> ('s, 't, 'k, 'y) LocalMetadataStorage" where
  "lm_update_status io label metadata new_status =
     with_store io label (\<lambda>ss.
       case retrieve_item metadata ss of
         Inl e \<Rightarrow> (Inl e, ss)
       | Inr obj \<Rightarrow>
           (case ss_apply io (obj\<lparr>ctx := metadata, status := new_status\<rparr>) ss of
              (Inl e, ss) \<Rightarrow> (Inl e, ss)
            | (Inr _, ss) \<Rightarrow> (retrieve_item metadata ss, ss)))"

section \<open>The dispatcher\<close>

datatype ('s, 't, 'k, 'c) WSAction =
    Apply "('s, 't, 'k, 'c) MetadataStoreObject"
  | UpdateSpec 'k 's
  | UpdateStatus 'k 't
  | DeleteItem 'k
  | DeleteFinal 'k

definition contains_string :: "string \<Rightarrow> string \<Rightarrow> bool" where
  "contains_string needle hay = list_ex (\<lambda>i. take (length needle) (drop i hay) = needle) [0..<length hay]"

definition process_ws_action ::
  "('s, 't, 'k, 'y) spec_io \<Rightarrow> 't \<Rightarrow> string \<Rightarrow> string \<Rightarrow> ('s, 't, 'k, LocalMetadataItem) WSAction
    \<Rightarrow> ('s, 't, 'k, LocalMetadataItem) object_map \<times> ('s, 't, 'k, 'y) LocalMetadataStorage
    \<Rightarrow> ('s, 't, 'k, LocalMetadataItem) object_map \<times> ('s, 't, 'k, 'y) LocalMetadataStorage" where
  "process_ws_action io default_status label owner_label action st =
     (case st of (m, lms) \<Rightarrow>
        (case action of
           Apply obj \<Rightarrow> (m, snd (lm_apply io label owner_label obj lms))
         | UpdateSpec k new_spec \<Rightarrow>
             (case contents m k of
                Some obj \<Rightarrow> (m, snd (lm_update_spec io default_status label (ctx obj) new_spec lms))
              | None \<Rightarrow> (m, snd (lm_update_spec_by_key io default_status label k new_spec lms)))
         | UpdateStatus k new_status \<Rightarrow>
             (case contents m k of
                None \<Rightarrow> (m, lms)
              | Some obj \<Rightarrow>
                  (case lm_update_status io label (ctx obj) new_status lms of
                     (Inr updated_item, lms) \<Rightarrow> (snd (apply_changes item_is_newer [Mod updated_item] m), lms)
                   | (Inl err, lms) \<Rightarrow>
                       if contains_string ''409'' err
                       then (m, snd (lm_update_status io label (ctx obj) new_status lms))
                       else (m, lms)))
         | DeleteItem k \<Rightarrow>
             (case contents m k of
                None \<Rightarrow> (m, lms)
              | Some obj \<Rightarrow> (m, snd (lm_delete_item io label owner_label (ctx obj) lms)))
         | DeleteFinal k \<Rightarrow>
             (case contents m k of
                None \<Rightarrow> (m, lms)
              | Some obj \<Rightarrow> (m, snd (lm_delete_item io label owner_label (ctx obj) lms)))))"

text \<open>
  The two other inputs of the dispatcher: the full list when the loop starts over,
  and the updates of the watch stream from the version of that list on.
\<close>

definition retrieve_all_items ::
  "('s, 't, 'k, 'y) SpecStore \<Rightarrow> ('s, 't, 'k, LocalMetadataItem) object_map
    \<Rightarrow> nat \<times> ('s, 't, 'k, LocalMetadataItem) object_map" where
  "retrieve_all_items ss m =
     (case retrieve_items ss of (version, items) \<Rightarrow> (version, snd (sync_all item_is_newer items m)))"

definition receive_updates ::
  "nat \<Rightarrow> ('s, 't, 'k, 'y) SpecStore \<Rightarrow> ('s, 't, 'k, LocalMetadataItem) object_map
    \<Rightarrow> ('s, 't, 'k, LocalMetadataItem) object_map \<times> ('s, 't, 'k, 'y) SpecStore" where
  "receive_updates version ss m =
     (case watch_stream_since (Some version) ss of
        (updates, ss) \<Rightarrow> (fold (\<lambda>u m. snd (apply_changes item_is_newer [u] m)) updates m, ss))"

section \<open>What a spec store holds\<close>

lemma bt_ext:
  assumes "bt_wf m" "bt_wf m'" "map_of m = map_of m'"
  shows "m = m'"
proof -
  have "fst ` set m = fst ` set m'" using assms(3) by (metis dom_map_of_conv_image_fst)
  then have f: "map fst m = map fst m'"
    using assms(1,2) unfolding bt_wf_def by (intro strict_sorted_equal) auto
  have "e = (fst e, the (map_of m (fst e)))" if "e \<in> set m" for e
    using map_of_is_SomeI [OF bt_wf_distinct [OF assms(1)], of "fst e" "snd e"] that by (simp add: prod_eq_iff)
  then have "m = map (\<lambda>k. (k, the (map_of m k))) (map fst m)" by (simp add: map_idI)
  moreover have "e = (fst e, the (map_of m' (fst e)))" if "e \<in> set m'" for e
    using map_of_is_SomeI [OF bt_wf_distinct [OF assms(2)], of "fst e" "snd e"] that by (simp add: prod_eq_iff)
  then have "m' = map (\<lambda>k. (k, the (map_of m' k))) (map fst m')" by (simp add: map_idI)
  ultimately show ?thesis using f assms(3) by metis
qed

text \<open>YAML and keys survive a round trip.\<close>

definition io_ok :: "('s, 't, 'k, 'y) spec_io \<Rightarrow> bool" where
  "io_ok io \<longleftrightarrow> (\<forall>x. from_yaml io (to_yaml io x) = Some x) \<and> (\<forall>k. parse_key io (show_key io k) = Some k)"

definition pointer_ok :: "('s, 't, 'k, 'y) spec_io \<Rightarrow> string \<Rightarrow> ('s, 't, 'k) SpecPointer \<Rightarrow> bool" where
  "pointer_ok io i p \<longleftrightarrow> item_id (ctx (sp_inner p)) = i \<and> show_key io (key (sp_inner p)) = i
     \<and> p = pointer_new (spec_file_name i) (sp_inner p)"

text \<open>
  The invariant of a spec store: every object is stored under its id, which is the
  text of its key; the files are exactly the stored objects; what is in the channel
  has older revisions than the store version.
\<close>

definition ss_ok :: "('s, 't, 'k, 'y) spec_io \<Rightarrow> ('s, 't, 'k, 'y) SpecStore \<Rightarrow> bool" where
  "ss_ok io ss \<longleftrightarrow>
     bt_wf (ss_data ss) \<and> (\<forall>(i, p) \<in> set (ss_data ss). pointer_ok io i p)
     \<and> bt_wf (ss_files ss)
     \<and> set (ss_files ss) = (\<lambda>(i, p). (spec_file_name i, to_yaml io (storage_of io p))) ` set (ss_data ss)
     \<and> (\<forall>u \<in> set (ss_channel ss). store_revision u < ss_version ss)"

definition objs :: "('s, 't, 'k, 'y) spec_io \<Rightarrow> ('s, 't, 'k, 'y) SpecStore \<Rightarrow> 'k \<rightharpoonup> ('s, 't, 'k) LocalStoreObject" where
  "objs io ss k = map_option sp_inner (map_of (ss_data ss) (show_key io k))"

definition value_ok :: "('s, 't, 'k, 'y) spec_io \<Rightarrow> ('s, 't, 'k) LocalStoreObject \<Rightarrow> bool" where
  "value_ok io v \<longleftrightarrow> item_id (ctx v) = show_key io (key v)"

lemma show_key_inj: "io_ok io \<Longrightarrow> show_key io k = show_key io k' \<longleftrightarrow> k = k'"
  by (metis io_ok_def option.inject)

lemma spec_file_name_inj [simp]: "spec_file_name a = spec_file_name b \<longleftrightarrow> a = b"
  by (simp add: spec_file_name_def)

lemma item_simps [simp]:
  "item_id (with_revision r i) = item_id i" "item_revision (with_revision r i) = r"
  "item_id (put_child k c i) = item_id i" "item_revision (put_child k c i) = item_revision i"
  "item_id (remove_child k c i) = item_id i" "item_revision (remove_child k c i) = item_revision i"
  "item_id (with_id s i) = s" "item_revision (with_id s i) = item_revision i"
  by (simp_all add: with_revision_def put_child_def remove_child_def with_id_def Let_def)

lemma bt_insert_set:
  "bt_wf m \<Longrightarrow> set (bt_insert k v m) = insert (k, v) {e \<in> set m. fst e \<noteq> k}"
  by (induction k v m rule: bt_insert.induct) (force simp: bt_wf_Cons)+

lemma bt_remove_set: "set (bt_remove k m) = {e \<in> set m. fst e \<noteq> k}"
  by (auto simp: bt_remove_def)

lemma files_of_others:
  "{e \<in> (\<lambda>(i, p). (spec_file_name i, g p)) ` A. fst e \<noteq> spec_file_name i}
     = (\<lambda>(i, p). (spec_file_name i, g p)) ` {e \<in> A. fst e \<noteq> i}"
  by force

text \<open>The outcome of \<open>apply\<close>: refused, or the object is stored with the next revision.\<close>

lemma ss_apply_cases:
  fixes io :: "('s, 't, 'k, 'y) spec_io" and ss :: "('s, 't, 'k, 'y) SpecStore"
  obtains (refused) prev where "map_of (ss_data ss) (item_id (ctx v)) = Some prev"
      "item_is_newer (ctx (sp_inner prev)) (ctx v)"
      "ss_apply io v ss = (Inl (stale_error (item_revision (ctx (sp_inner prev))) (item_revision (ctx v))), ss)"
  | (stored) v' where "v' = (case map_of (ss_data ss) (item_id (ctx v)) of None \<Rightarrow> v
        | Some prev \<Rightarrow> v\<lparr>ctx := with_revision (item_revision (ctx (sp_inner prev)) + 1) (ctx v)\<rparr>)"
      "\<And>prev. map_of (ss_data ss) (item_id (ctx v)) = Some prev \<Longrightarrow> \<not> item_is_newer (ctx (sp_inner prev)) (ctx v)"
      "ss_apply io v ss = (Inr (), send_update (SpecMod (pointer_new (spec_file_name (item_id (ctx v))) v'))
         (ss\<lparr>ss_data := bt_insert (item_id (ctx v)) (pointer_new (spec_file_name (item_id (ctx v))) v') (ss_data ss),
             ss_files := bt_insert (spec_file_name (item_id (ctx v)))
               (to_yaml io (storage_of io (pointer_new (spec_file_name (item_id (ctx v))) v'))) (ss_files ss)\<rparr>))"
proof (cases "map_of (ss_data ss) (item_id (ctx v))")
  case None
  then show ?thesis using stored [of v] by (simp add: ss_apply_def Let_def pointer_new_def)
next
  case (Some prev)
  show ?thesis
  proof (cases "item_is_newer (ctx (sp_inner prev)) (ctx v)")
    case True
    then show ?thesis using refused [OF Some] Some by (simp add: ss_apply_def)
  next
    case False
    then show ?thesis
      using stored [of "v\<lparr>ctx := with_revision (item_revision (ctx (sp_inner prev)) + 1) (ctx v)\<rparr>"] Some
      by (simp add: ss_apply_def Let_def pointer_new_def)
  qed
qed

lemma store_revision_set [simp]: "store_revision (set_store_revision r u) = r"
  by (cases u) (simp_all add: store_revision_def set_store_revision_def)

lemma into_ls_update_set [simp]: "into_ls_update (set_store_revision r u) = into_ls_update u"
  by (cases u) (simp_all add: into_ls_update_def set_store_revision_def)

lemma send_update_ok:
  assumes "bt_wf d" "\<forall>(i, p) \<in> set d. pointer_ok io i p" "bt_wf f"
    "set f = (\<lambda>(i, p). (spec_file_name i, to_yaml io (storage_of io p))) ` set d" "ss_ok io ss"
  shows "ss_ok io (send_update u (ss\<lparr>ss_data := d, ss_files := f\<rparr>))"
  using assms by (auto simp: ss_ok_def send_update_def)

lemma ss_apply_ok:
  assumes "ss_ok io ss" "value_ok io v"
  shows "ss_ok io (snd (ss_apply io v ss))"
proof (cases rule: ss_apply_cases [of ss v io])
  case (refused prev)
  then show ?thesis using assms by simp
next
  case (stored v')
  let ?i = "item_id (ctx v)" and ?p = "pointer_new (spec_file_name (item_id (ctx v))) v'"
  have "pointer_ok io ?i ?p"
    using stored(1) assms(2) by (auto simp: pointer_ok_def pointer_new_def value_ok_def split: option.splits)
  moreover have "set (bt_insert (spec_file_name ?i) (to_yaml io (storage_of io ?p)) (ss_files ss))
      = (\<lambda>(i, p). (spec_file_name i, to_yaml io (storage_of io p))) ` set (bt_insert ?i ?p (ss_data ss))"
    using assms(1) by (simp add: bt_insert_set ss_ok_def files_of_others)
  ultimately show ?thesis
    unfolding stored(3) snd_conv using assms(1)
    by (intro send_update_ok assms(1)) (auto simp: ss_ok_def bt_insert_set)
qed

lemma ss_delete_ok:
  assumes "ss_ok io ss"
  shows "ss_ok io (ss_delete_item metadata ss)"
proof (cases "map_of (ss_data ss) (item_id metadata)")
  case (Some p)
  then have "pointer_ok io (item_id metadata) p" using assms by (auto simp: ss_ok_def dest: map_of_SomeD)
  then have path: "sp_path p = spec_file_name (item_id metadata)" by (metis SpecPointer.select_convs(3) pointer_new_def pointer_ok_def)
  have "set (bt_remove (sp_path p) (ss_files ss))
      = (\<lambda>(i, p). (spec_file_name i, to_yaml io (storage_of io p))) ` set (bt_remove (item_id metadata) (ss_data ss))"
    using assms unfolding path by (simp add: bt_remove_set ss_ok_def files_of_others)
  moreover have "ss_delete_item metadata ss = send_update (SpecDelete p)
      (ss\<lparr>ss_data := bt_remove (item_id metadata) (ss_data ss), ss_files := bt_remove (sp_path p) (ss_files ss)\<rparr>)"
    using Some by (simp add: ss_delete_item_def)
  ultimately show ?thesis
    using assms by (simp only:) (intro send_update_ok assms; auto simp: ss_ok_def bt_remove_set)
qed (simp add: ss_delete_item_def assms)

section \<open>Histories of a store\<close>

datatype ('s, 't, 'k) store_op = StoreApply "('s, 't, 'k) LocalStoreObject" | StoreDelete LocalMetadataItem

fun run_op :: "('s, 't, 'k, 'y) spec_io \<Rightarrow> ('s, 't, 'k) store_op \<Rightarrow> ('s, 't, 'k, 'y) SpecStore \<Rightarrow> ('s, 't, 'k, 'y) SpecStore" where
  "run_op io (StoreApply v) ss = snd (ss_apply io v ss)"
| "run_op io (StoreDelete metadata) ss = ss_delete_item metadata ss"

fun op_ok :: "('s, 't, 'k, 'y) spec_io \<Rightarrow> ('s, 't, 'k) store_op \<Rightarrow> bool" where
  "op_ok io (StoreApply v) = value_ok io v"
| "op_ok io (StoreDelete metadata) = True"

definition no_files :: "('s, 't, 'k, 'y) SpecStore" where
  "no_files = \<lparr>ss_version = 0, ss_data = [], ss_channel = [], ss_files = []\<rparr>"

lemma no_files_ok: "ss_ok io no_files"
  by (simp add: no_files_def ss_ok_def)

lemma run_op_ok: "ss_ok io ss \<Longrightarrow> op_ok io u \<Longrightarrow> ss_ok io (run_op io u ss)"
  by (cases u) (simp_all add: ss_apply_ok ss_delete_ok)

lemma run_ops_ok: "ss_ok io ss \<Longrightarrow> list_all (op_ok io) us \<Longrightarrow> ss_ok io (fold (run_op io) us ss)"
  by (induction us arbitrary: ss) (auto simp: run_op_ok)

section \<open>Loading the directory\<close>

abbreviation file_entry :: "('s, 't, 'k, 'y) spec_io \<Rightarrow> string \<times> ('s, 't, 'k) SpecPointer \<Rightarrow> string \<times> 'y" where
  "file_entry io e \<equiv> (case e of (i, p) \<Rightarrow> (spec_file_name i, to_yaml io (storage_of io p)))"

lemma pointer_load_entry:
  assumes "io_ok io" "pointer_ok io i p"
  shows "pointer_load io (spec_file_name i) (to_yaml io (storage_of io p)) = Inr (i, p)"
proof -
  obtain s t k c where o: "sp_inner p = \<lparr>spec = s, status = t, key = k, ctx = c\<rparr>" by (cases "sp_inner p")
  then have "p = pointer_new (spec_file_name i) \<lparr>spec = s, status = t, key = k, ctx = c\<rparr>"
    using assms(2) by (metis pointer_ok_def)
  moreover have "parse_key io (show_key io k) = Some k" using assms(1) by (simp add: io_ok_def)
  moreover have "item_id c = i" using assms(2) o by (simp add: pointer_ok_def)
  ultimately show ?thesis
    using assms(1) by (simp add: pointer_load_def io_ok_def storage_of_def pointer_new_def)
qed

lemma load_data_entries:
  assumes "io_ok io" "\<forall>(i, p) \<in> set es. pointer_ok io i p"
  shows "load_data io (map (file_entry io) es) data = Inr (fold (\<lambda>(i, p). bt_insert i p) es data)"
  using assms(2) by (induction es arbitrary: data) (auto simp: pointer_load_entry [OF assms(1)])

lemma fold_bt_insert_map:
  assumes "bt_wf m"
  shows "bt_wf (fold (\<lambda>(k, v). bt_insert k v) es m) \<and> map_of (fold (\<lambda>(k, v). bt_insert k v) es m) = map_of m ++ map_of (rev es)"
  using assms by (induction es arbitrary: m) (auto simp: fun_eq_iff)

lemma spec_store_load_ok:
  assumes "io_ok io" "ss_ok io ss"
  shows "spec_store_load io (ss_files ss) = Inr \<lparr>ss_version = 0, ss_data = ss_data ss, ss_channel = [], ss_files = ss_files ss\<rparr>"
proof -
  let ?f = "file_entry io" and ?d = "ss_data ss"
  define es where "es = map (inv_into (set ?d) ?f) (ss_files ss)"
  have wf: "bt_wf ?d" and ok: "\<forall>(i, p) \<in> set ?d. pointer_ok io i p" and fs: "set (ss_files ss) = ?f ` set ?d"
    and fwf: "bt_wf (ss_files ss)"
    using assms(2) by (auto simp: ss_ok_def)
  have inj: "inj_on ?f (set ?d)"
    using eq_key_imp_eq_value [OF bt_wf_distinct [OF wf]] by (fastforce intro: inj_onI)
  have files: "map ?f es = ss_files ss"
    unfolding es_def map_map using fs by (intro map_idI) (simp add: f_inv_into_f)
  have set_es: "set es = set ?d"
    using inj unfolding es_def set_map fs by (simp add: image_image inv_into_f_f)
  have "distinct (map fst (map ?f es))" using bt_wf_distinct [OF fwf] files by simp
  then have dist: "distinct (map fst es)"
    by (auto simp: distinct_map inj_on_def case_prod_beta)
  have "map_of (rev es) = map_of ?d"
    using set_es dist bt_wf_distinct [OF wf] by (intro map_of_eqI) (auto simp: rev_map [symmetric] map_of_eq_Some_iff)
  then have "fold (\<lambda>(k, v). bt_insert k v) es [] = ?d"
    using fold_bt_insert_map [of "[]" es] wf by (intro bt_ext) auto
  then show ?thesis
    using load_data_entries [OF assms(1), of es "[]"] ok set_es files by (simp add: spec_store_load_def)
qed


text \<open>A format that keeps the object as it is.\<close>

definition plain_io :: "(nat, nat, string, (nat, nat) SpecStorageV1) spec_io" where
  "plain_io = \<lparr>show_key = id, parse_key = Some, to_yaml = id, from_yaml = Some, load_error = id\<rparr>"

definition plain_obj :: "string \<Rightarrow> nat \<Rightarrow> nat \<Rightarrow> (nat, nat, string) LocalStoreObject" where
  "plain_obj k s r = \<lparr>spec = s, status = 0, key = k, ctx = with_revision r (item_new k)\<rparr>"

lemma plain_io_ok: "io_ok plain_io"
  by (simp add: io_ok_def plain_io_def)

lemmas local_eval = plain_io_def plain_obj_def ss_apply_def ss_delete_item_def send_update_def no_files_def
  pointer_new_def item_new_def with_revision_def item_is_newer_def retrieve_items_def Let_def


section \<open>Following the storage\<close>

lemma objs_entry:
  assumes "io_ok io" "ss_ok io ss" "map_of (ss_data ss) i = Some p"
  shows "show_key io (key (sp_inner p)) = i" "objs io ss (key (sp_inner p)) = Some (sp_inner p)"
    "item_id (ctx (sp_inner p)) = i"
proof -
  have "pointer_ok io i p" using assms(2,3) by (auto simp: ss_ok_def dest: map_of_SomeD)
  then show "show_key io (key (sp_inner p)) = i" "objs io ss (key (sp_inner p)) = Some (sp_inner p)"
    "item_id (ctx (sp_inner p)) = i"
    using assms(3) by (auto simp: pointer_ok_def objs_def)
qed

lemma ss_delete_objs:
  assumes "io_ok io" "ss_ok io ss" "map_of (ss_data ss) (item_id metadata) = Some p"
  shows "objs io (ss_delete_item metadata ss) = (objs io ss)(key (sp_inner p) := None)"
proof -
  have "show_key io k = item_id metadata \<longleftrightarrow> k = key (sp_inner p)" for k
    using objs_entry(1) [OF assms] show_key_inj [OF assms(1)] by metis
  then show ?thesis
    using assms(3) by (auto simp: objs_def ss_delete_item_def send_update_def fun_eq_iff)
qed

lemma ss_apply_objs:
  assumes "io_ok io" "ss_ok io ss" "value_ok io v"
    "ss_apply io v ss = (Inr (), send_update (SpecMod (pointer_new f v'))
         (ss\<lparr>ss_data := bt_insert (item_id (ctx v)) (pointer_new f v') (ss_data ss), ss_files := fs\<rparr>))"
  shows "objs io (snd (ss_apply io v ss)) = (objs io ss)(key v \<mapsto> v')"
proof -
  have "show_key io k = item_id (ctx v) \<longleftrightarrow> k = key v" for k
    using assms(3) show_key_inj [OF assms(1)] by (simp add: value_ok_def)
  moreover have "bt_wf (ss_data ss)" using assms(2) by (simp add: ss_ok_def)
  ultimately show ?thesis
    unfolding assms(4) by (auto simp: objs_def send_update_def fun_eq_iff pointer_new_def)
qed

text \<open>One operation adds at most one update, which has the same effect on a copy of the objects.\<close>

lemma run_op_updates:
  assumes "io_ok io" "ss_ok io ss" "op_ok io u"
  obtains us where "ss_channel (run_op io u ss) = ss_channel ss @ us"
    "\<forall>x \<in> set us. ss_version ss \<le> store_revision x" "ss_version ss \<le> ss_version (run_op io u ss)"
    "fold (abs_apply item_is_newer) (map into_ls_update us) (objs io ss) = objs io (run_op io u ss)"
proof (cases u)
  case (StoreApply v)
  show ?thesis
  proof (cases rule: ss_apply_cases [of ss v io])
    case (refused prev)
    then show ?thesis using that [of "[]"] StoreApply by simp
  next
    case (stored v')
    let ?p = "pointer_new (spec_file_name (item_id (ctx v))) v'"
    have vk: "key v' = key v" using stored(1) by (simp split: option.splits)
    have o: "objs io (snd (ss_apply io v ss)) = (objs io ss)(key v \<mapsto> v')"
      using ss_apply_objs [OF assms(1,2) _ stored(3)] assms(3) StoreApply by simp
    have "\<not> item_is_newer (ctx old) (ctx v')" if "objs io ss (key v) = Some old" for old
      using that stored(1) assms(3) StoreApply by (auto simp: objs_def value_ok_def item_is_newer_def)
    then have "abs_apply item_is_newer (into_ls_update (SpecMod ?p)) (objs io ss) = (objs io ss)(key v \<mapsto> v')"
      using vk by (auto simp: abs_apply_def abs_mod_def into_ls_update_def pointer_new_def split: option.splits)
    then show ?thesis
      using that [of "[set_store_revision (ss_version ss) (SpecMod ?p)]"] StoreApply stored(3) o
      by (simp add: send_update_def)
  qed
next
  case (StoreDelete metadata)
  show ?thesis
  proof (cases "map_of (ss_data ss) (item_id metadata)")
    case None
    then show ?thesis using that [of "[]"] StoreDelete by (simp add: ss_delete_item_def)
  next
    case (Some p)
    have "abs_apply item_is_newer (into_ls_update (SpecDelete p)) (objs io ss) = (objs io ss)(key (sp_inner p) := None)"
      by (simp add: abs_apply_def into_ls_update_def)
    then show ?thesis
      using that [of "[set_store_revision (ss_version ss) (SpecDelete p)]"] StoreDelete Some
        ss_delete_objs [OF assms(1,2) Some]
      by (simp add: ss_delete_item_def send_update_def)
  qed
qed

lemma run_ops_updates:
  assumes "io_ok io" "ss_ok io ss" "list_all (op_ok io) ops"
  obtains us where "ss_channel (fold (run_op io) ops ss) = ss_channel ss @ us"
    "\<forall>x \<in> set us. ss_version ss \<le> store_revision x"
    "fold (abs_apply item_is_newer) (map into_ls_update us) (objs io ss) = objs io (fold (run_op io) ops ss)"
  using assms(2,3)
proof (induction ops arbitrary: ss thesis)
  case Nil
  then show ?case by (intro Nil(1) [of "[]"]) auto
next
  case (Cons u ops)
  then have u: "op_ok io u" "list_all (op_ok io) ops" by auto
  obtain us1 where us1: "ss_channel (run_op io u ss) = ss_channel ss @ us1"
    "\<forall>x \<in> set us1. ss_version ss \<le> store_revision x" "ss_version ss \<le> ss_version (run_op io u ss)"
    "fold (abs_apply item_is_newer) (map into_ls_update us1) (objs io ss) = objs io (run_op io u ss)"
    by (rule run_op_updates [OF assms(1) Cons.prems(2) u(1)])
  obtain us2 where us2: "ss_channel (fold (run_op io) ops (run_op io u ss)) = ss_channel (run_op io u ss) @ us2"
    "\<forall>x \<in> set us2. ss_version (run_op io u ss) \<le> store_revision x"
    "fold (abs_apply item_is_newer) (map into_ls_update us2) (objs io (run_op io u ss))
      = objs io (fold (run_op io) ops (run_op io u ss))"
    by (rule Cons.IH [OF _ run_op_ok [OF Cons.prems(2) u(1)] u(2)])
  show ?case
    using us1 us2 by (intro Cons.prems(1) [of "us1 @ us2"]) (auto intro: order_trans)
qed

lemma items_objs:
  assumes "io_ok io" "ss_ok io ss"
  shows "distinct (map key (snd (retrieve_items ss)))"
    "map_of (map (\<lambda>obj. (key obj, obj)) (snd (retrieve_items ss))) = objs io ss"
proof -
  let ?d = "ss_data ss"
  have wf: "distinct (map fst ?d)" and ok: "\<forall>(i, p) \<in> set ?d. pointer_ok io i p"
    using assms(2) by (auto simp: ss_ok_def)
  have "map fst ?d = map (show_key io) (map key (snd (retrieve_items ss)))"
    using ok by (auto simp: retrieve_items_def pointer_ok_def)
  then have "distinct (map (show_key io) (map key (snd (retrieve_items ss))))" using wf by (simp only:)
  then show d: "distinct (map key (snd (retrieve_items ss)))" by (rule distinct_map [THEN iffD1, THEN conjunct1])
  show "map_of (map (\<lambda>obj. (key obj, obj)) (snd (retrieve_items ss))) = objs io ss"
  proof
    fix k
    show "map_of (map (\<lambda>obj. (key obj, obj)) (snd (retrieve_items ss))) k = objs io ss k"
    proof (cases "map_of ?d (show_key io k)")
      case None
      have "key obj \<noteq> k" if "obj \<in> set (snd (retrieve_items ss))" for obj
        using that ok None by (force simp: retrieve_items_def pointer_ok_def map_of_eq_None_iff)
      then have "map_of (map (\<lambda>obj. (key obj, obj)) (snd (retrieve_items ss))) k = None"
        by (auto simp: map_of_eq_None_iff) blast
      then show ?thesis using None by (simp add: objs_def)
    next
      case (Some p)
      then have "key (sp_inner p) = k"
        using objs_entry(1) [OF assms Some] show_key_inj [OF assms(1)] by blast
      moreover have "sp_inner p \<in> set (snd (retrieve_items ss))"
        using map_of_SomeD [OF Some] by (force simp: retrieve_items_def)
      ultimately show ?thesis
        using Some d by (auto simp: objs_def comp_def intro!: map_of_is_SomeI)
    qed
  qed
qed

lemma receive_all_contents:
  assumes "dm_wf key m"
  shows "contents (fold (\<lambda>u m. snd (apply_changes item_is_newer [u] m)) us m) = fold (abs_apply item_is_newer) us (contents m)"
    "dm_wf key (fold (\<lambda>u m. snd (apply_changes item_is_newer [u] m)) us m)"
proof -
  have "contents (fold (\<lambda>u m. snd (apply_changes item_is_newer [u] m)) us m) = fold (abs_apply item_is_newer) us (contents m)
    \<and> dm_wf key (fold (\<lambda>u m. snd (apply_changes item_is_newer [u] m)) us m)"
    using assms
  proof (induction us arbitrary: m)
    case (Cons u us)
    then show ?case
      using apply_changes_contents [OF Cons.prems, of item_is_newer "[u]"]
        apply_changes_in_sync [OF Cons.prems in_sync_self [OF Cons.prems], of item_is_newer "[u]"] by simp
  qed simp
  then show "contents (fold (\<lambda>u m. snd (apply_changes item_is_newer [u] m)) us m) = fold (abs_apply item_is_newer) us (contents m)"
    "dm_wf key (fold (\<lambda>u m. snd (apply_changes item_is_newer [u] m)) us m)" by auto
qed

lemma watch_updates:
  assumes "io_ok io" "ss_ok io ss" "list_all (op_ok io) ops"
  obtains us where "fst (watch_stream_since (Some (ss_version ss)) (fold (run_op io) ops ss)) = us"
    "fold (abs_apply item_is_newer) us (objs io ss) = objs io (fold (run_op io) ops ss)"
proof -
  obtain us where us: "ss_channel (fold (run_op io) ops ss) = ss_channel ss @ us"
    "\<forall>x \<in> set us. ss_version ss \<le> store_revision x"
    "fold (abs_apply item_is_newer) (map into_ls_update us) (objs io ss) = objs io (fold (run_op io) ops ss)"
    by (rule run_ops_updates [OF assms])
  have "filter (\<lambda>u. ss_version ss \<le> store_revision u) (ss_channel ss) = []"
    using assms(2) by (auto simp: ss_ok_def filter_empty_conv not_le)
  then have "fst (watch_stream_since (Some (ss_version ss)) (fold (run_op io) ops ss)) = map into_ls_update us"
    using us(1,2) by (simp add: watch_stream_since_def filter_id_conv)
  then show ?thesis using that us(3) by blast
qed

lemma retrieve_all_contents:
  assumes "io_ok io" "ss_ok io ss" "dm_wf key m"
    "\<forall>k old new. contents m k = Some old \<longrightarrow> objs io ss k = Some new \<longrightarrow> \<not> item_is_newer (ctx old) (ctx new)"
  shows "contents (snd (retrieve_all_items ss m)) = objs io ss" "dm_wf key (snd (retrieve_all_items ss m))"
proof -
  let ?os = "snd (retrieve_items ss)"
  have "\<forall>obj \<in> set ?os. \<forall>old. contents m (key obj) = Some old \<longrightarrow> \<not> item_is_newer (ctx old) (ctx obj)"
  proof (intro ballI allI impI)
    fix obj old
    assume o: "obj \<in> set ?os" and "contents m (key obj) = Some old"
    moreover have "objs io ss (key obj) = Some obj"
      unfolding items_objs(2) [OF assms(1,2), symmetric]
      using o items_objs(1) [OF assms(1,2)] by (intro map_of_is_SomeI) (auto simp: comp_def)
    ultimately show "\<not> item_is_newer (ctx old) (ctx obj)" using assms(4) by blast
  qed
  then show "contents (snd (retrieve_all_items ss m)) = objs io ss"
    using sync_all_contents [OF assms(3), of item_is_newer ?os] fold_abs_mod_fresh [OF items_objs(1) [OF assms(1,2)]]
      items_objs(2) [OF assms(1,2)]
    by (simp add: retrieve_all_items_def case_prod_beta)
  show "dm_wf key (snd (retrieve_all_items ss m))"
    using sync_all_in_sync [OF assms(3) in_sync_self [OF assms(3)], of item_is_newer ?os]
    by (simp add: retrieve_all_items_def case_prod_beta)
qed

text \<open>
  C9. A controller that takes over the full list and then the updates of the watch
  stream has the objects of the storage: for every sequence of updates and
  deletions after the list was read, applying the updates since its version makes
  the contents of the local store equal to what the storage holds then, provided no
  object it had before is newer than the one in the list.
\<close>

theorem local_store_follows_storage:
  assumes "io_ok io" "ss_ok io ss" "list_all (op_ok io) ops" "dm_wf key m"
    and "\<forall>k old new. contents m k = Some old \<longrightarrow> objs io ss k = Some new \<longrightarrow> \<not> item_is_newer (ctx old) (ctx new)"
    and "retrieve_all_items ss m = (version, m1)"
  shows "contents (fst (receive_updates version (fold (run_op io) ops ss) m1)) = objs io (fold (run_op io) ops ss)"
proof -
  have v: "version = ss_version ss" using assms(6) by (simp add: retrieve_all_items_def retrieve_items_def)
  have m1: "contents m1 = objs io ss" "dm_wf key m1"
    using retrieve_all_contents [OF assms(1,2,4,5)] assms(6) by auto
  obtain us where us: "fst (watch_stream_since (Some version) (fold (run_op io) ops ss)) = us"
    "fold (abs_apply item_is_newer) us (objs io ss) = objs io (fold (run_op io) ops ss)"
    unfolding v by (rule watch_updates [OF assms(1-3)])
  then show ?thesis
    using receive_all_contents(1) [OF m1(2), of us] m1(1) by (simp add: receive_updates_def case_prod_beta)
qed

definition no_objects :: "(nat, nat, string, LocalMetadataItem) object_map" where
  "no_objects = new_with_map []"

lemma no_objects_simps [simp]: "dm_wf key no_objects" "contents no_objects = Map.empty"
  by (auto simp: no_objects_def dm_wf_def new_with_map_def contents_def)

abbreviation plain_files :: "(nat, nat, string, (nat, nat) SpecStorageV1) SpecStore" where
  "plain_files \<equiv> no_files"

theorem local_store_follows_storage_witness:
  "contents (fst (receive_updates 0 (fold (run_op plain_io)
      [StoreApply (plain_obj ''a'' 1 0), StoreApply (plain_obj ''b'' 2 0), StoreDelete (item_new ''a'')] plain_files)
      (snd (retrieve_all_items plain_files no_objects)))) ''a'' = None"
proof -
  let ?ops = "[StoreApply (plain_obj ''a'' 1 0), StoreApply (plain_obj ''b'' 2 0), StoreDelete (item_new ''a'')]"
  have r: "retrieve_all_items no_files no_objects = (0, snd (retrieve_all_items no_files no_objects))"
    by (simp add: retrieve_all_items_def retrieve_items_def no_files_def)
  have l: "list_all (op_ok plain_io) ?ops"
    by (simp add: value_ok_def plain_io_def plain_obj_def item_new_def)
  have "objs plain_io (fold (run_op plain_io) ?ops plain_files) ''a'' = None"
    by (simp add: local_eval objs_def bt_remove_def)
  moreover have "contents (fst (receive_updates 0 (fold (run_op plain_io) ?ops plain_files)
      (snd (retrieve_all_items plain_files no_objects)))) = objs plain_io (fold (run_op plain_io) ?ops plain_files)"
    by (rule local_store_follows_storage [OF plain_io_ok no_files_ok l _ _ r]) simp_all
  ultimately show ?thesis by (simp only:)
qed

text \<open>
  When the controller has a copy of an object whose revision is higher than that
  of the object in the storage, it keeps the copy: the full list does not replace
  it, and the updates before the list are dropped. That is the case for an object
  that is deleted and created again while its updates still wait in the channel,
  since revisions start at 0 again.
\<close>

theorem recreated_object_stays_stale:
  assumes "io_ok io" "ss_ok io ss" "dm_wf key m" "contents m k = Some old" "objs io ss k = Some new"
    "item_is_newer (ctx old) (ctx new)"
    and "retrieve_all_items ss m = (version, m1)"
  shows "contents (fst (receive_updates version ss m1)) k = Some old"
proof -
  let ?os = "snd (retrieve_items ss)"
  have v: "version = ss_version ss" using assms(7) by (simp add: retrieve_all_items_def retrieve_items_def)
  have only: "obj = new" if "obj \<in> set ?os" "key obj = k" for obj
  proof -
    have "map_of (map (\<lambda>obj. (key obj, obj)) ?os) (key obj) = Some obj"
      using that items_objs(1) [OF assms(1,2)] by (intro map_of_is_SomeI) (auto simp: comp_def)
    then show ?thesis using items_objs(2) [OF assms(1,2)] assms(5) that by simp
  qed
  have kept: "fold (abs_mod item_is_newer) xs c k = Some old"
    if "set xs \<subseteq> set ?os" "c k = Some old" for xs and c :: "_ \<rightharpoonup> _"
    using that
  proof (induction xs arbitrary: c)
    case (Cons x xs)
    have "abs_mod item_is_newer x c k = Some old"
      using only [of x] Cons.prems assms(6) by (auto simp: abs_mod_def split: option.splits)
    then show ?case using Cons by simp
  qed simp
  have "objs io ss k \<noteq> None" using assms(5) by simp
  then have "k \<in> key ` set ?os"
    unfolding items_objs(2) [OF assms(1,2), symmetric] by (auto simp: map_of_eq_None_iff image_image)
  then have "contents m1 k = Some old"
    using sync_all_contents [OF assms(3), of item_is_newer ?os] kept [of ?os "contents m"] assms(4,7)
    by (auto simp: retrieve_all_items_def case_prod_beta)
  moreover have "filter (\<lambda>u. ss_version ss \<le> store_revision u) (ss_channel ss) = []"
    using assms(2) by (auto simp: ss_ok_def filter_empty_conv not_le)
  ultimately show ?thesis by (simp add: receive_updates_def watch_stream_since_def v)
qed

text \<open>The object reaches revision 1 and the controller reads it; then it is deleted and created anew.\<close>

definition stale_before :: "(nat, nat, string, (nat, nat) SpecStorageV1) SpecStore" where
  "stale_before = fold (run_op plain_io) [StoreApply (plain_obj ''a'' 1 0), StoreApply (plain_obj ''a'' 2 0)] plain_files"

definition stale_after :: "(nat, nat, string, (nat, nat) SpecStorageV1) SpecStore" where
  "stale_after = fold (run_op plain_io) [StoreDelete (item_new ''a''), StoreApply (plain_obj ''a'' 3 0)] stale_before"

theorem recreated_object_stays_stale_witness:
  "map_option spec (contents (fst (receive_updates 4 stale_after
      (snd (retrieve_all_items stale_after (snd (retrieve_all_items stale_before no_objects)))))) ''a'') = Some 2
   \<and> map_option spec (objs plain_io stale_after ''a'') = Some 3"
proof -
  let ?m = "snd (retrieve_all_items stale_before no_objects)"
  have ok: "ss_ok plain_io stale_before" "ss_ok plain_io stale_after"
    unfolding stale_after_def stale_before_def
    by (intro run_ops_ok no_files_ok; simp add: value_ok_def plain_io_def plain_obj_def item_new_def)+
  have m: "contents ?m = objs plain_io stale_before" "dm_wf key ?m"
    using retrieve_all_contents [OF plain_io_ok ok(1), of no_objects] by simp_all
  have old: "objs plain_io stale_before ''a'' = Some (plain_obj ''a'' 2 1)"
    by (simp add: stale_before_def local_eval objs_def)
  have new: "objs plain_io stale_after ''a'' = Some (plain_obj ''a'' 3 0)"
    by (simp add: stale_after_def stale_before_def local_eval objs_def bt_remove_def)
  have r: "retrieve_all_items stale_after ?m = (4, snd (retrieve_all_items stale_after ?m))"
    by (simp add: retrieve_all_items_def stale_after_def stale_before_def local_eval bt_remove_def case_prod_beta)
  have "contents (fst (receive_updates 4 stale_after (snd (retrieve_all_items stale_after ?m)))) ''a''
      = Some (plain_obj ''a'' 2 1)"
    by (rule recreated_object_stays_stale [OF plain_io_ok ok(2) m(2) _ new _ r])
      (simp_all add: m(1) old plain_obj_def item_is_newer_def)
  then show ?thesis using new by (simp add: plain_obj_def)
qed

section \<open>Concurrent writers\<close>

text \<open>
  Of two updates of an object that start from the same revision only the first
  is stored: the second is refused as stale and changes nothing.
\<close>

theorem second_writer_refused:
  assumes "bt_wf (ss_data ss)" "map_of (ss_data ss) (item_id (ctx v)) = Some prev"
    "item_id (ctx w) = item_id (ctx v)" "item_revision (ctx w) \<le> item_revision (ctx (sp_inner prev))"
    "ss_apply io v ss = (Inr (), ss')"
  shows "ss_apply io w ss' = (Inl (stale_error (item_revision (ctx (sp_inner prev)) + 1) (item_revision (ctx w))), ss')"
proof (cases rule: ss_apply_cases [of ss v io])
  case (refused p)
  then show ?thesis using assms(5) by simp
next
  case (stored v')
  have "map_of (ss_data ss') (item_id (ctx v)) = Some (pointer_new (spec_file_name (item_id (ctx v))) v')"
    using stored(3) assms(1,5) by (auto simp: send_update_def)
  then show ?thesis
    using stored(1) assms(2-4) by (simp add: ss_apply_def item_is_newer_def pointer_new_def)
qed

theorem second_writer_refused_witness:
  "fst (ss_apply plain_io (plain_obj ''a'' 3 0) (snd (ss_apply plain_io (plain_obj ''a'' 2 0)
     (snd (ss_apply plain_io (plain_obj ''a'' 1 0) plain_files))))) = Inl (stale_error 1 0)"
proof -
  let ?s = "snd (ss_apply plain_io (plain_obj ''a'' 1 0) plain_files)"
  have "ss_apply plain_io (plain_obj ''a'' 2 0) ?s = (Inr (), snd (ss_apply plain_io (plain_obj ''a'' 2 0) ?s))"
    by (simp add: local_eval)
  from second_writer_refused [OF _ _ _ _ this, of "pointer_new (spec_file_name ''a'') (plain_obj ''a'' 1 0)" "plain_obj ''a'' 3 0"]
  show ?thesis by (simp add: local_eval bt_wf_def)
qed

section \<open>Status updates of the controller\<close>

lemma bt_insert_same: "bt_wf m \<Longrightarrow> map_of m k = Some v \<Longrightarrow> bt_insert k v m = m"
  by (intro bt_ext) (auto simp: fun_eq_iff)

text \<open>
  \<open>process_ws_action\<close> on a status update of an object of which the controller has
  a copy that is not newer than the object in the storage: when both have the same
  revision, both get the new status and the next revision and are equal; when the
  copy is older, the update is dropped and nothing changes, and the retry for
  messages that contain 409 does not help either.
\<close>

theorem status_update_current_or_dropped:
  assumes "io_ok io" "dm_wf key m" "contents m k = Some obj" "item_id (ctx obj) = show_key io k"
    and "bt_wf (lm_stores lms)" "map_of (lm_stores lms) label = Some ss" "ss_ok io ss" "objs io ss k = Some srv"
    and "item_revision (ctx obj) \<le> item_revision (ctx srv)"
    and "process_ws_action io default_status label owner_label (UpdateStatus k st) (m, lms) = (m', lms')"
  shows "if item_is_newer (ctx srv) (ctx obj) then m' = m \<and> lms' = lms
    else \<exists>ss' o'. map_of (lm_stores lms') label = Some ss' \<and> objs io ss' k = Some o' \<and> contents m' k = Some o'
      \<and> status o' = st \<and> spec o' = spec srv \<and> item_revision (ctx o') = item_revision (ctx srv) + 1"
proof -
  obtain p where p: "map_of (ss_data ss) (show_key io k) = Some p" "srv = sp_inner p"
    using assms(8) by (auto simp: objs_def)
  let ?v = "srv\<lparr>ctx := ctx obj, status := st\<rparr>"
  have r: "retrieve_item (ctx obj) ss = Inr srv"
    using p assms(4) by (simp add: retrieve_item_def try_retrieve_item_def)
  have kk: "key srv = k" using objs_entry(1) [OF assms(1,7) p(1)] p(2) show_key_inj [OF assms(1)] by simp
  show ?thesis
  proof (cases rule: ss_apply_cases [of ss ?v io])
    case (refused q)
    then have "item_is_newer (ctx srv) (ctx obj)" using p assms(4) by simp
    moreover have "lm_update_status io label (ctx obj) st lms =
        (Inl (stale_error (item_revision (ctx srv)) (item_revision (ctx obj))), lms)"
      using r refused p assms(4) bt_insert_same [OF assms(5,6)]
      by (simp add: lm_update_status_def with_store_def get_store_def assms(6) put_store_def)
    ultimately show ?thesis
      using assms(10,3) by (auto simp: process_ws_action_def split: if_splits)
  next
    case (stored v')
    let ?ss = "snd (ss_apply io ?v ss)"
    have nn: "\<not> item_is_newer (ctx srv) (ctx obj)" using stored(2) [of p] p assms(4) by simp
    have v': "v' = ?v\<lparr>ctx := with_revision (item_revision (ctx srv) + 1) (ctx obj)\<rparr>"
      using stored(1) p assms(4) by simp
    have "value_ok io ?v" using assms(4) kk by (simp add: value_ok_def)
    from ss_apply_objs [OF assms(1,7) this stored(3)] have o: "objs io ?ss k = Some v'" using kk by simp
    have "retrieve_item (ctx obj) ?ss = Inr v'"
      using o assms(4) by (auto simp: retrieve_item_def try_retrieve_item_def objs_def)
    then have u: "lm_update_status io label (ctx obj) st lms = (Inr v', put_store label ?ss lms)"
      using r stored(3) by (simp add: lm_update_status_def with_store_def get_store_def assms(6) case_prod_beta)
    then have "m' = snd (apply_changes item_is_newer [Mod v'] m)" "lms' = put_store label ?ss lms"
      using assms(10,3) by (auto simp: process_ws_action_def)
    moreover have "\<not> item_is_newer (ctx obj) (ctx v')" using v' assms(9) by (simp add: item_is_newer_def)
    ultimately show ?thesis
      using apply_changes_contents [OF assms(2), of item_is_newer "[Mod v']"] assms(3,5) kk o v' nn
      by (auto simp: abs_apply_def abs_mod_def put_store_def)
  qed
qed

definition loaded_before :: "(nat, nat, string, (nat, nat) SpecStorageV1) LocalMetadataStorage" where
  "loaded_before = \<lparr>lm_stores = [(''topic'', stale_before)], lm_disk = (\<lambda>_. [])\<rparr>"

theorem status_update_current_or_dropped_witness:
  "map_option status (contents (fst (process_ws_action plain_io 0 ''topic'' ''topic'' (UpdateStatus ''a'' 7)
     (snd (retrieve_all_items stale_before no_objects), loaded_before))) ''a'') = Some 7"
proof -
  let ?m = "snd (retrieve_all_items stale_before no_objects)" and ?o = "plain_obj ''a'' 2 1"
  let ?r = "process_ws_action plain_io 0 ''topic'' ''topic'' (UpdateStatus ''a'' 7) (?m, loaded_before)"
  have ok: "ss_ok plain_io stale_before"
    unfolding stale_before_def
    by (intro run_ops_ok no_files_ok) (simp add: value_ok_def plain_io_def plain_obj_def item_new_def)
  have m: "contents ?m = objs plain_io stale_before" "dm_wf key ?m"
    using retrieve_all_contents [OF plain_io_ok ok, of no_objects] by simp_all
  have o: "objs plain_io stale_before ''a'' = Some ?o"
    by (simp add: stale_before_def local_eval objs_def)
  then have mo: "contents ?m ''a'' = Some ?o" using m(1) by simp
  have "if item_is_newer (ctx ?o) (ctx ?o) then fst ?r = ?m \<and> snd ?r = loaded_before
    else \<exists>ss' o'. map_of (lm_stores (snd ?r)) ''topic'' = Some ss' \<and> objs plain_io ss' ''a'' = Some o'
      \<and> contents (fst ?r) ''a'' = Some o' \<and> status o' = 7 \<and> spec o' = spec ?o
      \<and> item_revision (ctx o') = item_revision (ctx ?o) + 1"
    by (rule status_update_current_or_dropped [OF plain_io_ok m(2) mo _ _ _ ok o _ prod.collapse [symmetric]])
      (simp_all add: loaded_before_def plain_obj_def plain_io_def item_new_def bt_wf_def)
  then show ?thesis by (auto simp: item_is_newer_def)
qed

section \<open>Owners and their children\<close>

text \<open>
  A child whose status was updated stays in the list of its owner when it is
  deleted: the owner recorded it with its first revision, and unlinking removes
  only items that are equal in every field.
\<close>

theorem deleted_child_stays_linked:
  fixes storage :: "(nat, nat, string, (nat, nat) SpecStorageV1) LocalMetadataStorage"
  defines "storage \<equiv> \<lparr>lm_stores = [], lm_disk = (\<lambda>_. [])\<rparr>"
  defines "s1 \<equiv> snd (lm_apply plain_io ''topic'' ''topic'' (plain_obj ''t'' 1 0) storage)"
  defines "s2 \<equiv> snd (lm_apply plain_io ''partition'' ''topic''
                      ((plain_obj ''t-0'' 1 0)\<lparr>ctx := create_child (item_new ''t'')\<rparr>) s1)"
  defines "child \<equiv> set_owner (item_new ''t'') (item_new ''t-0'')"
  defines "s3 \<equiv> snd (lm_update_status plain_io ''partition'' child 1 s2)"
  defines "gone \<equiv> lm_delete_item plain_io ''partition'' ''topic'' child s3"
  shows "fst gone = Inr ()
    \<and> map_option (\<lambda>ss. objs plain_io ss ''t-0'') (map_of (lm_stores (snd gone)) ''partition'') = Some None
    \<and> map_option (\<lambda>ss. map_option (item_children \<circ> ctx) (objs plain_io ss ''t'')) (map_of (lm_stores (snd gone)) ''topic'')
      = Some (Some (Some [(''partition'', [item_new ''t-0''])]))"
  unfolding gone_def s3_def child_def s2_def s1_def storage_def
  by (simp add: local_eval objs_def bt_remove_def lm_apply_def lm_update_status_def lm_delete_item_def with_store_def
      get_store_def put_store_def spec_store_load_def link_parent_def unlink_parent_def retrieve_item_def
      try_retrieve_item_def with_id_def create_child_def set_owner_def default_item_def put_child_def
      remove_child_def without_parent_def)

end
