(* ===== verification/Topic_Controller.thy ===== *)
theory Topic_Controller
  imports Partition_Scheduler Local_Metadata
begin

text \<open>
  The topic controller of the streaming controller: the state machine of a topic
  (\<open>fluvio-sc/src/controllers/topics/policy.rs\<close>), the reducer that turns it into
  actions (\<open>reducer.rs\<close>) and the creation of partitions from a replica map
  (\<open>fluvio-sc/src/stores/topic.rs\<close>).

  The metadata context of the objects is a parameter with three operations:
  whether the object is being deleted, the context of a child, and whether a
  context is owned by another. The wait for the partition store to be loaded is
  not modelled.
\<close>

section \<open>Contexts\<close>

record 'c item_ops =
  it_deleted :: "'c \<Rightarrow> bool"
  it_child :: "'c \<Rightarrow> 'c"
  it_owned :: "'c \<Rightarrow> 'c \<Rightarrow> bool"

definition local_item_ops :: "LocalMetadataItem item_ops" where
  "local_item_ops =
     \<lparr>it_deleted = (\<lambda>_. False), it_child = create_child,
      it_owned = (\<lambda>c owner. case item_parent c of None \<Rightarrow> False | Some p \<Rightarrow> item_id p = item_id owner)\<rparr>"

definition default_replica_status :: ReplicaStatus where
  "default_replica_status = \<lparr>rst_spu = -1, rst_hw = -1, rst_leo = -1\<rparr>"

definition default_partition_status :: PartitionStatus where
  "default_partition_status =
     \<lparr>pst_resolution = Offline, pst_leader = default_replica_status, pst_lsr = 0, pst_replicas = [],
      pst_size = - 2, pst_is_being_deleted = False, pst_base_offset = 0\<rparr>"

definition childrens :: "'c item_ops \<Rightarrow> 'c TopicMetadata \<Rightarrow> 'c PartitionStore \<Rightarrow> 'c PartitionMetadata list" where
  "childrens ops topic partitions = filter (\<lambda>p. it_owned ops (ctx p) (ctx topic)) partitions"

section \<open>Creating partitions\<close>

definition replica_key :: "string \<Rightarrow> u32 \<Rightarrow> ReplicaKey" where
  "replica_key topic p = \<lparr>rk_topic = topic, rk_partition = p\<rparr>"

definition new_partition :: "'c item_ops \<Rightarrow> 'c TopicMetadata \<Rightarrow> u32 \<Rightarrow> SpuId list \<Rightarrow> 'c PartitionMetadata" where
  "new_partition ops topic idx replicas =
     \<lparr>spec = from_replicas replicas (spec topic) (map_of (tst_mirror_map (status topic)) idx),
      status = default_partition_status, key = replica_key (key topic) idx, ctx = it_child ops (ctx topic)\<rparr>"

definition create_new_partitions :: "'c item_ops \<Rightarrow> 'c TopicMetadata \<Rightarrow> 'c PartitionStore \<Rightarrow> 'c PartitionMetadata list" where
  "create_new_partitions ops topic partitions =
     map (\<lambda>(idx, replicas). new_partition ops topic idx replicas)
       (filter (\<lambda>(idx, _). replica_key (key topic) idx \<notin> key ` set partitions) (tst_replica_map (status topic)))"

section \<open>The state machine of a topic\<close>

record 'c TopicNextState =
  tn_resolution :: TopicResolution
  tn_reason :: string
  tn_replica_map :: ReplicaMap
  tn_partitions :: "'c PartitionMetadata list"
  tn_mirror_map :: MirrorMap

definition default_next_state :: "'c TopicNextState" where
  "default_next_state =
     \<lparr>tn_resolution = Init, tn_reason = '''', tn_replica_map = [], tn_partitions = [], tn_mirror_map = []\<rparr>"

definition next_state_of :: "TopicResolution \<times> string \<Rightarrow> 'c TopicNextState" where
  "next_state_of r = default_next_state\<lparr>tn_resolution := fst r, tn_reason := snd r\<rparr>"

definition validate_assigned_topic_parameters :: "PartitionMaps \<Rightarrow> 'c TopicNextState" where
  "validate_assigned_topic_parameters maps =
     (case maps_validate maps of
        Inl err \<Rightarrow> next_state_of (next_resolution_invalid_config err)
      | Inr _ \<Rightarrow> next_state_of next_resolution_pending)"

definition validate_computed_topic_parameters :: "TopicReplicaParam \<Rightarrow> 'c TopicNextState" where
  "validate_computed_topic_parameters param =
     (case valid_partition (trp_partitions param) of
        Inl err \<Rightarrow> next_state_of (next_resolution_invalid_config err)
      | Inr _ \<Rightarrow>
          (case valid_replication_factor (trp_replication_factor param) of
             Inl err \<Rightarrow> next_state_of (next_resolution_invalid_config err)
           | Inr _ \<Rightarrow> next_state_of next_resolution_pending))"

text \<open>\<open>MirrorConfig::validate\<close> accepts everything.\<close>

definition validate_mirror_topic_parameter :: "MirrorConfig \<Rightarrow> 'c TopicNextState" where
  "validate_mirror_topic_parameter mirror = next_state_of next_resolution_pending"

definition update_replica_map_for_assigned_topic :: "PartitionMaps \<Rightarrow> 'c SpuStore \<Rightarrow> 'c TopicNextState" where
  "update_replica_map_for_assigned_topic maps spus =
     (case find (\<lambda>spu. spu \<notin> set (spu_ids spus)) (unique_spus_in_partition_map maps) of
        Some spu \<Rightarrow> next_state_of (next_resolution_invalid_config (''invalid spu id: '' @ int_string spu))
      | None \<Rightarrow>
          (let replica_map = replica_map_of_maps maps
           in if replica_map = [] then next_state_of (next_resolution_invalid_config ''invalid replica map'')
              else default_next_state\<lparr>tn_resolution := Provisioned, tn_replica_map := replica_map\<rparr>))"

definition mirror_map_of :: "MirrorConfig \<Rightarrow> MirrorMap" where
  "mirror_map_of m =
     fold (\<lambda>(i, c). bt_insert (word_of_nat i) c)
       (enumerate 0 (case m of MirrorRemote src \<Rightarrow> map (remote_partition src) (rmc_home_spus src)
                     | MirrorHome tgt \<Rightarrow> map HomePartition (hmc_partitions tgt))) []"

definition same_next_state :: "'c TopicMetadata \<Rightarrow> 'c TopicNextState" where
  "same_next_state topic = default_next_state\<lparr>tn_resolution := tst_resolution (status topic)\<rparr>"

definition settled_next_state :: "'c item_ops \<Rightarrow> 'c TopicMetadata \<Rightarrow> 'c PartitionStore \<Rightarrow> 'c TopicNextState" where
  "settled_next_state ops topic partitions =
     (let next_state = same_next_state topic
      in if tn_resolution next_state = Provisioned
         then next_state\<lparr>tn_partitions := create_new_partitions ops topic partitions\<rparr> else next_state)"

definition scheduled_next_state :: "ReplicaMap \<Rightarrow> MirrorMap \<Rightarrow> 'c TopicNextState" where
  "scheduled_next_state replica_map mirror_map =
     (if replica_map \<noteq> []
      then default_next_state\<lparr>tn_resolution := Provisioned, tn_replica_map := replica_map, tn_mirror_map := mirror_map\<rparr>
      else default_next_state\<lparr>tn_resolution := InsufficientResources\<rparr>)"

definition compute_next_state ::
  "'c item_ops \<Rightarrow> 'c TopicMetadata \<Rightarrow> 'c SpuStore \<Rightarrow> 'c PartitionStore \<Rightarrow> 'c TopicNextState" where
  "compute_next_state ops topic spus partitions =
     (let groups = group_by_spu partitions; resolution = tst_resolution (status topic);
          actual = Some (tst_replica_map (status topic))
      in case ts_replicas (spec topic) of
           Computed param \<Rightarrow>
             if resolution \<in> {Init, InvalidConfig} then validate_computed_topic_parameters param
             else if resolution \<in> {Pending, InsufficientResources} then
               scheduled_next_state (fst (generate_replica_map_for_topic spus param actual groups)) []
             else settled_next_state ops topic partitions
         | Assigned maps \<Rightarrow>
             if resolution \<in> {Init, InvalidConfig} then validate_assigned_topic_parameters maps
             else if resolution \<in> {Pending, InsufficientResources} then
               (let next_state = update_replica_map_for_assigned_topic maps spus
                in if tn_resolution next_state = Provisioned
                   then next_state\<lparr>tn_partitions := create_new_partitions ops topic partitions\<rparr> else next_state)
             else settled_next_state ops topic partitions
         | Mirror mirror_config \<Rightarrow>
             if resolution \<in> {Init, InvalidConfig} then validate_mirror_topic_parameter mirror_config
             else if resolution \<in> {Pending, InsufficientResources} then
               scheduled_next_state
                 (fst (generate_replica_map_for_topic spus
                    \<lparr>trp_partitions = mirror_partition_count mirror_config, trp_replication_factor = 1,
                     trp_ignore_rack_assignment = False\<rparr> actual groups))
                 (mirror_map_of mirror_config)
             else settled_next_state ops topic partitions)"

definition apply_as_next_state :: "'c TopicNextState \<Rightarrow> 'c TopicMetadata \<Rightarrow> 'c PartitionMetadata list \<times> 'c TopicMetadata" where
  "apply_as_next_state next topic =
     (let st = (status topic)\<lparr>tst_resolution := tn_resolution next, tst_reason := tn_reason next\<rparr>;
          st = (if tn_replica_map next \<noteq> [] then st\<lparr>tst_replica_map := tn_replica_map next\<rparr> else st);
          st = (if tn_mirror_map next \<noteq> [] then st\<lparr>tst_mirror_map := tn_mirror_map next\<rparr> else st)
      in (tn_partitions next, topic\<lparr>status := st\<rparr>))"

section \<open>The reducer\<close>

record 'c TopicActions =
  ta_topics :: "(TopicSpec, TopicStatus, string, 'c) WSAction list"
  ta_partitions :: "(PartitionSpec, PartitionStatus, ReplicaKey, 'c) WSAction list"

definition no_actions :: "'c TopicActions" where
  "no_actions = \<lparr>ta_topics = [], ta_partitions = []\<rparr>"

definition update_actions_next_state ::
  "'c item_ops \<Rightarrow> 'c SpuStore \<Rightarrow> 'c PartitionStore \<Rightarrow> 'c TopicMetadata \<Rightarrow> 'c TopicActions \<Rightarrow> 'c TopicActions" where
  "update_actions_next_state ops spus partitions topic actions =
     (let st = status topic
      in if it_deleted ops (ctx topic) then
           if tst_resolution st \<noteq> Deleting then
             actions\<lparr>ta_topics := ta_topics actions @ [UpdateStatus (key topic) (st\<lparr>tst_resolution := Deleting\<rparr>)],
                     ta_partitions := ta_partitions actions
                       @ map (DeleteItem \<circ> key) (childrens ops topic partitions)\<rparr>
           else actions
         else if tst_resolution st = Provisioned
                 \<and> rs_partitions (ts_replicas (spec topic)) > word_of_nat (length (tst_replica_map st)) then
           actions\<lparr>ta_topics := ta_topics actions @ [UpdateStatus (key topic) (st\<lparr>tst_resolution := Pending\<rparr>)]\<rparr>
         else
           (let next_state = compute_next_state ops topic spus partitions;
                (new_partitions, updated_topic) = apply_as_next_state next_state topic;
                actions = actions\<lparr>ta_partitions := ta_partitions actions @ map Apply new_partitions\<rparr>
            in if tst_resolution (status updated_topic) \<noteq> tst_resolution st
                  \<or> tst_reason (status updated_topic) \<noteq> tst_reason st
               then actions\<lparr>ta_topics := ta_topics actions @ [UpdateStatus (key updated_topic) (status updated_topic)]\<rparr>
               else actions))"

definition process_requests ::
  "'c item_ops \<Rightarrow> 'c SpuStore \<Rightarrow> 'c PartitionStore \<Rightarrow> 'c TopicMetadata list \<Rightarrow> 'c TopicActions" where
  "process_requests ops spus partitions updates = fold (update_actions_next_state ops spus partitions) updates no_actions"

definition process_spu_update ::
  "'c item_ops \<Rightarrow> 'c SpuStore \<Rightarrow> 'c PartitionStore \<Rightarrow> 'c TopicStore \<Rightarrow> 'c TopicActions" where
  "process_spu_update ops spus partitions topics = fold (update_actions_next_state ops spus partitions) topics no_actions"

text \<open>\<open>sync_spus\<close> of the controller with the SPU updates its listener got.\<close>

definition sync_spus ::
  "'c item_ops \<Rightarrow> 'c SpuStore \<Rightarrow> 'c PartitionStore \<Rightarrow> 'c TopicStore \<Rightarrow> 'c SpuMetadata list \<Rightarrow> 'c TopicActions" where
  "sync_spus ops spus partitions topics updates =
     (if list_ex (\<lambda>u. spu_is_online (status u)) updates then process_spu_update ops spus partitions topics
      else no_actions)"

section \<open>Rounds of the controller\<close>

text \<open>
  What an action does to the objects of a store once the dispatcher has carried it
  out and the update has come back.
\<close>

fun ws_effect ::
  "('s, 't, 'k, 'c) WSAction \<Rightarrow> ('s, 't, 'k, 'c) MetadataStoreObject list \<Rightarrow> ('s, 't, 'k, 'c) MetadataStoreObject list" where
  "ws_effect (Apply obj) objects =
     (if key obj \<in> key ` set objects then map (\<lambda>x. if key x = key obj then obj else x) objects else objects @ [obj])"
| "ws_effect (UpdateSpec k s) objects = map (\<lambda>x. if key x = k then x\<lparr>spec := s\<rparr> else x) objects"
| "ws_effect (UpdateStatus k t) objects = map (\<lambda>x. if key x = k then x\<lparr>status := t\<rparr> else x) objects"
| "ws_effect (DeleteItem k) objects = filter (\<lambda>x. key x \<noteq> k) objects"
| "ws_effect (DeleteFinal k) objects = filter (\<lambda>x. key x \<noteq> k) objects"

definition controller_round ::
  "'c item_ops \<Rightarrow> 'c SpuStore \<Rightarrow> 'c TopicStore \<times> 'c PartitionStore \<Rightarrow> 'c TopicStore \<times> 'c PartitionStore" where
  "controller_round ops spus st =
     (let actions = process_requests ops spus (snd st) (fst st)
      in (fold ws_effect (ta_topics actions) (fst st), fold ws_effect (ta_partitions actions) (snd st)))"

lemma fold_apply_new:
  assumes "distinct (map key new)" "key ` set new \<inter> key ` set objects = {}"
  shows "fold ws_effect (map Apply new) objects = objects @ new"
  using assms by (induction new arbitrary: objects) auto

text \<open>A round for one topic that is not being deleted and has all its partitions.\<close>

definition step_ok :: "'c item_ops \<Rightarrow> 'c TopicMetadata \<Rightarrow> bool" where
  "step_ok ops topic \<longleftrightarrow> \<not> it_deleted ops (ctx topic)
     \<and> \<not> (tst_resolution (status topic) = Provisioned
          \<and> rs_partitions (ts_replicas (spec topic)) > word_of_nat (length (tst_replica_map (status topic))))"

lemma single_topic_actions:
  assumes "step_ok ops topic" "compute_next_state ops topic spus partitions = next"
    "apply_as_next_state next topic = (new, topic')"
  shows "process_requests ops spus partitions [topic] =
    \<lparr>ta_topics = (if tst_resolution (status topic') \<noteq> tst_resolution (status topic)
                     \<or> tst_reason (status topic') \<noteq> tst_reason (status topic)
                  then [UpdateStatus (key topic) (status topic')] else []),
     ta_partitions = map Apply new\<rparr>"
proof -
  have "key topic' = key topic" using assms(3) by (auto simp: apply_as_next_state_def Let_def)
  then show ?thesis
    using assms by (auto simp: process_requests_def update_actions_next_state_def no_actions_def step_ok_def Let_def)
qed

lemma single_topic_round:
  assumes "step_ok ops topic" "compute_next_state ops topic spus partitions = next"
    "apply_as_next_state next topic = (new, topic')"
    "distinct (map key new)" "key ` set new \<inter> key ` set partitions = {}"
  shows "controller_round ops spus ([topic], partitions) =
    ([if tst_resolution (status topic') \<noteq> tst_resolution (status topic)
         \<or> tst_reason (status topic') \<noteq> tst_reason (status topic) then topic' else topic], partitions @ new)"
proof -
  have "topic\<lparr>status := status topic'\<rparr> = topic'" using assms(3) by (auto simp: apply_as_next_state_def Let_def)
  then show ?thesis
    unfolding controller_round_def single_topic_actions [OF assms(1-3)] fst_conv snd_conv Let_def
    using fold_apply_new [OF assms(4,5)] by simp
qed

section \<open>Computed topics are provisioned\<close>

definition provisioned :: "ReplicaMap \<Rightarrow> 'c TopicMetadata \<Rightarrow> 'c TopicMetadata" where
  "provisioned m topic =
     topic\<lparr>status := \<lparr>tst_resolution = Provisioned, tst_replica_map = m, tst_mirror_map = [], tst_reason = ''''\<rparr>\<rparr>"

definition pending :: "'c TopicMetadata \<Rightarrow> 'c TopicMetadata" where
  "pending topic =
     topic\<lparr>status := \<lparr>tst_resolution = Pending, tst_replica_map = [], tst_mirror_map = [], tst_reason = PENDING_REASON\<rparr>\<rparr>"

definition partitions_of :: "'c item_ops \<Rightarrow> 'c TopicMetadata \<Rightarrow> ReplicaMap \<Rightarrow> 'c PartitionMetadata list" where
  "partitions_of ops topic m = map (\<lambda>(i, rs). new_partition ops (provisioned m topic) i rs) m"

lemma topic_simps [simp]:
  "key (provisioned m topic) = key topic" "spec (provisioned m topic) = spec topic" "ctx (provisioned m topic) = ctx topic"
  "key (pending topic) = key topic" "spec (pending topic) = spec topic" "ctx (pending topic) = ctx topic"
  by (simp_all add: provisioned_def pending_def)

lemma round_init:
  assumes "ts_replicas (spec topic) = Computed param" "trp_partitions param \<noteq> 0" "trp_replication_factor param \<noteq> 0"
    "status topic = default_topic_status" "\<not> it_deleted ops (ctx topic)"
  shows "controller_round ops spus ([topic], ps) = ([pending topic], ps)"
proof -
  have "compute_next_state ops topic spus ps = next_state_of next_resolution_pending"
    using assms by (simp add: compute_next_state_def default_topic_status_def validate_computed_topic_parameters_def
        valid_partition_def valid_replication_factor_def Let_def)
  moreover have "apply_as_next_state (next_state_of next_resolution_pending) topic = ([], pending topic)"
    using assms(4) by (simp add: apply_as_next_state_def next_state_of_def default_next_state_def next_resolution_pending_def
        default_topic_status_def pending_def Let_def)
  moreover have "step_ok ops topic" using assms(4,5) by (simp add: step_ok_def default_topic_status_def)
  ultimately show ?thesis
    using single_topic_round [of ops topic spus ps] assms(4)
    by (simp add: pending_def default_topic_status_def PENDING_REASON_def)
qed

lemma round_pending:
  assumes "ts_replicas (spec topic) = Computed param" "\<not> it_deleted ops (ctx topic)"
    "fst (generate_replica_map_for_topic spus param (Some []) (group_by_spu ps)) = m" "m \<noteq> []"
  shows "controller_round ops spus ([pending topic], ps) = ([provisioned m topic], ps)"
proof -
  have "compute_next_state ops (pending topic) spus ps = scheduled_next_state m []"
    using assms by (simp add: compute_next_state_def pending_def Let_def)
  moreover have "apply_as_next_state (scheduled_next_state m []) (pending topic) = ([], provisioned m topic)"
    using assms(4) by (simp add: apply_as_next_state_def scheduled_next_state_def default_next_state_def provisioned_def
        pending_def Let_def)
  moreover have "step_ok ops (pending topic)" using assms(2) by (simp add: step_ok_def pending_def)
  ultimately show ?thesis
    using single_topic_round [of ops "pending topic" spus ps]
    by (simp add: provisioned_def pending_def)
qed

lemma next_provisioned:
  assumes "ts_replicas (spec topic) = Computed param" "map fst m = map word_of_nat [0..<unat (trp_partitions param)]"
    "\<not> it_deleted ops (ctx topic)"
  shows "step_ok ops (provisioned m topic)"
    "apply_as_next_state (compute_next_state ops (provisioned m topic) spus ps) (provisioned m topic)
       = (create_new_partitions ops (provisioned m topic) ps, provisioned m topic)"
proof -
  have "length m = unat (trp_partitions param)" using assms(2) by (metis length_map length_upt minus_nat.diff_0)
  then show "step_ok ops (provisioned m topic)"
    using assms by (simp add: step_ok_def provisioned_def rs_partitions_def)
  have "tst_resolution (status (provisioned m topic)) = Provisioned" by (simp add: provisioned_def)
  then have "compute_next_state ops (provisioned m topic) spus ps = default_next_state\<lparr>tn_resolution := Provisioned,
      tn_partitions := create_new_partitions ops (provisioned m topic) ps\<rparr>"
    using assms(1) by (simp add: compute_next_state_def settled_next_state_def same_next_state_def Let_def)
  then show "apply_as_next_state (compute_next_state ops (provisioned m topic) spus ps) (provisioned m topic)
       = (create_new_partitions ops (provisioned m topic) ps, provisioned m topic)"
    by (simp add: apply_as_next_state_def default_next_state_def Let_def) (simp add: provisioned_def)
qed

lemma create_missing:
  assumes "\<forall>p \<in> set ps. rk_topic (key p) \<noteq> key topic"
  shows "create_new_partitions ops (provisioned m topic) ps = partitions_of ops topic m"
proof -
  have "replica_key (key topic) i \<notin> key ` set ps" for i
  proof
    assume "replica_key (key topic) i \<in> key ` set ps"
    then obtain p where "p \<in> set ps" "key p = replica_key (key topic) i" by auto
    then show False using assms by (auto simp: replica_key_def)
  qed
  then show ?thesis
    by (simp add: create_new_partitions_def partitions_of_def provisioned_def [of m topic] case_prod_beta)
qed

lemma create_none:
  "create_new_partitions ops (provisioned m topic) (ps @ partitions_of ops topic m) = []"
  by (force simp: create_new_partitions_def partitions_of_def new_partition_def provisioned_def filter_empty_conv)

lemma partitions_of_keys:
  "map key (partitions_of ops topic m) = map (\<lambda>e. replica_key (key topic) (fst e)) m"
  by (simp add: partitions_of_def new_partition_def case_prod_beta)


definition plain_ops :: "nat item_ops" where
  "plain_ops = \<lparr>it_deleted = (\<lambda>_. False), it_child = id, it_owned = (\<lambda>_ _. False)\<rparr>"

definition topic_md :: "TopicSpec \<Rightarrow> nat TopicMetadata" where
  "topic_md s = \<lparr>spec = s, status = default_topic_status, key = ''t'', ctx = 0\<rparr>"


section \<open>Assigned topics with an unknown SPU\<close>

lemma foldl_unique_set:
  "set (foldl (\<lambda>ids spu. if spu \<in> set ids then ids else ids @ [spu]) ids xs) = set ids \<union> set xs"
  by (induction xs arbitrary: ids) auto

lemma unique_spus_set: "set (unique_spus_in_partition_map maps) = (\<Union>p \<in> set maps. set (pm_replicas p))"
proof -
  have "set (foldl (\<lambda>ids p. foldl (\<lambda>ids spu. if spu \<in> set ids then ids else ids @ [spu]) ids (pm_replicas p)) acc maps)
    = set acc \<union> (\<Union>p \<in> set maps. set (pm_replicas p))" for acc
    by (induction maps arbitrary: acc) (auto simp: foldl_unique_set)
  from this [of "[]"] show ?thesis by (simp add: unique_spus_in_partition_map_def)
qed

definition with_status :: "TopicResolution \<Rightarrow> string \<Rightarrow> 'c TopicMetadata \<Rightarrow> 'c TopicMetadata" where
  "with_status r reason topic = topic\<lparr>status := (status topic)\<lparr>tst_resolution := r, tst_reason := reason\<rparr>\<rparr>"

lemma with_status_simps [simp]:
  "spec (with_status r s t) = spec t" "ctx (with_status r s t) = ctx t" "key (with_status r s t) = key t"
  "tst_resolution (status (with_status r s t)) = r" "tst_reason (status (with_status r s t)) = s"
  "with_status r s (with_status r' s' t) = with_status r s t"
  by (simp_all add: with_status_def)

lemma apply_reason:
  "apply_as_next_state (next_state_of (r, s)) topic = ([], with_status r s topic)"
  by (simp add: apply_as_next_state_def next_state_of_def default_next_state_def with_status_def Let_def)

definition bad_spu :: "PartitionMaps \<Rightarrow> 'c SpuStore \<Rightarrow> SpuId option" where
  "bad_spu maps spus = find (\<lambda>spu. spu \<notin> set (spu_ids spus)) (unique_spus_in_partition_map maps)"

lemma assigned_rounds:
  assumes "ts_replicas (spec topic) = Assigned maps" "maps_validate maps = Inr ()" "\<not> it_deleted ops (ctx topic)"
    "bad_spu maps spus = Some spu"
  defines "bad \<equiv> ''invalid spu id: '' @ int_string spu"
  shows "controller_round ops spus ([with_status Pending s topic], ps) = ([with_status InvalidConfig bad topic], ps)"
    "controller_round ops spus ([with_status InvalidConfig s topic], ps) = ([with_status Pending PENDING_REASON topic], ps)"
proof -
  have s1: "compute_next_state ops (with_status Pending s topic) spus ps = next_state_of (InvalidConfig, bad)"
    using assms by (simp add: compute_next_state_def Let_def update_replica_map_for_assigned_topic_def bad_spu_def
        next_resolution_invalid_config_def next_state_of_def default_next_state_def)
  have s2: "compute_next_state ops (with_status InvalidConfig s topic) spus ps = next_state_of (Pending, PENDING_REASON)"
    using assms by (simp add: compute_next_state_def Let_def validate_assigned_topic_parameters_def
        next_resolution_pending_def)
  have ok: "step_ok ops (with_status Pending s topic)" "step_ok ops (with_status InvalidConfig s topic)"
    using assms(3) by (simp_all add: step_ok_def)
  show "controller_round ops spus ([with_status Pending s topic], ps) = ([with_status InvalidConfig bad topic], ps)"
    using single_topic_round [OF ok(1) s1 apply_reason] by simp
  show "controller_round ops spus ([with_status InvalidConfig s topic], ps) = ([with_status Pending PENDING_REASON topic], ps)"
    using single_topic_round [OF ok(2) s2 apply_reason] by simp
qed

text \<open>
  C36. A topic whose assigned map passes validation but names an SPU the controller
  does not know never settles: it alternates between \<open>Pending\<close> and \<open>InvalidConfig\<close>,
  and every round writes its status again.
\<close>

theorem assigned_topic_never_settles:
  assumes "ts_replicas (spec topic) = Assigned maps" "maps_validate maps = Inr ()" "\<not> it_deleted ops (ctx topic)"
    and "status topic = default_topic_status" "p \<in> set maps" "unknown \<in> set (pm_replicas p)" "unknown \<notin> set (spu_ids spus)"
  shows "\<exists>bad. (controller_round ops spus ^^ (2 * n + 1)) ([topic], ps) = ([with_status Pending PENDING_REASON topic], ps)
    \<and> (controller_round ops spus ^^ (2 * n + 2)) ([topic], ps) = ([with_status InvalidConfig bad topic], ps)"
proof -
  have "bad_spu maps spus \<noteq> None"
    using assms(5-7) unique_spus_set [of maps] by (auto simp: bad_spu_def find_None_iff)
  then obtain spu where b: "bad_spu maps spus = Some spu" by blast
  let ?bad = "''invalid spu id: '' @ int_string spu"
  note r = assigned_rounds [OF assms(1-3) b]
  have s: "compute_next_state ops topic spus ps = next_state_of (Pending, PENDING_REASON)"
    using assms by (simp add: compute_next_state_def Let_def validate_assigned_topic_parameters_def
        next_resolution_pending_def default_topic_status_def)
  have "step_ok ops topic" using assms(3,4) by (simp add: step_ok_def default_topic_status_def)
  from single_topic_round [OF this s apply_reason]
  have first: "controller_round ops spus ([topic], ps) = ([with_status Pending PENDING_REASON topic], ps)"
    using assms(4) by (simp add: default_topic_status_def)
  have "(controller_round ops spus ^^ (2 * n + 1)) ([topic], ps) = ([with_status Pending PENDING_REASON topic], ps)"
  proof (induction n)
    case (Suc n)
    then show ?case using r(1) [of PENDING_REASON ps] r(2) [of ?bad ps] by simp
  qed (simp add: first)
  then show ?thesis using r(1) [of PENDING_REASON ps] by (intro exI [of _ ?bad]) simp
qed

definition far_map :: PartitionMaps where
  "far_map = [\<lparr>pm_id = 0, pm_replicas = [6000], pm_mirror = None\<rparr>]"

theorem assigned_topic_never_settles_witness:
  "map (tst_resolution \<circ> status) (fst ((controller_round plain_ops three_spus ^^ (2 * 50 + 2)) ([topic_md (new_assigned far_map)], [])))
   = [InvalidConfig]"
proof -
  have "maps_validate far_map = Inr ()"
    by (simp add: far_map_def maps_validate_def unique_count_def)
  then have "\<exists>bad. (controller_round plain_ops three_spus ^^ (2 * 50 + 1)) ([topic_md (new_assigned far_map)], [])
        = ([with_status Pending PENDING_REASON (topic_md (new_assigned far_map))], [])
    \<and> (controller_round plain_ops three_spus ^^ (2 * 50 + 2)) ([topic_md (new_assigned far_map)], [])
        = ([with_status InvalidConfig bad (topic_md (new_assigned far_map))], [])"
    by (intro assigned_topic_never_settles [where maps = far_map and p = "hd far_map" and unknown = 6000])
      (simp_all add: topic_md_def new_assigned_def topic_of_replicas_def plain_ops_def far_map_def spu_ids_def
        three_spus_def spu_md_def)
  then obtain bad where e: "(controller_round plain_ops three_spus ^^ (2 * 50 + 2)) ([topic_md (new_assigned far_map)], [])
        = ([with_status InvalidConfig bad (topic_md (new_assigned far_map))], [])" by blast
  show ?thesis unfolding e by simp
qed

end
