(* ===== verification/Partition_Election.thy ===== *)
theory Partition_Election
  imports Topic_Controller
begin

text \<open>
  Partition statuses and leader election in the streaming controller:
  \<open>fluvio-controlplane-metadata/src/partition/status.rs\<close>, the status extensions and
  queries of \<open>fluvio-sc/src/stores/partition/store.rs\<close>, the election policy
  (\<open>policy.rs\<close>), the partition reducer (\<open>controllers/partitions/reducer.rs\<close>) and the
  messages of SPUs about their replicas
  (\<open>services/private_api/private_server.rs\<close>).
\<close>

section \<open>Partition statuses\<close>

definition pst_new :: "ReplicaStatus \<Rightarrow> ReplicaStatus list \<Rightarrow> PartitionStatus" where
  "pst_new leader replicas = default_partition_status\<lparr>pst_leader := leader, pst_replicas := replicas\<rparr>"

definition pst_new2 ::
  "ReplicaStatus \<Rightarrow> ReplicaStatus list \<Rightarrow> i64 \<Rightarrow> PartitionResolution \<Rightarrow> i64 \<Rightarrow> PartitionStatus" where
  "pst_new2 leader replicas sz resolution base =
     default_partition_status\<lparr>pst_resolution := resolution, pst_leader := leader, pst_replicas := replicas,
       pst_size := sz, pst_base_offset := base\<rparr>"

definition pst_is_online :: "PartitionStatus \<Rightarrow> bool" where
  "pst_is_online s = (pst_resolution s = Online)"

definition pst_is_readable :: "PartitionStatus \<Rightarrow> bool" where
  "pst_is_readable s = (pst_resolution s = Online \<or> pst_resolution s = OutOfStorage)"

definition pst_is_offline :: "PartitionStatus \<Rightarrow> bool" where
  "pst_is_offline s = (pst_resolution s = Offline)"

definition live_replicas :: "PartitionStatus \<Rightarrow> SpuId list" where
  "live_replicas s = map rst_spu (pst_replicas s)"

definition set_to_delete :: "PartitionStatus \<Rightarrow> PartitionStatus" where
  "set_to_delete s = s\<lparr>pst_is_being_deleted := True\<rparr>"

definition leader_lag :: "ReplicaStatus \<Rightarrow> ReplicaStatus \<Rightarrow> i64" where
  "leader_lag leader s = rst_leo leader - rst_leo s"

definition high_watermark_lag :: "ReplicaStatus \<Rightarrow> ReplicaStatus \<Rightarrow> i64" where
  "high_watermark_lag leader s = rst_hw leader - rst_hw s"

definition rst_merge :: "ReplicaStatus \<Rightarrow> ReplicaStatus \<Rightarrow> ReplicaStatus option \<times> ReplicaStatus" where
  "rst_merge source self =
     (if rst_spu source = -1 then (None, self)
      else if rst_spu self = -1 \<or> rst_spu self = rst_spu source then
        (None, \<lparr>rst_spu = rst_spu source,
                rst_hw = (if rst_hw source \<noteq> -1 then rst_hw source else rst_hw self),
                rst_leo = (if rst_leo source \<noteq> -1 then rst_leo source else rst_leo self)\<rparr>)
      else (Some self, source))"

fun merge_replica :: "ReplicaStatus \<Rightarrow> ReplicaStatus list \<Rightarrow> ReplicaStatus list" where
  "merge_replica st [] = [st]"
| "merge_replica st (r # rs) = (if rst_spu r = rst_spu st then snd (rst_merge st r) # rs else r # merge_replica st rs)"

definition update_lrs :: "PartitionStatus \<Rightarrow> PartitionStatus" where
  "update_lrs s =
     s\<lparr>pst_lsr := word_of_nat (length (filter (\<lambda>re. rst_leo re \<noteq> -1 \<and> rst_leo (pst_leader s) = rst_leo re) (pst_replicas s)))\<rparr>"

definition pst_merge :: "PartitionStatus \<Rightarrow> PartitionStatus \<Rightarrow> PartitionStatus" where
  "pst_merge other self =
     (let (old, leader) = rst_merge (pst_leader other) (pst_leader self);
          replicas = (case old of None \<Rightarrow> pst_replicas self | Some prev \<Rightarrow> pst_replicas self @ [prev]);
          replicas = fold merge_replica (pst_replicas other) replicas;
          replicas = filter (\<lambda>s. rst_spu s \<noteq> rst_spu leader) replicas
      in update_lrs (self\<lparr>pst_resolution := pst_resolution other, pst_size := pst_size other,
                          pst_leader := leader, pst_replicas := replicas\<rparr>))"

section \<open>Election\<close>

datatype ElectionScoring = NotSuitable | Score u16

definition is_suitable :: "ElectionScoring \<Rightarrow> bool" where
  "is_suitable s = (case s of NotSuitable \<Rightarrow> False | Score _ \<Rightarrow> True)"

definition potential_leader_score :: "ReplicaStatus \<Rightarrow> ReplicaStatus \<Rightarrow> ElectionScoring" where
  "potential_leader_score replica_status leader =
     (let lag = rst_leo leader - rst_leo replica_status
      in if sint lag < 4 then Score (ucast lag) else NotSuitable)"

fun candidate_loop ::
  "(ReplicaStatus \<Rightarrow> ReplicaStatus \<Rightarrow> ElectionScoring) \<Rightarrow> SpuId set \<Rightarrow> ReplicaStatus \<Rightarrow> ReplicaStatus list
    \<Rightarrow> SpuId option \<times> u16 \<Rightarrow> SpuId option \<times> u16" where
  "candidate_loop policy online leader [] st = st"
| "candidate_loop policy online leader (c # rest) (spu, best) =
     candidate_loop policy online leader rest
       (if rst_spu c \<in> online then
          (case policy c leader of
             NotSuitable \<Rightarrow> (spu, best)
           | Score score \<Rightarrow> if spu = None \<or> score < best then (Some (rst_spu c), score) else (spu, best))
        else (spu, best))"

definition candidate_leader ::
  "(ReplicaStatus \<Rightarrow> ReplicaStatus \<Rightarrow> ElectionScoring) \<Rightarrow> SpuId set \<Rightarrow> PartitionStatus \<Rightarrow> SpuId option" where
  "candidate_leader policy online s = fst (candidate_loop policy online (pst_leader s) (pst_replicas s) (None, 0))"

section \<open>Queries on the partition store\<close>

definition topic_partitions :: "string \<Rightarrow> 'c PartitionStore \<Rightarrow> 'c PartitionMetadata list" where
  "topic_partitions topic ps = filter (\<lambda>p. rk_topic (key p) = topic) ps"

definition partition_spec_for_spu :: "SpuId \<Rightarrow> 'c PartitionStore \<Rightarrow> (ReplicaKey \<times> PartitionSpec) list" where
  "partition_spec_for_spu spu ps = map (\<lambda>p. (key p, spec p)) (filter (\<lambda>p. spu \<in> set (ps_replicas (spec p))) ps)"

definition count_topic_partitions :: "string \<Rightarrow> 'c PartitionStore \<Rightarrow> i32" where
  "count_topic_partitions topic ps = word_of_nat (length (filter (\<lambda>p. rk_topic (key p) = topic) ps))"

record Replica =
  re_id :: ReplicaKey
  re_leader :: SpuId
  re_replicas :: "SpuId list"
  re_mirror :: "PartitionMirrorConfig option"
  re_is_being_deleted :: bool
  re_cleanup_policy :: "CleanupPolicy option"
  re_storage :: "TopicStorageConfig option"
  re_compression_type :: CompressionAlgorithm
  re_deduplication :: "Deduplication option"

definition replica_new_with_delete :: "ReplicaKey \<Rightarrow> SpuId \<Rightarrow> SpuId list \<Rightarrow> bool \<Rightarrow> Replica" where
  "replica_new_with_delete i leader replicas being_deleted =
     \<lparr>re_id = i, re_leader = leader, re_replicas = replicas, re_mirror = None, re_is_being_deleted = being_deleted,
      re_cleanup_policy = None, re_storage = None, re_compression_type = AlgAny, re_deduplication = None\<rparr>"

definition replica_new :: "ReplicaKey \<Rightarrow> SpuId \<Rightarrow> SpuId list \<Rightarrow> Replica" where
  "replica_new i leader replicas = replica_new_with_delete i leader replicas False"

definition replica_of_partition :: "'c item_ops \<Rightarrow> 'c PartitionMetadata \<Rightarrow> Replica" where
  "replica_of_partition ops item =
     \<lparr>re_id = key item, re_leader = ps_leader (spec item), re_replicas = ps_replicas (spec item),
      re_mirror = ps_mirror (spec item),
      re_is_being_deleted = (pst_is_being_deleted (status item) \<or> it_deleted ops (ctx item)),
      re_cleanup_policy = ps_cleanup_policy (spec item), re_storage = ps_storage (spec item),
      re_compression_type = ps_compression_type (spec item), re_deduplication = ps_deduplication (spec item)\<rparr>"

definition replica_for_spu :: "SpuId \<Rightarrow> 'c PartitionStore \<Rightarrow> Replica list" where
  "replica_for_spu spu ps = map (\<lambda>(k, s). replica_new k (ps_leader s) (ps_replicas s)) (partition_spec_for_spu spu ps)"

definition store_leaders :: "'c PartitionStore \<Rightarrow> (ReplicaKey \<times> SpuId) list" where
  "store_leaders ps = map (\<lambda>p. (key p, ps_leader (spec p))) ps"

section \<open>The partition reducer\<close>

type_synonym 'c PartitionWSAction = "(PartitionSpec, PartitionStatus, ReplicaKey, 'c) WSAction"

definition process_partition_update :: "'c item_ops \<Rightarrow> 'c PartitionMetadata list \<Rightarrow> 'c PartitionWSAction list" where
  "process_partition_update ops updates =
     map (\<lambda>p. UpdateStatus (key p) (set_to_delete (status p)))
       (filter (\<lambda>p. it_deleted ops (ctx p) \<and> \<not> pst_is_being_deleted (status p)) updates)"

definition election_off_action :: "SpuId set \<Rightarrow> SpuId \<Rightarrow> 'c PartitionMetadata \<Rightarrow> 'c PartitionWSAction list" where
  "election_off_action online offline p =
     (if ps_leader (spec p) = offline then
        (case candidate_leader potential_leader_score online (status p) of
           Some candidate \<Rightarrow> [UpdateSpec (key p) ((spec p)\<lparr>ps_leader := candidate\<rparr>)]
         | None \<Rightarrow>
             if pst_is_online (status p)
             then [UpdateStatus (key p) ((status p)\<lparr>pst_resolution := LeaderOffline\<rparr>)] else [])
      else [])"

definition force_election_spu_off ::
  "'c SpuStore \<Rightarrow> 'c PartitionStore \<Rightarrow> SpuId \<Rightarrow> 'c PartitionWSAction list \<Rightarrow> 'c PartitionWSAction list" where
  "force_election_spu_off spus ps offline actions =
     actions @ concat (map (election_off_action (online_status spus) offline) ps)"

definition election_on_action :: "SpuId \<Rightarrow> 'c PartitionMetadata \<Rightarrow> 'c PartitionWSAction list" where
  "election_on_action online p =
     (if \<not> pst_is_readable (status p) then
        if ps_leader (spec p) \<noteq> online then
          map (\<lambda>r. UpdateSpec (key p) ((spec p)\<lparr>ps_leader := online\<rparr>))
            (filter (\<lambda>r. rst_spu r = online \<and> is_suitable (potential_leader_score r (pst_leader (status p))))
               (pst_replicas (status p)))
        else [UpdateStatus (key p) ((status p)\<lparr>pst_resolution := Online\<rparr>)]
      else [])"

definition force_election_spu_on ::
  "'c PartitionStore \<Rightarrow> SpuId \<Rightarrow> 'c PartitionWSAction list \<Rightarrow> 'c PartitionWSAction list" where
  "force_election_spu_on ps online actions = actions @ concat (map (election_on_action online) ps)"

definition update_election_from_spu_changes ::
  "'c SpuStore \<Rightarrow> 'c PartitionStore \<Rightarrow> 'c SpuMetadata list \<Rightarrow> 'c PartitionWSAction list" where
  "update_election_from_spu_changes spus ps updates =
     (let (online_spus, offline_spus) = partition (\<lambda>v. spu_is_online (status v)) updates;
          offline_spus = filter (\<lambda>v. \<not> spu_is_init (status v)) offline_spus;
          actions = fold (\<lambda>v. force_election_spu_off spus ps (spu_id (spec v))) offline_spus []
      in fold (\<lambda>v. force_election_spu_on ps (spu_id (spec v))) online_spus actions)"

section \<open>Messages of SPUs\<close>

fun lrs_actions :: "'c PartitionStore \<Rightarrow> LrsRequest list \<Rightarrow> 'c PartitionWSAction list \<Rightarrow> 'c PartitionWSAction list option" where
  "lrs_actions ps [] actions = Some actions"
| "lrs_actions ps (r # rest) actions =
     (case find (\<lambda>p. key p = lrs_id r) ps of
        None \<Rightarrow> None
      | Some p \<Rightarrow>
          lrs_actions ps rest
            (actions @ [UpdateStatus (lrs_id r)
               (pst_merge (pst_new2 (lrs_leader r) (lrs_replicas r) (lrs_size r) Online (lrs_base_offset r)) (status p))]))"

text \<open>The actions that are sent: none when the function returns early.\<close>

definition receive_lrs_update :: "'c PartitionStore \<Rightarrow> LrsRequest list \<Rightarrow> 'c PartitionWSAction list" where
  "receive_lrs_update ps requests =
     (if requests = [] then [] else case lrs_actions ps requests [] of None \<Rightarrow> [] | Some actions \<Rightarrow> actions)"

definition receive_replica_remove :: "'c PartitionStore \<Rightarrow> ReplicaKey \<Rightarrow> bool \<Rightarrow> 'c PartitionWSAction list" where
  "receive_replica_remove ps i confirm =
     (if i \<in> key ` set ps then if confirm then [DeleteFinal i] else [] else [])"

section \<open>Merging statuses\<close>

text \<open>
  A well-formed status lists every SPU once, the leader not among the followers,
  and counts the followers that have caught up with the leader.
\<close>

definition status_wf :: "PartitionStatus \<Rightarrow> bool" where
  "status_wf s \<longleftrightarrow> distinct (map rst_spu (pst_replicas s)) \<and> rst_spu (pst_leader s) \<notin> set (map rst_spu (pst_replicas s))
     \<and> pst_lsr s = word_of_nat (length (filter (\<lambda>re. rst_leo re \<noteq> -1 \<and> rst_leo (pst_leader s) = rst_leo re) (pst_replicas s)))"

lemma rst_merge_spu: "rst_spu r = rst_spu st \<Longrightarrow> rst_spu (snd (rst_merge st r)) = rst_spu r"
  by (simp add: rst_merge_def)

lemma merge_replica_spus:
  "map rst_spu (merge_replica st rs) = map rst_spu rs @ (if rst_spu st \<in> set (map rst_spu rs) then [] else [rst_spu st])"
  by (induction rs) (auto simp: rst_merge_spu)

lemma merge_replica_wf:
  "distinct (map rst_spu rs) \<Longrightarrow> distinct (map rst_spu (merge_replica st rs))"
  unfolding merge_replica_spus by auto

lemma fold_merge_replica:
  shows "distinct (map rst_spu rs) \<Longrightarrow> distinct (map rst_spu (fold merge_replica os rs))"
    and "rst_spu ` set (fold merge_replica os rs) = rst_spu ` set rs \<union> rst_spu ` set os"
proof -
  show "distinct (map rst_spu rs) \<Longrightarrow> distinct (map rst_spu (fold merge_replica os rs))"
    by (induction os arbitrary: rs) (auto simp: merge_replica_wf)
  have "rst_spu ` set (merge_replica st rs) = insert (rst_spu st) (rst_spu ` set rs)" for st rs
    using arg_cong [OF merge_replica_spus [of st rs], of set] by (auto split: if_splits)
  then show "rst_spu ` set (fold merge_replica os rs) = rst_spu ` set rs \<union> rst_spu ` set os"
    by (induction os arbitrary: rs) auto
qed

lemma pst_merge_simps:
  "pst_leader (pst_merge other self) = snd (rst_merge (pst_leader other) (pst_leader self))"
  "pst_replicas (pst_merge other self) =
     filter (\<lambda>s. rst_spu s \<noteq> rst_spu (pst_leader (pst_merge other self)))
       (fold merge_replica (pst_replicas other)
          (pst_replicas self @ (case fst (rst_merge (pst_leader other) (pst_leader self)) of None \<Rightarrow> [] | Some prev \<Rightarrow> [prev])))"
  by (auto simp: pst_merge_def update_lrs_def Let_def case_prod_beta split: option.splits)

lemma rst_merge_old: "fst (rst_merge source self) = Some prev \<Longrightarrow> prev = self"
  by (auto simp: rst_merge_def split: if_splits)

lemma pst_merge_spus:
  "rst_spu ` set (pst_replicas (pst_merge other self)) \<subseteq>
     insert (rst_spu (pst_leader self)) (rst_spu ` set (pst_replicas self)) \<union> rst_spu ` set (pst_replicas other)"
  "rst_spu (pst_leader (pst_merge other self)) \<notin> rst_spu ` set (pst_replicas (pst_merge other self))"
proof -
  let ?rs = "pst_replicas self @ (case fst (rst_merge (pst_leader other) (pst_leader self)) of None \<Rightarrow> [] | Some prev \<Rightarrow> [prev])"
  have "rst_spu ` set (pst_replicas (pst_merge other self)) \<subseteq> rst_spu ` set (fold merge_replica (pst_replicas other) ?rs)"
    unfolding pst_merge_simps(2) by auto
  also have "\<dots> \<subseteq> insert (rst_spu (pst_leader self)) (rst_spu ` set (pst_replicas self)) \<union> rst_spu ` set (pst_replicas other)"
    unfolding fold_merge_replica(2) by (auto split: option.splits dest: rst_merge_old rst_merge_old [OF sym])
  finally show "rst_spu ` set (pst_replicas (pst_merge other self)) \<subseteq>
     insert (rst_spu (pst_leader self)) (rst_spu ` set (pst_replicas self)) \<union> rst_spu ` set (pst_replicas other)" .
  show "rst_spu (pst_leader (pst_merge other self)) \<notin> rst_spu ` set (pst_replicas (pst_merge other self))"
    unfolding pst_merge_simps(2) by auto
qed

text \<open>
  C28. Statuses stay well formed: merging any report of an SPU into a well-formed
  status gives a well-formed status again. A report with a leader makes that SPU
  the leader, and an SPU that led before is kept as a follower unless the new
  leader is the same.
\<close>

theorem merged_status_well_formed:
  assumes "status_wf self"
  shows "status_wf (pst_merge other self)
    \<and> (rst_spu (pst_leader other) \<noteq> -1 \<longrightarrow>
         rst_spu (pst_leader (pst_merge other self)) = rst_spu (pst_leader other)
         \<and> (rst_spu (pst_leader self) \<notin> {-1, rst_spu (pst_leader other)} \<longrightarrow>
              rst_spu (pst_leader self) \<in> rst_spu ` set (pst_replicas (pst_merge other self))))"
proof -
  let ?m = "pst_merge other self" and ?old = "fst (rst_merge (pst_leader other) (pst_leader self))"
  let ?rs = "pst_replicas self @ (case ?old of None \<Rightarrow> [] | Some prev \<Rightarrow> [prev])"
  have "distinct (map rst_spu ?rs)"
    using assms by (auto simp: status_wf_def split: option.splits dest: rst_merge_old)
  then have "distinct (map rst_spu (pst_replicas ?m))"
    unfolding pst_merge_simps(2) by (intro distinct_map_filter fold_merge_replica(1))
  moreover have "pst_lsr ?m = word_of_nat (length (filter (\<lambda>re. rst_leo re \<noteq> -1 \<and> rst_leo (pst_leader ?m) = rst_leo re) (pst_replicas ?m)))"
    by (simp add: pst_merge_def update_lrs_def Let_def case_prod_beta)
  ultimately have "status_wf ?m" using pst_merge_spus(2) [of other self] by (simp add: status_wf_def)
  moreover have l: "rst_spu (pst_leader ?m) = rst_spu (pst_leader other)" if "rst_spu (pst_leader other) \<noteq> -1"
    using that by (simp add: pst_merge_simps(1) rst_merge_def)
  moreover have "rst_spu (pst_leader self) \<in> rst_spu ` set (pst_replicas ?m)"
    if "rst_spu (pst_leader other) \<noteq> -1" "rst_spu (pst_leader self) \<notin> {-1, rst_spu (pst_leader other)}"
  proof -
    have "?old = Some (pst_leader self)" using that by (auto simp: rst_merge_def)
    then have "rst_spu (pst_leader self) \<in> rst_spu ` set (fold merge_replica (pst_replicas other) ?rs)"
      unfolding fold_merge_replica(2) by simp
    then show ?thesis unfolding pst_merge_simps(2) l [OF that(1)] using that by auto
  qed
  ultimately show ?thesis by blast
qed

theorem merged_status_well_formed_witness:
  "status_wf (pst_merge (pst_new \<lparr>rst_spu = 2, rst_hw = 5, rst_leo = 6\<rparr> [\<lparr>rst_spu = 3, rst_hw = 5, rst_leo = 6\<rparr>])
     (pst_new \<lparr>rst_spu = 1, rst_hw = 4, rst_leo = 5\<rparr> [\<lparr>rst_spu = 2, rst_hw = 4, rst_leo = 4\<rparr>]))"
proof -
  have "status_wf (pst_new \<lparr>rst_spu = 1, rst_hw = 4, rst_leo = 5\<rparr> [\<lparr>rst_spu = 2, rst_hw = 4, rst_leo = 4\<rparr>])"
    by (simp add: status_wf_def pst_new_def default_partition_status_def)
  from merged_status_well_formed [OF this] show ?thesis by blast
qed

section \<open>The candidate\<close>

lemma candidate_loop_cases:
  assumes "candidate_loop policy online leader xs (cur, best) = (cur', best')"
  shows "(cur' = cur \<and> best' = best \<or> (\<exists>c \<in> set xs. rst_spu c \<in> online \<and> policy c leader = Score best' \<and> cur' = Some (rst_spu c)))
    \<and> (cur \<noteq> None \<longrightarrow> cur' \<noteq> None \<and> best' \<le> best)
    \<and> (\<forall>c \<in> set xs. \<forall>s. rst_spu c \<in> online \<longrightarrow> policy c leader = Score s \<longrightarrow> cur' \<noteq> None \<and> best' \<le> s)"
  using assms
proof (induction xs arbitrary: cur best)
  case (Cons x xs)
  show ?case
  proof (cases "rst_spu x \<in> online \<and> (\<exists>s. policy x leader = Score s)")
    case False
    then have l: "candidate_loop policy online leader xs (cur, best) = (cur', best')"
      using Cons.prems by (auto split: ElectionScoring.splits if_splits)
    from Cons.IH [OF this] False show ?thesis by auto
  next
    case True
    then obtain s where s: "rst_spu x \<in> online" "policy x leader = Score s" by blast
    show ?thesis
    proof (cases "cur = None \<or> s < best")
      case take: True
      then have "candidate_loop policy online leader xs (Some (rst_spu x), s) = (cur', best')"
        using Cons.prems s by simp
      from Cons.IH [OF this] s take show ?thesis by auto
    next
      case keep: False
      then have "candidate_loop policy online leader xs (cur, best) = (cur', best')"
        using Cons.prems s by auto
      from Cons.IH [OF this] s keep show ?thesis by auto
    qed
  qed
qed simp

lemma candidate_leader_Some:
  assumes "candidate_leader policy online st = Some spu"
  obtains c s where "c \<in> set (pst_replicas st)" "rst_spu c = spu" "spu \<in> online" "policy c (pst_leader st) = Score s"
    "\<And>d t. d \<in> set (pst_replicas st) \<Longrightarrow> rst_spu d \<in> online \<Longrightarrow> policy d (pst_leader st) = Score t \<Longrightarrow> s \<le> t"
proof -
  obtain best where l: "candidate_loop policy online (pst_leader st) (pst_replicas st) (None, 0) = (Some spu, best)"
    using assms by (cases "candidate_loop policy online (pst_leader st) (pst_replicas st) (None, 0)")
      (auto simp: candidate_leader_def)
  from candidate_loop_cases [OF this] show ?thesis by (auto intro: that)
qed

lemma candidate_leader_None:
  "candidate_leader policy online st = None \<longleftrightarrow>
     (\<forall>c \<in> set (pst_replicas st). rst_spu c \<in> online \<longrightarrow> policy c (pst_leader st) = NotSuitable)"
proof
  assume n: "candidate_leader policy online st = None"
  obtain best where l: "candidate_loop policy online (pst_leader st) (pst_replicas st) (None, 0) = (None, best)"
    using n by (cases "candidate_loop policy online (pst_leader st) (pst_replicas st) (None, 0)")
      (auto simp: candidate_leader_def)
  show "\<forall>c \<in> set (pst_replicas st). rst_spu c \<in> online \<longrightarrow> policy c (pst_leader st) = NotSuitable"
    using candidate_loop_cases [OF l] by (metis ElectionScoring.exhaust)
next
  assume a: "\<forall>c \<in> set (pst_replicas st). rst_spu c \<in> online \<longrightarrow> policy c (pst_leader st) = NotSuitable"
  show "candidate_leader policy online st = None"
  proof (rule ccontr)
    assume "candidate_leader policy online st \<noteq> None"
    then obtain spu where "candidate_leader policy online st = Some spu" by blast
    then show False using a by (elim candidate_leader_Some) auto
  qed
qed

text \<open>How far a replica is behind the leader, without wrap-around.\<close>

definition behind :: "PartitionStatus \<Rightarrow> ReplicaStatus \<Rightarrow> int" where
  "behind st c = sint (rst_leo (pst_leader st)) - sint (rst_leo c)"

definition not_ahead :: "PartitionStatus \<Rightarrow> ReplicaStatus \<Rightarrow> bool" where
  "not_ahead st c \<longleftrightarrow> 0 \<le> behind st c \<and> behind st c < 2 ^ 63"

lemma score_not_ahead:
  assumes "not_ahead st c"
  shows "potential_leader_score c (pst_leader st) = (if behind st c < 4 then Score (word_of_int (behind st c)) else NotSuitable)"
proof -
  have r: "0 \<le> behind st c" "behind st c < 2 ^ 63" using assms by (auto simp: not_ahead_def)
  have w: "rst_leo (pst_leader st) - rst_leo c = word_of_int (behind st c)"
    unfolding behind_def by simp
  have "sint (word_of_int (behind st c) :: i64) = behind st c"
    using r by (simp add: signed_of_int signed_take_bit_int_eq_self)
  moreover have "behind st c \<in> {0, 1, 2, 3}" if "behind st c < 4" using r that by auto
  ultimately show ?thesis
    unfolding potential_leader_score_def Let_def w by auto
qed

lemma candidate_closest:
  assumes "\<forall>c \<in> set (pst_replicas st). not_ahead st c"
  shows "(candidate_leader potential_leader_score online st = None
      \<longleftrightarrow> (\<forall>c \<in> set (pst_replicas st). rst_spu c \<in> online \<longrightarrow> 4 \<le> behind st c))
    \<and> (\<forall>spu. candidate_leader potential_leader_score online st = Some spu \<longrightarrow> spu \<in> online
        \<and> (\<exists>c \<in> set (pst_replicas st). rst_spu c = spu \<and> behind st c < 4
             \<and> (\<forall>d \<in> set (pst_replicas st). rst_spu d \<in> online \<longrightarrow> behind st c \<le> behind st d)))"
proof (intro conjI allI impI)
  note sc = score_not_ahead [OF bspec [OF assms]]
  show "candidate_leader potential_leader_score online st = None
      \<longleftrightarrow> (\<forall>c \<in> set (pst_replicas st). rst_spu c \<in> online \<longrightarrow> 4 \<le> behind st c)"
    unfolding candidate_leader_None using sc by (auto simp: not_less split: if_splits)
  fix spu
  assume "candidate_leader potential_leader_score online st = Some spu"
  then obtain c s where c: "c \<in> set (pst_replicas st)" "rst_spu c = spu" "spu \<in> online"
    "potential_leader_score c (pst_leader st) = Score s"
    "\<And>d t. d \<in> set (pst_replicas st) \<Longrightarrow> rst_spu d \<in> online \<Longrightarrow> potential_leader_score d (pst_leader st) = Score t \<Longrightarrow> s \<le> t"
    by (elim candidate_leader_Some) blast
  have cb: "behind st c < 4" "s = word_of_int (behind st c)" using c(1,4) sc by (auto split: if_splits)
  have small: "behind st x \<in> {0, 1, 2, 3}" if "x \<in> set (pst_replicas st)" "behind st x < 4" for x
    using that assms by (auto simp: not_ahead_def)
  have "behind st c \<le> behind st d" if d: "d \<in> set (pst_replicas st)" "rst_spu d \<in> online" for d
  proof (cases "behind st d < 4")
    case True
    then have "s \<le> word_of_int (behind st d)" using c(5) [OF d] sc [OF d(1)] by simp
    then show ?thesis using cb small [OF c(1) cb(1)] small [OF d(1) True] by (auto simp: word_le_def)
  qed (use cb in simp)
  then show "spu \<in> online" "\<exists>c \<in> set (pst_replicas st). rst_spu c = spu \<and> behind st c < 4
             \<and> (\<forall>d \<in> set (pst_replicas st). rst_spu d \<in> online \<longrightarrow> behind st c \<le> behind st d)"
    using c cb(1) by blast+
qed

text \<open>
  C27. The election finds a leader exactly when some replica is online and less
  than four records behind, and then chooses one that is online and as close to
  the leader as any other such replica, provided no replica is ahead of what the
  leader last reported.
\<close>

theorem candidate_leader_closest:
  assumes "\<forall>c \<in> set (pst_replicas st). not_ahead st c"
  shows "(candidate_leader potential_leader_score online st = None
      \<longleftrightarrow> (\<forall>c \<in> set (pst_replicas st). rst_spu c \<in> online \<longrightarrow> 4 \<le> behind st c))
    \<and> (\<forall>spu. candidate_leader potential_leader_score online st = Some spu \<longrightarrow> spu \<in> online
        \<and> (\<exists>c \<in> set (pst_replicas st). rst_spu c = spu \<and> behind st c < 4
             \<and> (\<forall>d \<in> set (pst_replicas st). rst_spu d \<in> online \<longrightarrow> behind st c \<le> behind st d)))"
  using candidate_closest [OF assms] .

definition st3 :: PartitionStatus where
  "st3 = pst_new \<lparr>rst_spu = 1, rst_hw = 8, rst_leo = 10\<rparr>
     [\<lparr>rst_spu = 2, rst_hw = 8, rst_leo = 7\<rparr>, \<lparr>rst_spu = 3, rst_hw = 8, rst_leo = 9\<rparr>]"

theorem candidate_leader_closest_witness:
  "candidate_leader potential_leader_score {2, 3} st3 = Some 3"
proof -
  have n: "\<forall>c \<in> set (pst_replicas st3). not_ahead st3 c"
    by (simp add: st3_def pst_new_def not_ahead_def behind_def)
  show ?thesis
    using candidate_leader_closest [OF n, of "{2, 3}"]
    by (cases "candidate_leader potential_leader_score {2, 3} st3")
      (auto simp: st3_def pst_new_def behind_def)
qed

text \<open>
  Of two online replicas the one that is ahead of what the leader last reported
  loses the election: the difference is negative, its low 16 bits make a score
  close to 65536, and the replica that is up to three records behind is chosen.
\<close>

theorem replica_ahead_loses_election:
  assumes "pst_replicas st = [ahead, late]" "{rst_spu ahead, rst_spu late} \<subseteq> online"
    and "- 32768 \<le> behind st ahead" "behind st ahead < 0" "0 \<le> behind st late" "behind st late < 4"
  shows "candidate_leader potential_leader_score online st = Some (rst_spu late)"
proof -
  have lag: "rst_leo (pst_leader st) - rst_leo c = word_of_int (behind st c)" for c
    unfolding behind_def by simp
  have "sint (word_of_int (behind st ahead) :: i64) = behind st ahead"
    using assms(3,4) by (simp add: signed_of_int signed_take_bit_int_eq_self)
  then have a: "potential_leader_score ahead (pst_leader st) = Score (ucast (word_of_int (behind st ahead) :: i64))"
    using assms(4) by (simp add: potential_leader_score_def lag Let_def)
  have l: "potential_leader_score late (pst_leader st) = Score (word_of_int (behind st late))"
    using score_not_ahead [of st late] assms(5,6) by (simp add: not_ahead_def)
  have ua: "(ucast (word_of_int (behind st ahead) :: i64) :: u16) = word_of_int (behind st ahead)"
    by (simp add: unsigned_ucast_eq ucast_down_wi is_down)
  have "uint (word_of_int (behind st ahead) :: u16) = behind st ahead + 65536"
  proof -
    have "take_bit 16 (behind st ahead) = take_bit 16 (behind st ahead + 65536)"
      by (simp add: take_bit_eq_mod)
    also have "\<dots> = behind st ahead + 65536" using assms(3,4) by (simp add: take_bit_int_eq_self)
    finally show ?thesis by (simp add: uint_word_of_int take_bit_eq_mod)
  qed
  moreover have "uint (word_of_int (behind st late) :: u16) = behind st late"
    using assms(5,6) by (simp add: unsigned_of_int take_bit_int_eq_self)
  ultimately have "(word_of_int (behind st late) :: u16) < word_of_int (behind st ahead)"
    using assms(3-6) by (simp add: word_less_def)
  then show ?thesis
    using assms(1,2) a l ua by (simp add: candidate_leader_def)
qed

theorem replica_ahead_loses_election_witness:
  "candidate_leader potential_leader_score {2, 3}
     (pst_new \<lparr>rst_spu = 1, rst_hw = 8, rst_leo = 10\<rparr>
       [\<lparr>rst_spu = 2, rst_hw = 8, rst_leo = 11\<rparr>, \<lparr>rst_spu = 3, rst_hw = 8, rst_leo = 7\<rparr>]) = Some 3"
  using replica_ahead_loses_election
    [of "pst_new \<lparr>rst_spu = 1, rst_hw = 8, rst_leo = 10\<rparr>
       [\<lparr>rst_spu = 2, rst_hw = 8, rst_leo = 11\<rparr>, \<lparr>rst_spu = 3, rst_hw = 8, rst_leo = 7\<rparr>]"
     "\<lparr>rst_spu = 2, rst_hw = 8, rst_leo = 11\<rparr>" "\<lparr>rst_spu = 3, rst_hw = 8, rst_leo = 7\<rparr>" "{2, 3}"]
  by (simp add: pst_new_def behind_def)

section \<open>Failover\<close>

text \<open>The effect of the actions on one object, when all of them update objects that exist.\<close>

fun obj_effect :: "('s, 't, 'k, 'c) WSAction \<Rightarrow> ('s, 't, 'k, 'c) MetadataStoreObject \<Rightarrow> ('s, 't, 'k, 'c) MetadataStoreObject" where
  "obj_effect (UpdateSpec k s) x = (if key x = k then x\<lparr>spec := s\<rparr> else x)"
| "obj_effect (UpdateStatus k t) x = (if key x = k then x\<lparr>status := t\<rparr> else x)"
| "obj_effect _ x = x"

fun updates_key :: "'k \<Rightarrow> ('s, 't, 'k, 'c) WSAction \<Rightarrow> bool" where
  "updates_key k (UpdateSpec k' _) = (k' = k)"
| "updates_key k (UpdateStatus k' _) = (k' = k)"
| "updates_key k _ = False"

lemma obj_effect_other:
  "updates_key k a \<Longrightarrow> key x \<noteq> k \<Longrightarrow> obj_effect a x = x"
  "key (obj_effect a x) = key x"
  by (cases a; auto)+

lemma fold_obj_effect_other:
  "\<forall>a \<in> set actions. updates_key k a \<Longrightarrow> key x \<noteq> k \<Longrightarrow> fold obj_effect actions x = x"
  "key (fold obj_effect actions x) = key x"
  by (induction actions arbitrary: x) (auto simp: obj_effect_other)

lemma ws_effect_updates:
  assumes "\<forall>a \<in> set actions. \<exists>k. updates_key k a"
  shows "fold ws_effect actions objects = map (fold obj_effect actions) objects"
  using assms
proof (induction actions arbitrary: objects)
  case (Cons a actions)
  then obtain k where "updates_key k a" by auto
  then have "ws_effect a objects = map (obj_effect a) objects" by (cases a) auto
  then show ?case using Cons by simp
qed simp

lemma obj_effect_own:
  assumes "distinct (map key ps)" "\<forall>p \<in> set ps. \<forall>a \<in> set (f p). updates_key (key p) a" "x \<in> set ps"
  shows "fold obj_effect (concat (map f ps)) x = fold obj_effect (f x) x"
proof -
  have other: "fold obj_effect (concat (map f qs)) y = y" if "set qs \<subseteq> set ps" "key y \<notin> key ` set qs" for qs y
    using that
  proof (induction qs)
    case (Cons q qs)
    then have "fold obj_effect (f q) y = y" using assms(2) by (intro fold_obj_effect_other(1) [of _ "key q"]) auto
    then show ?case using Cons by simp
  qed simp
  obtain as bs where ps: "ps = as @ x # bs" using split_list [OF assms(3)] by blast
  have k: "key x \<notin> key ` set as" "key x \<notin> key ` set bs" using assms(1) unfolding ps by auto
  have "fold obj_effect (concat (map f as)) x = x" using k(1) by (intro other) (auto simp: ps)
  then have "fold obj_effect (concat (map f ps)) x = fold obj_effect (concat (map f bs)) (fold obj_effect (f x) x)"
    unfolding ps by simp
  also have "\<dots> = fold obj_effect (f x) x"
    using k(2) by (intro other) (auto simp: ps fold_obj_effect_other(2))
  finally show ?thesis .
qed

lemma own_actions:
  assumes "distinct (map key ps)" "\<forall>p \<in> set ps. \<forall>a \<in> set (f p). updates_key (key p) a"
  shows "fold ws_effect (concat (map f ps)) ps = map (\<lambda>p. fold obj_effect (f p) p) ps"
proof -
  have "fold ws_effect (concat (map f ps)) ps = map (fold obj_effect (concat (map f ps))) ps"
    using assms(2) by (intro ws_effect_updates) auto
  also have "\<dots> = map (\<lambda>p. fold obj_effect (f p) p) ps"
    using obj_effect_own [OF assms] by (intro map_cong) auto
  finally show ?thesis .
qed

text \<open>What a failed SPU means for one partition.\<close>

definition fail_over :: "SpuId set \<Rightarrow> SpuId \<Rightarrow> 'c PartitionMetadata \<Rightarrow> 'c PartitionMetadata" where
  "fail_over online offline p =
     (if ps_leader (spec p) = offline then
        (case candidate_leader potential_leader_score online (status p) of
           Some candidate \<Rightarrow> p\<lparr>spec := (spec p)\<lparr>ps_leader := candidate\<rparr>\<rparr>
         | None \<Rightarrow> if pst_is_online (status p) then p\<lparr>status := (status p)\<lparr>pst_resolution := LeaderOffline\<rparr>\<rparr> else p)
      else p)"

lemma force_off_effect:
  assumes "distinct (map key ps)"
  shows "fold ws_effect (force_election_spu_off spus ps offline []) ps = map (fail_over (online_status spus) offline) ps"
proof -
  let ?f = "election_off_action (online_status spus) offline"
  have "\<forall>p \<in> set ps. \<forall>a \<in> set (?f p). updates_key (key p) a"
    by (auto simp: election_off_action_def split: if_splits option.splits)
  then have "fold ws_effect (concat (map ?f ps)) ps = map (\<lambda>p. fold obj_effect (?f p) p) ps"
    by (rule own_actions [OF assms])
  also have "(\<lambda>p. fold obj_effect (?f p) p) = fail_over (online_status spus) offline"
    by (rule ext) (simp add: election_off_action_def fail_over_def split: option.split)
  finally show ?thesis by (simp add: force_election_spu_off_def)
qed

lemma candidate_leader_online:
  "candidate_leader policy online st = Some spu \<Longrightarrow> spu \<in> online \<and> spu \<in> set (live_replicas st)"
  unfolding live_replicas_def by (erule candidate_leader_Some) auto

definition failed_over :: "SpuId set \<Rightarrow> SpuId \<Rightarrow> 'c PartitionMetadata \<Rightarrow> 'c PartitionMetadata \<Rightarrow> bool" where
  "failed_over online offline p p' \<longleftrightarrow> key p' = key p \<and>
     (if ps_leader (spec p) \<noteq> offline then p' = p
      else (ps_leader (spec p') \<in> online \<and> ps_leader (spec p') \<in> set (live_replicas (status p)) \<and> status p' = status p)
        \<or> (spec p' = spec p \<and> \<not> pst_is_online (status p')))"

lemma fail_over_ok: "failed_over online offline p (fail_over online offline p)"
proof (cases "ps_leader (spec p) = offline")
  case True
  then show ?thesis
    by (cases "candidate_leader potential_leader_score online (status p)")
      (auto simp: failed_over_def fail_over_def pst_is_online_def dest: candidate_leader_online)
qed (simp add: failed_over_def fail_over_def)

text \<open>
  C19. When an SPU has gone offline and the actions of the reducer are applied, no
  partition is left online with that SPU as its leader: each one it led is led
  by an SPU that is online and among the replicas of its status, or is no longer
  online. No other partition changes.
\<close>

theorem failover_leaves_no_dead_leader:
  assumes "distinct (map key ps)" "offline \<notin> online_status spus"
    and "ps' = fold ws_effect (force_election_spu_off spus ps offline []) ps"
  shows "(\<forall>p' \<in> set ps'. pst_is_online (status p') \<longrightarrow> ps_leader (spec p') \<noteq> offline)
    \<and> list_all2 (failed_over (online_status spus) offline) ps ps'"
proof -
  have ps': "ps' = map (fail_over (online_status spus) offline) ps" unfolding assms(3) by (rule force_off_effect [OF assms(1)])
  have "ps_leader (spec (fail_over (online_status spus) offline p)) \<noteq> offline"
    if "pst_is_online (status (fail_over (online_status spus) offline p))" for p
    using that fail_over_ok [of "online_status spus" offline p] assms(2) by (auto simp: failed_over_def split: if_splits)
  then show ?thesis
    unfolding ps' by (auto simp: list_all2_map2 fail_over_ok intro: list.rel_refl_strong)
qed

definition failing_store :: "nat PartitionStore" where
  "failing_store =
     [\<lparr>spec = ps_new 5001 [5001, 5000, 5002],
       status = (pst_new \<lparr>rst_spu = 5001, rst_hw = 7, rst_leo = 9\<rparr>
          [\<lparr>rst_spu = 5000, rst_hw = 7, rst_leo = 7\<rparr>, \<lparr>rst_spu = 5002, rst_hw = 7, rst_leo = 8\<rparr>])\<lparr>pst_resolution := Online\<rparr>,
       key = \<lparr>rk_topic = ''t'', rk_partition = 0\<rparr>, ctx = 0\<rparr>]"

theorem failover_leaves_no_dead_leader_witness:
  "list_all2 (failed_over (online_status three_spus) 5001) failing_store
     (fold ws_effect (force_election_spu_off three_spus failing_store 5001 []) failing_store)"
proof -
  have "distinct (map key failing_store)" by (simp add: failing_store_def)
  moreover have "5001 \<notin> online_status three_spus"
    by (simp add: three_spus_def spu_md_def online_status_def spu_is_online_def)
  ultimately show ?thesis using failover_leaves_no_dead_leader [OF _ _ refl] by blast
qed

section \<open>Failover keeps what is committed\<close>

lemma merge_replica_set:
  "c \<in> set (merge_replica s rs) \<Longrightarrow> c \<in> set rs \<or> c = s \<or> (\<exists>r \<in> set rs. rst_spu r = rst_spu s \<and> c = snd (rst_merge s r))"
  by (induction rs) (auto split: if_splits)

lemma fold_merge_all:
  assumes "\<And>s r. s \<in> set os \<Longrightarrow> P r \<Longrightarrow> rst_spu r = rst_spu s \<Longrightarrow> P (snd (rst_merge s r))"
    and "\<And>s. s \<in> set os \<Longrightarrow> P s" "\<And>r. r \<in> set rs \<Longrightarrow> P r" "c \<in> set (fold merge_replica os rs)"
  shows "P c"
  using assms
proof (induction os arbitrary: rs)
  case (Cons s os)
  have "P r" if "r \<in> set (merge_replica s rs)" for r
    using merge_replica_set [OF that] Cons.prems(1-3) by auto
  then show ?case using Cons.IH [of "merge_replica s rs"] Cons.prems by simp
qed simp

lemma merge_replica_hit:
  assumes "rst_spu s \<noteq> -1" "rst_leo s \<noteq> -1"
  shows "\<exists>c \<in> set (merge_replica s rs). rst_spu c = rst_spu s \<and> rst_leo c = rst_leo s"
  using assms by (induction rs) (auto simp: rst_merge_def)

lemma fold_merge_keep:
  "c \<in> set rs \<Longrightarrow> rst_spu c \<notin> rst_spu ` set os \<Longrightarrow> c \<in> set (fold merge_replica os rs)"
proof (induction os arbitrary: rs)
  case (Cons s os)
  have "c \<in> set (merge_replica s rs)" using Cons.prems by (induction rs) auto
  then show ?case using Cons by simp
qed simp

lemma fold_merge_hit:
  assumes "s \<in> set os" "distinct (map rst_spu os)" "rst_spu s \<noteq> -1" "rst_leo s \<noteq> -1"
  shows "\<exists>c \<in> set (fold merge_replica os rs). rst_spu c = rst_spu s \<and> rst_leo c = rst_leo s"
  using assms
proof (induction os arbitrary: rs)
  case (Cons a os)
  show ?case
  proof (cases "a = s")
    case True
    obtain c where c: "c \<in> set (merge_replica s rs)" "rst_spu c = rst_spu s" "rst_leo c = rst_leo s"
      using merge_replica_hit [OF Cons.prems(3,4)] by blast
    then have "c \<in> set (fold merge_replica os (merge_replica s rs))"
      using Cons.prems(2) True by (intro fold_merge_keep) auto
    then show ?thesis using c True by auto
  qed (use Cons in auto)
qed simp

text \<open>
  The identifiers of a cluster are not the placeholder of a status, and offsets
  stay below the last one a 64-bit offset can have. A status was reported before
  by a leader when it names no other leader and no replica further than the
  leader knows now.
\<close>

definition usual_leader :: "'s LeaderReplicaState \<Rightarrow> bool" where
  "usual_leader ld \<longleftrightarrow> ld_leader ld \<noteq> -1 \<and> ld_leader ld \<notin> fst ` set (ld_followers ld) \<and> -1 \<notin> fst ` set (ld_followers ld)
     \<and> (\<forall>f \<in> set (ld_followers ld). -1 \<le> sint (oi_leo (snd f)))
     \<and> 0 \<le> sint (sh_leo (ld_storage ld)) \<and> sint (sh_leo (ld_storage ld)) < 2 ^ 63 - 1"

definition known_to :: "'s LeaderReplicaState \<Rightarrow> ReplicaStatus \<Rightarrow> bool" where
  "known_to ld r \<longleftrightarrow> (\<exists>f \<in> set (ld_followers ld). fst f = rst_spu r
     \<and> -1 \<le> sint (rst_leo r) \<and> sint (rst_leo r) \<le> sint (oi_leo (snd f)))"

definition reported_before :: "'s LeaderReplicaState \<Rightarrow> PartitionStatus \<Rightarrow> bool" where
  "reported_before ld old \<longleftrightarrow> rst_spu (pst_leader old) \<in> {-1, ld_leader ld} \<and> (\<forall>r \<in> set (pst_replicas old). known_to ld r)"

definition report_status :: "LrsRequest \<Rightarrow> PartitionStatus" where
  "report_status r = pst_new2 (lrs_leader r) (lrs_replicas r) (lrs_size r) Online (lrs_base_offset r)"

lemma report_status_simps:
  "pst_leader (report_status (as_lrs_request st ld)) =
     \<lparr>rst_spu = ld_leader ld, rst_hw = sh_hw (ld_storage ld), rst_leo = sh_leo (ld_storage ld)\<rparr>"
  "pst_replicas (report_status (as_lrs_request st ld)) =
     map (\<lambda>(i, info). \<lparr>rst_spu = i, rst_hw = oi_hw info, rst_leo = oi_leo info\<rparr>) (ld_followers ld)"
  by (simp_all add: report_status_def pst_new2_def as_lrs_request_def Let_def)

lemma merged_report:
  assumes ld: "usual_leader ld" "bt_wf (ld_followers ld)" and old: "reported_before ld old"
    and s: "s = pst_merge (report_status (as_lrs_request st ld)) old"
  shows "rst_leo (pst_leader s) = sh_leo (ld_storage ld)"
    and "c \<in> set (pst_replicas s) \<Longrightarrow> known_to ld c"
    and "(i, info) \<in> set (ld_followers ld) \<Longrightarrow> oi_leo info \<noteq> -1 \<Longrightarrow>
           \<exists>c \<in> set (pst_replicas s). rst_spu c = i \<and> rst_leo c = oi_leo info"
proof -
  let ?os = "pst_replicas (report_status (as_lrs_request st ld))"
  have m: "rst_merge (pst_leader (report_status (as_lrs_request st ld))) (pst_leader old) =
      (None, \<lparr>rst_spu = ld_leader ld, rst_hw = (if sh_hw (ld_storage ld) \<noteq> -1 then sh_hw (ld_storage ld) else rst_hw (pst_leader old)),
              rst_leo = sh_leo (ld_storage ld)\<rparr>)"
    using ld(1) old by (auto simp: report_status_simps rst_merge_def usual_leader_def reported_before_def)
  show "rst_leo (pst_leader s) = sh_leo (ld_storage ld)" unfolding s pst_merge_simps(1) m by simp
  have rs: "pst_replicas s = filter (\<lambda>x. rst_spu x \<noteq> ld_leader ld) (fold merge_replica ?os (pst_replicas old))"
    unfolding s pst_merge_simps m by simp
  have os: "\<exists>info. (rst_spu x, info) \<in> set (ld_followers ld) \<and> rst_leo x = oi_leo info" if "x \<in> set ?os" for x
    using that by (auto simp: report_status_simps)
  show "known_to ld c" if "c \<in> set (pst_replicas s)"
  proof (rule fold_merge_all [where P = "known_to ld" and os = ?os and rs = "pst_replicas old"])
    show k: "known_to ld x" if "x \<in> set ?os" for x
      using os [OF that] ld(1) by (force simp: known_to_def usual_leader_def)
    show "known_to ld (snd (rst_merge x r))" if "x \<in> set ?os" "known_to ld r" "rst_spu r = rst_spu x" for x r
    proof -
      have "rst_spu (snd (rst_merge x r)) = rst_spu r" "rst_leo (snd (rst_merge x r)) \<in> {rst_leo x, rst_leo r}"
        using that(3) by (auto simp: rst_merge_def)
      then show ?thesis using k [OF that(1)] that(2,3) unfolding known_to_def by auto
    qed
  qed (use that old rs in \<open>auto simp: reported_before_def\<close>)
  show "\<exists>c \<in> set (pst_replicas s). rst_spu c = i \<and> rst_leo c = oi_leo info"
    if f: "(i, info) \<in> set (ld_followers ld)" "oi_leo info \<noteq> -1"
  proof -
    have d: "distinct (map rst_spu ?os)"
      using ld(2) by (simp add: report_status_simps bt_wf_def strict_sorted_iff case_prod_beta comp_def)
    have i: "i \<noteq> -1" "i \<noteq> ld_leader ld" using f(1) ld(1) by (force simp: usual_leader_def)+
    have "\<lparr>rst_spu = i, rst_hw = oi_hw info, rst_leo = oi_leo info\<rparr> \<in> set ?os"
      using f(1) by (force simp: report_status_simps)
    from fold_merge_hit [OF this d] i f(2) show ?thesis unfolding rs by auto
  qed
qed

lemma reached_online:
  assumes "length (filter (\<lambda>f. fst f \<notin> online) followers) < reached x followers"
  obtains f where "f \<in> set followers" "fst f \<in> online" "x \<le> sint (oi_leo (snd f))"
proof (rule ccontr)
  assume "\<not> thesis"
  then have "\<forall>f \<in> set followers. x \<le> sint (oi_leo (snd f)) \<longrightarrow> fst f \<notin> online" using that by blast
  then have "reached x followers \<le> length (filter (\<lambda>f. fst f \<notin> online) followers)"
    unfolding reached_def by (induction followers) auto
  then show False using assms by simp
qed

lemma elected_is_current:
  assumes ld: "usual_leader ld" "leader_ok st holds ld bs" and old: "reported_before ld old"
    and s: "s = pst_merge (report_status (as_lrs_request st ld)) old"
    and up: "f \<in> set (ld_followers ld)" "fst f \<in> online" "hw \<le> sint (oi_leo (snd f))"
    and elected: "candidate_leader potential_leader_score online s = Some spu"
  shows "\<exists>info. (spu, info) \<in> set (ld_followers ld) \<and> hw \<le> sint (oi_leo info)"
proof -
  have wf: "bt_wf (ld_followers ld)" and le: "\<And>f. f \<in> set (ld_followers ld) \<Longrightarrow> sint (oi_leo (snd f)) \<le> sint (sh_leo (ld_storage ld))"
    using ld(2) unfolding leader_ok_def Let_def by blast+
  note m = merged_report [OF ld(1) wf old s]
  have na: "\<forall>c \<in> set (pst_replicas s). not_ahead s c"
  proof
    fix c
    assume "c \<in> set (pst_replicas s)"
    from m(2) [OF this] have "-1 \<le> sint (rst_leo c)" "sint (rst_leo c) \<le> sint (sh_leo (ld_storage ld))"
      using le by (force simp: known_to_def)+
    then show "not_ahead s c" using ld(1) by (simp add: not_ahead_def behind_def m(1) usual_leader_def)
  qed
  note best = candidate_closest [OF na, of online, THEN conjunct2, rule_format, OF elected, THEN conjunct2]
  then obtain c where "c \<in> set (pst_replicas s)" "rst_spu c = spu"
    and close: "\<forall>d \<in> set (pst_replicas s). rst_spu d \<in> online \<longrightarrow> behind s c \<le> behind s d"
    by (elim bexE conjE)
  note c = this(1,2) close [rule_format]
  from m(2) [OF c(1)] obtain info where info: "(spu, info) \<in> set (ld_followers ld)"
    "-1 \<le> sint (rst_leo c)" "sint (rst_leo c) \<le> sint (oi_leo info)"
    unfolding known_to_def c(2) by auto
  have "hw \<le> sint (oi_leo info)"
  proof (cases "oi_leo (snd f) = -1")
    case False
    then obtain d where "d \<in> set (pst_replicas s)" "rst_spu d = fst f" "rst_leo d = oi_leo (snd f)"
      using m(3) [of "fst f" "snd f"] up(1) by auto
    then show ?thesis using c(3) [of d] up(2,3) info(3) by (simp add: behind_def)
  qed (use up(3) info in simp)
  with info(1) show ?thesis by blast
qed

lemma receive_one_report:
  assumes "distinct (map key ps)"
  shows "fold ws_effect (receive_lrs_update ps [r]) ps =
    map (\<lambda>p. if key p = lrs_id r then p\<lparr>status := pst_merge (report_status r) (status p)\<rparr> else p) ps"
proof (cases "find (\<lambda>p. key p = lrs_id r) ps")
  case None
  then have "\<forall>p \<in> set ps. key p \<noteq> lrs_id r" by (auto simp: find_None_iff)
  then have "map (\<lambda>p. if key p = lrs_id r then p\<lparr>status := pst_merge (report_status r) (status p)\<rparr> else p) ps = ps"
    by (intro map_idI) auto
  then show ?thesis using None by (simp add: receive_lrs_update_def)
next
  case (Some p)
  then have p: "p \<in> set ps" "key p = lrs_id r" by (auto simp: find_Some_iff)
  then have "q = p" if "q \<in> set ps" "key q = lrs_id r" for q
    using assms that by (auto simp: distinct_map inj_on_def)
  then show ?thesis using Some by (auto simp: receive_lrs_update_def report_status_def)
qed

text \<open>
  C4. Failover keeps what is committed. A leader serves producers, mirrors and
  followers in any order; its high watermark has moved, and it has reported its
  status to the controller, which merges the report into what the same leader
  reported before. If the leader then fails, fewer followers are offline than its
  quorum has, and no identifier or offset is an extreme value, the partition is
  either taken offline or led by a follower that is known to hold every record up
  to the high watermark.
\<close>

theorem failover_keeps_committed:
  assumes "leader_steps (file_storage crc32c mm short) file_accepts (comms, ld) (comms', ld')"
    and "leader_ok (file_storage crc32c mm short) (file_holds crc32c mm) ld bs"
    and "ld_in_sync_replica ld \<noteq> 1" "sh_hw (ld_storage ld') \<noteq> sh_hw (ld_storage ld)" "usual_leader ld'"
    and "distinct (map key ps)" "p \<in> set ps" "key p = ld_id ld'" "ps_leader (spec p) = ld_leader ld'"
    and "reported_before ld' (status p)"
    and "length (filter (\<lambda>f. fst f \<notin> online_status spus) (ld_followers ld')) < quorum (ld_in_sync_replica ld) (ld_followers ld')"
    and "ps1 = fold ws_effect (receive_lrs_update ps [as_lrs_request (file_storage crc32c mm short) ld']) ps"
    and "ps2 = fold ws_effect (force_election_spu_off spus ps1 (ld_leader ld') []) ps1"
  shows "\<exists>p2 \<in> set ps2. key p2 = ld_id ld' \<and>
    (pst_resolution (status p2) = LeaderOffline \<or>
     (\<exists>info. (ps_leader (spec p2), info) \<in> set (ld_followers ld') \<and> sint (sh_hw (ld_storage ld')) \<le> sint (oi_leo info)))"
proof -
  let ?st = "file_storage crc32c mm short" and ?on = "online_status spus"
  let ?s = "pst_merge (report_status (as_lrs_request ?st ld')) (status p)"
  obtain new where ok: "leader_ok ?st (file_holds crc32c mm) ld' (bs @ new)" and adv: "leader_advance ld ld'"
    using fr.steps_ok [OF assms(1)] assms(2) by auto
  have "quorum (ld_in_sync_replica ld) (ld_followers ld') \<le> reached (sint (sh_hw (ld_storage ld'))) (ld_followers ld')"
    using adv assms(3,4) by (auto simp: leader_advance_def)
  then obtain f where f: "f \<in> set (ld_followers ld')" "fst f \<in> ?on" "sint (sh_hw (ld_storage ld')) \<le> sint (oi_leo (snd f))"
    using assms(11) by (elim reached_online [OF order.strict_trans2])
  let ?p1 = "p\<lparr>status := ?s\<rparr>"
  have id: "lrs_id (as_lrs_request ?st ld') = key p" using assms(8) by (simp add: as_lrs_request_def Let_def)
  have ps1: "ps1 = map (\<lambda>q. if key q = key p then q\<lparr>status := pst_merge (report_status (as_lrs_request ?st ld')) (status q)\<rparr> else q) ps"
    unfolding assms(12) receive_one_report [OF assms(6)] id ..
  have "?p1 \<in> set ps1" unfolding ps1 using assms(7) by (auto intro: image_eqI [of _ _ p])
  moreover have "map key ps1 = map key ps" unfolding ps1 by simp
  ultimately have "fail_over ?on (ld_leader ld') ?p1 \<in> set ps2"
    unfolding assms(13) using force_off_effect [of ps1 spus] assms(6) by simp
  moreover have "pst_is_online ?s"
    by (simp add: pst_is_online_def pst_merge_def update_lrs_def report_status_def pst_new2_def Let_def case_prod_beta)
  ultimately show ?thesis
    using assms(8,9) elected_is_current [OF assms(5) ok assms(10) refl f]
    by (intro bexI [of _ "fail_over ?on (ld_leader ld') ?p1"]) (auto simp: fail_over_def split: option.splits)
qed

text \<open>A partition that has no status yet, led by the leader of the example, of which SPU 2 is online.\<close>

definition new_store :: "ReplicaKey \<Rightarrow> nat PartitionStore" where
  "new_store k = [\<lparr>spec = ps_new 1 [1, 2, 3], status = default_partition_status, key = k, ctx = 0\<rparr>]"

theorem failover_keeps_committed_witness:
  "\<exists>comms ld. leader_steps (file_storage (\<lambda>_. 0) mm0 (\<lambda>_. 3)) file_accepts (comms0, leader0) (comms, ld) \<and>
     sh_hw (ld_storage ld) = 11 \<and>
     (let ps1 = fold ws_effect (receive_lrs_update (new_store (ld_id ld)) [as_lrs_request (file_storage (\<lambda>_. 0) mm0 (\<lambda>_. 3)) ld]) (new_store (ld_id ld))
      in \<exists>p2 \<in> set (fold ws_effect (force_election_spu_off [spu_md 2 SpuOnline] ps1 1 []) ps1).
           pst_resolution (status p2) = LeaderOffline
           \<or> (\<exists>info. (ps_leader (spec p2), info) \<in> set (ld_followers ld) \<and> 11 \<le> sint (oi_leo info)))"
proof -
  obtain comms ld where h: "leader_steps (file_storage (\<lambda>_. 0) mm0 (\<lambda>_. 3)) file_accepts (comms0, leader0) (comms, ld)"
    "sh_hw (ld_storage ld) = 11" "sh_leo (ld_storage ld) = 11" "ld_leader ld = 1"
    "ld_followers ld = [(2, \<lparr>oi_hw = 10, oi_leo = 11\<rparr>), (3, \<lparr>oi_hw = 10, oi_leo = 11\<rparr>)]"
    by (rule example_leader)
  have u: "usual_leader ld" by (simp add: usual_leader_def h)
  have on: "online_status [spu_md 2 SpuOnline] = {2}"
    by (simp add: online_status_def spu_md_def spu_is_online_def)
  have q: "length (filter (\<lambda>f. fst f \<notin> online_status [spu_md 2 SpuOnline]) (ld_followers ld))
      < quorum (ld_in_sync_replica leader0) (ld_followers ld)"
    by (simp add: on h leader0_simps quorum_def)
  have r: "reported_before ld default_partition_status"
    by (simp add: reported_before_def default_partition_status_def default_replica_status_def)
  define ps where "ps = new_store (ld_id ld)"
  define ps1 where "ps1 = fold ws_effect (receive_lrs_update ps [as_lrs_request (file_storage (\<lambda>_. 0) mm0 (\<lambda>_. 3)) ld]) ps"
  have "\<exists>p2 \<in> set (fold ws_effect (force_election_spu_off [spu_md 2 SpuOnline] ps1 (ld_leader ld) []) ps1). key p2 = ld_id ld \<and>
    (pst_resolution (status p2) = LeaderOffline \<or>
     (\<exists>info. (ps_leader (spec p2), info) \<in> set (ld_followers ld) \<and> sint (sh_hw (ld_storage ld)) \<le> sint (oi_leo info)))"
    by (rule failover_keeps_committed [OF h(1) leader0_ok _ _ u _ _ _ _ _ q ps1_def refl, where p = "hd ps"])
      (use r h in \<open>simp_all add: ps_def new_store_def ps_new_def leader0_simps\<close>)
  then have "\<exists>p2 \<in> set (fold ws_effect (force_election_spu_off [spu_md 2 SpuOnline] ps1 1 []) ps1).
    pst_resolution (status p2) = LeaderOffline \<or>
    (\<exists>info. (ps_leader (spec p2), info) \<in> set (ld_followers ld) \<and> 11 \<le> sint (oi_leo info))"
    unfolding h(2,4) sint_numeral by auto
  then show ?thesis
    using h(1,2) unfolding ps1_def ps_def Let_def by blast
qed

section \<open>Reports\<close>

lemma lrs_actions_eq:
  "lrs_actions ps requests actions =
     (if \<forall>r \<in> set requests. lrs_id r \<in> key ` set ps
      then Some (actions @ map (\<lambda>r. UpdateStatus (lrs_id r)
             (pst_merge (report_status r) (status (the (find (\<lambda>p. key p = lrs_id r) ps))))) requests)
      else None)"
proof (induction requests arbitrary: actions)
  case (Cons r requests)
  have "find (\<lambda>p. key p = lrs_id r) ps = None \<longleftrightarrow> lrs_id r \<notin> key ` set ps"
    by (force simp: find_None_iff)
  then show ?case using Cons by (cases "find (\<lambda>p. key p = lrs_id r) ps") (simp_all add: report_status_def)
qed simp

text \<open>
  The reports of one message are all taken or all dropped: one that names a
  partition the controller does not have drops the others with it. A report that
  is taken replaces the size and sets the partition online; the base offset it
  carries is not taken over.
\<close>

theorem lrs_update_all_or_nothing:
  "if \<forall>r \<in> set requests. lrs_id r \<in> key ` set ps
   then map (\<lambda>a. case a of UpdateStatus k t \<Rightarrow> Some (k, pst_resolution t, pst_size t, pst_base_offset t) | _ \<Rightarrow> None)
          (receive_lrs_update ps requests)
        = map (\<lambda>r. Some (lrs_id r, Online, lrs_size r,
              pst_base_offset (status (the (find (\<lambda>p. key p = lrs_id r) ps))))) requests
   else receive_lrs_update ps requests = []"
proof (cases "\<forall>r \<in> set requests. lrs_id r \<in> key ` set ps")
  case True
  have "receive_lrs_update ps requests = map (\<lambda>r. UpdateStatus (lrs_id r)
      (pst_merge (report_status r) (status (the (find (\<lambda>p. key p = lrs_id r) ps))))) requests"
    unfolding receive_lrs_update_def lrs_actions_eq if_P [OF True] by simp
  moreover have "pst_resolution (pst_merge (report_status r) old) = Online"
    "pst_size (pst_merge (report_status r) old) = lrs_size r"
    "pst_base_offset (pst_merge (report_status r) old) = pst_base_offset old" for r old
    by (simp_all add: report_status_def pst_new2_def pst_merge_def update_lrs_def Let_def case_prod_beta)
  ultimately show ?thesis unfolding if_P [OF True] by (simp add: comp_def)
next
  case False
  then show ?thesis unfolding if_not_P [OF False] receive_lrs_update_def lrs_actions_eq by simp
qed

theorem lrs_update_all_or_nothing_witness:
  "receive_lrs_update failing_store
     [\<lparr>lrs_id = \<lparr>rk_topic = ''t'', rk_partition = 0\<rparr>, lrs_leader = default_replica_status, lrs_replicas = [], lrs_size = 5, lrs_base_offset = 3\<rparr>,
      \<lparr>lrs_id = \<lparr>rk_topic = ''u'', rk_partition = 0\<rparr>, lrs_leader = default_replica_status, lrs_replicas = [], lrs_size = 5, lrs_base_offset = 3\<rparr>] = []"
  (is "receive_lrs_update _ ?requests = []")
proof -
  have "\<not> (\<forall>r \<in> set ?requests. lrs_id r \<in> key ` set failing_store)" by (simp add: failing_store_def)
  with lrs_update_all_or_nothing [of ?requests failing_store] show ?thesis by presburger
qed

end
