(* ===== verification/Spec2Isabelle.thy ===== *)
theory Spec2Isabelle
  imports Store_Sync Replication_Sync Partition_Election
begin

text \<open>
  \<^bold>\<open>Verification of the core of Fluvio\<close>, a distributed streaming platform: the wire
  protocol, the storage of a partition, its replication, and the control plane
  that decides where partitions live and who leads them. All paths below are
  relative to \<open>src/crates\<close>.

  \<^bold>\<open>The program.\<close> Records travel in batches and record sets. A streaming
  processing unit (SPU) keeps each partition as a replica log: a list of closed
  segments and one active segment, each a log file with a sparse index. The SPU
  that leads a partition accepts writes, answers the followers that ask for what
  they lack, and moves the high watermark to what enough followers have reported.
  It reports offsets to the streaming controller (SC). The SC keeps topics,
  partitions and SPUs in metadata stores, schedules the partitions of a topic on
  SPUs, elects a new leader when an SPU fails, and stores its metadata in files. SPUs
  and clients follow the stores of the SC through watch messages.

  \<^bold>\<open>Theories, in the order they build on each other.\<close>

  \<^item> \<open>Fluvio_Prelude\<close>: types, sorted association lists for \<open>BTreeMap\<close>, number printing
    and lemmas on lists and words that the components share.
  \<^item> \<open>Wire_Codec\<close> (\<open>fluvio-protocol/src/core\<close>, \<open>fluvio-protocol-derive\<close>): encoders and
    decoders as dictionaries over sinks with limited room and byte lists. The locales
    \<open>codec\<close> and \<open>strict_codec\<close> state what a pair of them promises; every
    implementation is an interpretation.
  \<^item> \<open>Varint\<close> (\<open>core/varint.rs\<close>): the loops on 64-bit words; the 32-bit range
    survives, no number beyond it does.
  \<^item> \<open>Record_Data\<close>, \<open>Record_Batch\<close> (\<open>fluvio-protocol/src/record\<close>,
    \<open>fluvio-compression\<close>): records, batches with attributes, lengths and checksum, record
    sets. The locale \<open>batch_records\<close> is the trait of the record part, interpreted for
    raw and in-memory records. Round trips, rejection of truncated batches, lengths.
  \<^item> \<open>Epoch_Map\<close>, \<open>Metadata_Store\<close>, \<open>Store_Sync\<close> (\<open>fluvio-stream-model\<close>, watch service of
    \<open>fluvio-sc\<close>, \<open>fluvio/src/sync\<close>): maps with epochs, the local store, its listeners, the
    watch message and the client cache. \<open>apply_changes\<close> refines changes of a plain map;
    listeners and clients converge; interleavings of writers, publications and
    listeners are step relations.
  \<^item> \<open>Log_Index\<close>, \<open>Log_Segment\<close> (\<open>fluvio-storage\<close>): index search, writing, reopening and
    rebuilding; segments with appending, slices, validation and repair. The locale
    \<open>segment_log\<close> is what both kinds of segment offer to readers.
  \<^item> \<open>Replica_Log\<close>, \<open>Replica_Load\<close> (\<open>fluvio-storage/src/replica.rs\<close>, \<open>segments.rs\<close>,
    \<open>checkpoint.rs\<close>, \<open>cleaner.rs\<close>): the replica over its segments; writing appends to and
    reading returns one log, across segments, restarts and torn writes.
  \<^item> \<open>Replication\<close>, \<open>Replication_Sync\<close> (\<open>fluvio-spu/src/storage\<close>, \<open>replication\<close>): the leader,
    the follower and one exchange between them. The locale \<open>replica_storage\<close> is the
    trait \<open>ReplicaStorage\<close>, interpreted on the replica of \<open>Replica_Log\<close>; histories of a
    leader are an inductive relation.
  \<^item> \<open>Topic_Model\<close> (\<open>fluvio-controlplane-metadata\<close>): specs and statuses of topics,
    partitions and SPUs, and the validation of assigned maps.
  \<^item> \<open>Partition_Scheduler\<close> (\<open>fluvio-sc/src/controllers/scheduler\<close>, store queries): placing
    replicas by leader and follower counts.
  \<^item> \<open>Local_Metadata\<close> (\<open>fluvio-stream-dispatcher\<close>): the file based metadata storage and the
    dispatcher between it and the local stores.
  \<^item> \<open>Topic_Controller\<close> (\<open>fluvio-sc/src/controllers/topics\<close>): the state machine of a topic
    and the reducer.
  \<^item> \<open>Partition_Election\<close> (\<open>fluvio-sc/src/stores/partition\<close>, \<open>controllers/partitions\<close>,
    \<open>private_server.rs\<close>): merging reports, electing leaders, and the composition of
    election and replication.

  \<^bold>\<open>How the code is modelled.\<close> Structs are records, enums datatypes, integers words of
  their width where arithmetic on them can wrap. Functions that change state return
  it; errors are values: \<open>fault\<close> for I/O errors, panics and non-termination in the
  codecs, \<open>storage_error\<close> and \<open>ErrorCode\<close> in the storage. Overflow wraps, as in release
  builds. Hash maps are association lists sorted by key, so the order in which they
  enumerate is one of those the code may show. Metadata contexts are a dictionary of
  their operations. The effect of the controllers' actions on the stores
  (\<open>ws_effect\<close>) is what the dispatcher does with an action that is not stale.

  \<^bold>\<open>Parameters\<close> stand for code outside the sources: the checksum, the compression
  algorithms, what a memory mapping of an index file shows (\<open>mapping\<close>), how many bytes a
  read of a file returns (\<open>short\<close>), the SmartModule transformation, the YAML format and the
  text form of keys. Hypotheses on them are named (\<open>mapping_ok\<close>, \<open>io_ok\<close>) and
  instantiated in the witnesses.

  \<^bold>\<open>Termination and fuel.\<close> The varint size loop may not end and is a partial function;
  one theorem shows an input on which it does not. The decoding of the batches of a
  record set takes the number of bytes as fuel, which is enough because a batch
  consumes at least its header. Searches with short reads are partial functions;
  the theorems on them state that they return.

  \<^bold>\<open>Bounds.\<close> Epochs of stores, their counters and revisions of stored objects are
  unbounded numbers: they count updates and stay far below 64 bits.

  \<^bold>\<open>Not modelled.\<close> Sockets, request loops and timers, since their behaviour is that of
  the asynchronous runtime; the file system beyond contents and names, whose calls
  succeed, so errors of closing and removing files are left out; the SmartModule engine
  and everything in WebAssembly; mirroring to other clusters beyond its metadata;
  the key-value storage; the Kubernetes client; the producer and consumer clients
  above the codecs; command line tools, connectors, packaging and tests.
\<close>

end
